(* ===== verification/Flex_Prelude.thy ===== *)
theory Flex_Prelude
  imports Main "HOL-Library.Word"
begin

text \<open>
  Shared by all theories: the machine integer types of the C sources, the collection \<open>word_nat\<close> of
  rules that turn 64-bit arithmetic without overflow into arithmetic on natural numbers, and the
  results of operations that may block or leave their memory.
\<close>

unbundle bit_operations_syntax

type_synonym u8 = "8 word"
type_synonym u16 = "16 word"
type_synonym u32 = "32 word"
type_synonym u64 = "64 word"
type_synonym i32 = "32 word"
type_synonym byte = u8

named_theorems word_nat

lemma unat_lt_2p64 [simp]: "unat (x :: u64) < 18446744073709551616"
  using unsigned_less [of x] by simp

lemma unat_add_u64 [word_nat]:
  "unat (a :: u64) + unat b < 2 ^ 64 \<Longrightarrow> unat (a + b) = unat a + unat b"
  using unat_add_lem [of a b] by simp

lemma unat_inc_u64 [word_nat]: "unat (a :: u64) + 1 < 2 ^ 64 \<Longrightarrow> unat (a + 1) = unat a + 1"
  using unat_add_lem [of a 1] by simp

lemma unat_dec_u64 [word_nat]: "0 < (a :: u64) \<Longrightarrow> unat (a - 1) = unat a - 1"
  by (rule unat_minus_one) auto

lemma unat_sub_u64 [word_nat]: "unat (b :: u64) \<le> unat a \<Longrightarrow> unat (a - b) = unat a - unat b"
  by (rule unat_sub) (simp add: word_le_nat_alt)

lemma unat_and_63 [word_nat]: "unat (x AND 63 :: u64) = unat x mod 64"
proof -
  have "x AND 63 = take_bit 6 x"
    by (simp add: take_bit_eq_mask mask_eq_exp_minus_1)
  also have "\<dots> = x mod 64"
    by (simp add: take_bit_eq_mod)
  finally show ?thesis by (simp add: unat_mod_distrib)
qed

lemma u64_pos_iff [word_nat]: "0 < (x :: u64) \<longleftrightarrow> 0 < unat x"
  by (simp add: word_less_nat_alt)

lemma unat_ucast_u32 [simp]: "unat (ucast (x :: u32) :: u64) = unat x"
proof -
  have "unat x < 2 ^ 32" using unsigned_less [of x] by simp
  then show ?thesis by (simp add: unsigned_ucast_eq take_bit_nat_eq_self_iff)
qed

datatype 'a cresult = Done 'a | Blocked 'a | OutOfBounds

fun the_state :: "'a cresult \<Rightarrow> 'a option" where
  "the_state (Done a) = Some a"
| "the_state (Blocked a) = Some a"
| "the_state OutOfBounds = None"


text \<open>
  The outcome of running a piece of a thread: it returns, calls \<^verbatim>\<open>error()\<close> (the thread cleans up and
  exits), calls \<^verbatim>\<open>fatal()\<close> (the process aborts), sleeps on a condition variable that nobody has
  signalled yet, spins in a loop for ever, or accesses memory it does not own.
\<close>

datatype ('s, 'a) outcome = Ret 'a 's | Error 's | Fatal 's | Asleep 's | Spins | Fault

fun and_then :: "('s, 'a) outcome \<Rightarrow> ('a \<Rightarrow> 's \<Rightarrow> ('s, 'b) outcome) \<Rightarrow> ('s, 'b) outcome" where
  "and_then (Ret a s) k = k a s"
| "and_then (Error s) k = Error s"
| "and_then (Fatal s) k = Fatal s"
| "and_then (Asleep s) k = Asleep s"
| "and_then Spins k = Spins"
| "and_then Fault k = Fault"

lemma and_then_Ret [simp]:
  "and_then m k = Ret b s' \<longleftrightarrow> (\<exists>a s. m = Ret a s \<and> k a s = Ret b s')"
  by (cases m) auto

lemma and_then_assoc: "and_then (and_then m k) h = and_then m (\<lambda>a s. and_then (k a s) h)"
  by (cases m) auto

text \<open>
  Interleavings are step relations.  The contract of a step invariant is that it holds initially and
  every step keeps it; then it holds in every reachable state.
\<close>

locale step_invariant =
  fixes init :: "'s \<Rightarrow> bool"
    and step :: "'s \<Rightarrow> 's \<Rightarrow> bool"
    and inv :: "'s \<Rightarrow> bool"
  assumes init_inv: "init s \<Longrightarrow> inv s"
    and step_inv: "inv s \<Longrightarrow> step s s' \<Longrightarrow> inv s'"
begin

lemma steps_inv: "step\<^sup>*\<^sup>* s s' \<Longrightarrow> inv s \<Longrightarrow> inv s'"
  by (induction rule: rtranclp_induct) (auto intro: step_inv)

lemma reachable_inv: "init s \<Longrightarrow> step\<^sup>*\<^sup>* s s' \<Longrightarrow> inv s'"
  by (blast intro: init_inv steps_inv)

end

end
