(* ===== verification/Bitfield.thy ===== *)
theory Bitfield
  imports Flex_Prelude
begin

text \<open>
  The bit level of \<^verbatim>\<open>src/src/server/bitset.h\<close> (lines 15 to 146): arrays of 64-bit words, the
  single-bit accessors, the range operations that go word by word in the middle
  (\<^verbatim>\<open>memset\<close> of \<open>len / 8\<close> bytes) and the run counter.  An access outside the array is \<open>None\<close>.
  \<open>bf_bit\<close> reads an array as a sequence of bits, \<open>fills\<close> says that exactly the bits of a set were
  given a value and \<open>is_run\<close> that a count is the length of the maximal run; the range operations
  and the run counter are proved equal to them.  The locale \<open>bit_writer\<close> is what the two range
  operations need of the single-bit operation, interpreted for \<open>bit_set\<close> and \<open>bit_clear\<close>.
\<close>

type_synonym bitfield = "u64 list"

definition BITS_PER_WORD :: u64 where
  "BITS_PER_WORD = 64"

definition BIT_MASK :: "u64 \<Rightarrow> u64" where
  "BIT_MASK idx = push_bit (unat (idx AND (BITS_PER_WORD - 1))) 1"

definition BIT_WORD :: "bitfield \<Rightarrow> u64 \<Rightarrow> u64 option" where
  "BIT_WORD b idx =
     (let k = unat (idx div BITS_PER_WORD) in if k < length b then Some (b ! k) else None)"

definition BIT_WORD_put :: "bitfield \<Rightarrow> u64 \<Rightarrow> u64 \<Rightarrow> bitfield option" where
  "BIT_WORD_put b idx w =
     (let k = unat (idx div BITS_PER_WORD) in if k < length b then Some (b[k := w]) else None)"

definition BIT_WORDS_FOR_SIZE :: "u64 \<Rightarrow> u64" where
  "BIT_WORDS_FOR_SIZE bytes = (bytes + (8 - 1)) div 8"

definition bit_get :: "bitfield \<Rightarrow> u64 \<Rightarrow> int option" where
  "bit_get b idx =
     map_option (\<lambda>w. uint (drop_bit (unat (idx AND (BITS_PER_WORD - 1))) w AND 1)) (BIT_WORD b idx)"

definition bit_is_set :: "bitfield \<Rightarrow> u64 \<Rightarrow> int option" where
  "bit_is_set b idx = bit_get b idx"

definition bit_is_clear :: "bitfield \<Rightarrow> u64 \<Rightarrow> int option" where
  "bit_is_clear b idx = map_option (\<lambda>v. if v = 0 then 1 else 0) (bit_get b idx)"

definition bit_has_value :: "bitfield \<Rightarrow> u64 \<Rightarrow> int \<Rightarrow> bool option" where
  "bit_has_value b idx value =
     map_option (\<lambda>v. v = (if value = 0 then 0 else 1)) (bit_get b idx)"

definition bit_set :: "bitfield \<Rightarrow> u64 \<Rightarrow> bitfield option" where
  "bit_set b idx =
     (case BIT_WORD b idx of None \<Rightarrow> None | Some w \<Rightarrow> BIT_WORD_put b idx (w OR BIT_MASK idx))"

definition bit_clear :: "bitfield \<Rightarrow> u64 \<Rightarrow> bitfield option" where
  "bit_clear b idx =
     (case BIT_WORD b idx of None \<Rightarrow> None | Some w \<Rightarrow> BIT_WORD_put b idx (w AND NOT (BIT_MASK idx)))"

definition put_byte :: "bitfield \<Rightarrow> nat \<Rightarrow> u8 \<Rightarrow> bitfield option" where
  "put_byte b k v =
     (if k div 8 < length b
      then Some (b[k div 8 := (b ! (k div 8) AND NOT (push_bit (8 * (k mod 8)) 255))
                              OR push_bit (8 * (k mod 8)) (ucast v)])
      else None)"

fun mem_set :: "bitfield \<Rightarrow> nat \<Rightarrow> u8 \<Rightarrow> nat \<Rightarrow> bitfield option" where
  "mem_set b off v 0 = Some b"
| "mem_set b off v (Suc n) =
     (case put_byte b off v of None \<Rightarrow> None | Some b' \<Rightarrow> mem_set b' (Suc off) v n)"

function bit_head_loop ::
  "(bitfield \<Rightarrow> u64 \<Rightarrow> bitfield option) \<Rightarrow> bitfield \<Rightarrow> u64 \<Rightarrow> u64 \<Rightarrow> (bitfield \<times> u64 \<times> u64) option"
where
  "bit_head_loop put b from len =
     (if from mod BITS_PER_WORD \<noteq> 0 \<and> len > 0
      then (case put b from of None \<Rightarrow> None
            | Some b' \<Rightarrow> bit_head_loop put b' (from + 1) (len - 1))
      else Some (b, from, len))"
  by pat_completeness auto
termination
  by (relation "measure (\<lambda>(put, b, from, len). unat len)") (auto simp: measure_unat)

function bit_tail_loop ::
  "(bitfield \<Rightarrow> u64 \<Rightarrow> bitfield option) \<Rightarrow> bitfield \<Rightarrow> u64 \<Rightarrow> u64 \<Rightarrow> bitfield option"
where
  "bit_tail_loop put b from len =
     (if len > 0
      then (case put b from of None \<Rightarrow> None
            | Some b' \<Rightarrow> bit_tail_loop put b' (from + 1) (len - 1))
      else Some b)"
  by pat_completeness auto
termination
  by (relation "measure (\<lambda>(put, b, from, len). unat len)") (auto simp: measure_unat)

declare bit_head_loop.simps [simp del] bit_tail_loop.simps [simp del]

definition bit_range_loops ::
  "(bitfield \<Rightarrow> u64 \<Rightarrow> bitfield option) \<Rightarrow> u8 \<Rightarrow> bitfield \<Rightarrow> u64 \<Rightarrow> u64 \<Rightarrow> bitfield option"
where
  "bit_range_loops put fill b from len =
     (case bit_head_loop put b from len of
        None \<Rightarrow> None
      | Some (b1, from1, len1) \<Rightarrow>
          if len1 \<ge> BITS_PER_WORD
          then (case mem_set b1 (8 * unat (from1 div BITS_PER_WORD)) fill (unat (len1 div 8)) of
                  None \<Rightarrow> None
                | Some b2 \<Rightarrow>
                    let from2 = from1 + len1; len2 = len1 mod BITS_PER_WORD; from3 = from2 - len2
                    in bit_tail_loop put b2 from3 len2)
          else bit_tail_loop put b1 from1 len1)"

definition bit_set_range :: "bitfield \<Rightarrow> u64 \<Rightarrow> u64 \<Rightarrow> bitfield option" where
  "bit_set_range b from len = bit_range_loops bit_set 255 b from len"

definition bit_clear_range :: "bitfield \<Rightarrow> u64 \<Rightarrow> u64 \<Rightarrow> bitfield option" where
  "bit_clear_range b from len = bit_range_loops bit_clear 0 b from len"

function run_head ::
  "bitfield \<Rightarrow> u64 \<Rightarrow> int \<Rightarrow> u64 \<Rightarrow> u64 \<Rightarrow> (bool \<times> u64 \<times> u64) option"
where
  "run_head b from first_value count len =
     (if (from + count) mod BITS_PER_WORD \<noteq> 0 \<and> len > 0
      then (case bit_has_value b (from + count) first_value of
              None \<Rightarrow> None
            | Some same \<Rightarrow>
                if same then run_head b from first_value (count + 1) (len - 1)
                else Some (True, count, len))
      else Some (False, count, len))"
  by pat_completeness auto
termination
  by (relation "measure (\<lambda>(b, from, first_value, count, len). unat len)") (auto simp: measure_unat)

function run_words :: "bitfield \<Rightarrow> u64 \<Rightarrow> u64 \<Rightarrow> u64 \<Rightarrow> u64 \<Rightarrow> (u64 \<times> u64) option" where
  "run_words b from word_match count len =
     (if len \<ge> BITS_PER_WORD
      then (case BIT_WORD b (from + count) of
              None \<Rightarrow> None
            | Some w \<Rightarrow>
                if w = word_match
                then run_words b from word_match (count + BITS_PER_WORD) (len - BITS_PER_WORD)
                else Some (count, len))
      else Some (count, len))"
  by pat_completeness auto
termination
  by (relation "measure (\<lambda>(b, from, word_match, count, len). unat len)")
    (auto simp: BITS_PER_WORD_def word_le_nat_alt unat_sub_u64)

function run_tail :: "bitfield \<Rightarrow> u64 \<Rightarrow> int \<Rightarrow> u64 \<Rightarrow> u64 \<Rightarrow> u64 option" where
  "run_tail b from first_value count len =
     (if len > 0
      then (case bit_has_value b (from + count) first_value of
              None \<Rightarrow> None
            | Some same \<Rightarrow> run_tail b from first_value (if same then count + 1 else count) (len - 1))
      else Some count)"
  by pat_completeness auto
termination
  by (relation "measure (\<lambda>(b, from, first_value, count, len). unat len)") (auto simp: measure_unat)

declare run_head.simps [simp del] run_words.simps [simp del] run_tail.simps [simp del]

definition bit_run_count :: "bitfield \<Rightarrow> u64 \<Rightarrow> u64 \<Rightarrow> (u64 \<times> int) option" where
  "bit_run_count b from len =
     (case bit_get b from of
        None \<Rightarrow> None
      | Some first_value \<Rightarrow>
          let word_match = (if first_value \<noteq> 0 then - 1 else 0) in
          (case run_head b from first_value 0 len of
             None \<Rightarrow> None
           | Some (returned, count1, len1) \<Rightarrow>
               if returned then Some (count1, first_value)
               else (case run_words b from word_match count1 len1 of
                       None \<Rightarrow> None
                     | Some (count2, len2) \<Rightarrow>
                         map_option (\<lambda>count. (count, first_value))
                           (run_tail b from first_value count2 len2))))"

subsection \<open>Arrays as sequences of bits\<close>

definition bf_bit :: "bitfield \<Rightarrow> nat \<Rightarrow> bool" where
  "bf_bit b i \<longleftrightarrow> bit (b ! (i div 64)) (i mod 64)"

definition fills :: "bool \<Rightarrow> bitfield \<Rightarrow> bitfield \<Rightarrow> nat set \<Rightarrow> bool" where
  "fills v b b' S \<longleftrightarrow> length b' = length b \<and>
     (\<forall>j < 64 * length b. bf_bit b' j \<longleftrightarrow> (if j \<in> S then v else bf_bit b j))"

lemma fills_empty [simp]: "fills v b b {}"
  by (simp add: fills_def)

lemma fills_length: "fills v b b' S \<Longrightarrow> length b' = length b"
  by (simp add: fills_def)

lemma fills_trans: "fills v b b' S \<Longrightarrow> fills v b' b'' T \<Longrightarrow> fills v b b'' (S \<union> T)"
  by (auto simp: fills_def)

lemma BIT_WORD_in: "unat idx < 64 * length b \<Longrightarrow> BIT_WORD b idx = Some (b ! (unat idx div 64))"
  by (simp add: BIT_WORD_def BITS_PER_WORD_def unat_div_distrib less_mult_imp_div_less mult.commute)

lemma BIT_WORD_out: "\<not> unat idx < 64 * length b \<Longrightarrow> BIT_WORD b idx = None"
  by (simp add: BIT_WORD_def BITS_PER_WORD_def unat_div_distrib Let_def not_less
      less_eq_div_iff_mult_less_eq mult.commute)

lemma BIT_WORD_put_in:
  "unat idx < 64 * length b \<Longrightarrow> BIT_WORD_put b idx w = Some (b[unat idx div 64 := w])"
  by (simp add: BIT_WORD_put_def BITS_PER_WORD_def unat_div_distrib less_mult_imp_div_less mult.commute)

lemma bit_get_eq:
  "bit_get b idx =
     (if unat idx < 64 * length b then Some (of_bool (bf_bit b (unat idx))) else None)"
proof (cases "unat idx < 64 * length b")
  case True
  have "uint (drop_bit n w AND 1) = of_bool (bit w n)" for n and w :: u64
    by (simp add: bit_iff_odd_drop_bit and_one_eq odd_iff_mod_2_eq_one)
  with True show ?thesis
    by (simp add: bit_get_def BIT_WORD_in bf_bit_def BITS_PER_WORD_def word_nat)
next
  case False
  then show ?thesis by (simp add: bit_get_def BIT_WORD_out)
qed

lemma bf_bit_update:
  "k < length b \<Longrightarrow> bf_bit (b[k := w]) j \<longleftrightarrow> (if j div 64 = k then bit w (j mod 64) else bf_bit b j)"
  by (simp add: bf_bit_def nth_list_update)

lemma div_mod_eq_iff: "(j::nat) div n = i div n \<Longrightarrow> j mod n = i mod n \<longleftrightarrow> j = i"
  by (metis div_mult_mod_eq)

lemma bit_BIT_MASK: "n < 64 \<Longrightarrow> bit (BIT_MASK idx) n \<longleftrightarrow> n = unat idx mod 64"
  by (auto simp: BIT_MASK_def BITS_PER_WORD_def word_nat bit_simps)

lemma bit_set_fills:
  "unat idx < 64 * length b \<Longrightarrow> \<exists>b'. bit_set b idx = Some b' \<and> fills True b b' {unat idx}"
  by (auto simp: bit_set_def BIT_WORD_in BIT_WORD_put_in fills_def nth_list_update
      less_mult_imp_div_less mult.commute bit_or_iff bit_BIT_MASK bf_bit_def div_mod_eq_iff)

lemma bit_clear_fills:
  "unat idx < 64 * length b \<Longrightarrow> \<exists>b'. bit_clear b idx = Some b' \<and> fills False b b' {unat idx}"
  by (auto simp: bit_clear_def BIT_WORD_in BIT_WORD_put_in fills_def nth_list_update
      less_mult_imp_div_less mult.commute bit_and_iff bit_not_iff bit_BIT_MASK bf_bit_def div_mod_eq_iff)

lemma bit_255: "bit (255 :: int) m \<longleftrightarrow> m < 8"
  using bit_mask_iff [where 'a = int, of 8 m] by (auto simp: mask_eq_exp_minus_1)

lemma byte_in_word: "(j div 64 = k div 8 \<and> 8 * (k mod 8) \<le> j mod 64 \<and> j mod 64 < 8 * (k mod 8) + 8)
    \<longleftrightarrow> 8 * k \<le> j \<and> j < 8 * Suc k" for j k :: nat
proof -
  have k8: "8 * k = 64 * (k div 8) + 8 * (k mod 8)"
    using div_mult_mod_eq [of k 8] by linarith
  have j64: "j = 64 * (j div 64) + j mod 64" and k7: "k mod 8 < 8"
    by simp_all
  have "j div 64 = k div 8" if "8 * k \<le> j" "j < 8 * Suc k"
  proof (rule div_nat_eqI)
    show "64 * (k div 8) \<le> j" using that k8 by linarith
    have "8 * (k mod 8) \<le> 56" using k7 by simp
    with that k8 show "j < 64 * Suc (k div 8)" by simp
  qed
  with k8 j64 show ?thesis by (cases "j div 64 = k div 8") auto
qed

lemma put_byte_fills:
  assumes "k < 8 * length b"
  shows "\<exists>b'. put_byte b k (if v then 255 else 0) = Some b' \<and> fills v b b' {8 * k..<8 * Suc k}"
proof -
  have k: "k div 8 < length b" using assms by simp
  define w where "w = (b ! (k div 8) AND NOT (push_bit (8 * (k mod 8)) 255))
              OR push_bit (8 * (k mod 8)) (if v then 255 else 0)"
  have w: "bit w n \<longleftrightarrow> (if 8 * (k mod 8) \<le> n \<and> n < 8 * (k mod 8) + 8 then v else bit (b ! (k div 8)) n)"
    if "n < 64" for n
    using that
    by (cases v) (auto simp: w_def bit_or_iff bit_and_iff bit_not_iff bit_push_bit_iff bit_255)
  have "fills v b (b[k div 8 := w]) {8 * k..<8 * Suc k}"
    unfolding fills_def
  proof (intro conjI allI impI)
    fix j assume "j < 64 * length b"
    show "bf_bit (b[k div 8 := w]) j = (if j \<in> {8 * k..<8 * Suc k} then v else bf_bit b j)"
      using byte_in_word [of j k] w [of "j mod 64"] k by (auto simp: bf_bit_def nth_list_update)
  qed simp
  moreover have "put_byte b k (if v then 255 else 0) = Some (b[k div 8 := w])"
    using k by (simp add: put_byte_def w_def)
  ultimately show ?thesis by blast
qed

lemma mem_set_fills:
  "off + n \<le> 8 * length b \<Longrightarrow>
     \<exists>b'. mem_set b off (if v then 255 else 0) n = Some b' \<and> fills v b b' {8 * off..<8 * (off + n)}"
proof (induction n arbitrary: b off)
  case 0
  then show ?case by simp
next
  case (Suc n)
  from Suc.prems obtain b1 where b1: "put_byte b off (if v then 255 else 0) = Some b1"
    and f1: "fills v b b1 {8 * off..<8 * Suc off}"
    using put_byte_fills [of off b v] by auto
  from Suc.prems have "Suc off + n \<le> 8 * length b1"
    using fills_length [OF f1] by simp
  from Suc.IH [OF this] obtain b2
    where b2: "mem_set b1 (Suc off) (if v then 255 else 0) n = Some b2"
      and f2: "fills v b1 b2 {8 * Suc off..<8 * (Suc off + n)}"
    by auto
  have "{8 * off..<8 * Suc off} \<union> {8 * Suc off..<8 * (Suc off + n)} = {8 * off..<8 * (off + Suc n)}"
    by auto
  with fills_trans [OF f1 f2] b1 b2 show ?case by simp
qed

locale bit_writer =
  fixes put :: "bitfield \<Rightarrow> u64 \<Rightarrow> bitfield option" and v :: bool
  assumes put_fills: "unat i < 64 * length b \<Longrightarrow> \<exists>b'. put b i = Some b' \<and> fills v b b' {unat i}"
begin

lemma tail_loop_fills:
  "unat from + unat len \<le> 64 * length b \<Longrightarrow> 64 * length b < 2 ^ 64 \<Longrightarrow>
     \<exists>b'. bit_tail_loop put b from len = Some b' \<and> fills v b b' {unat from..<unat from + unat len}"
proof (induction "unat len" arbitrary: b "from" len)
  case 0
  then show ?case by (simp add: bit_tail_loop.simps word_nat)
next
  case (Suc n)
  then have len: "0 < len" "unat (len - 1) = n" and "from": "unat (from + 1) = unat from + 1"
    by (simp_all add: word_nat)
  from Suc obtain b1 where b1: "put b from = Some b1" and f1: "fills v b b1 {unat from}"
    using put_fills [of "from" b] by auto
  from Suc.prems len "from" Suc.hyps(2) obtain b2
    where b2: "bit_tail_loop put b1 (from + 1) (len - 1) = Some b2"
      and f2: "fills v b1 b2 {unat from + 1..<unat from + 1 + n}"
    using Suc.hyps(1) [of "len - 1" "from + 1" b1] fills_length [OF f1] by auto
  have "{unat from} \<union> {unat from + 1..<unat from + 1 + n} = {unat from..<unat from + unat len}"
    using Suc.hyps(2) by auto
  with fills_trans [OF f1 f2] b1 b2 len show ?case by (simp add: bit_tail_loop.simps [of put b])
qed

lemma head_loop_fills:
  "unat from + unat len \<le> 64 * length b \<Longrightarrow> 64 * length b < 2 ^ 64 \<Longrightarrow>
     \<exists>b' from' len'. bit_head_loop put b from len = Some (b', from', len')
        \<and> fills v b b' {unat from..<unat from'}
        \<and> unat from \<le> unat from' \<and> unat from' + unat len' = unat from + unat len
        \<and> (unat from' mod 64 = 0 \<or> len' = 0)"
proof (induction "unat len" arbitrary: b "from" len)
  case 0
  then have "len = 0" using word_unat_eq_iff [of len 0] by simp
  then show ?case by (simp add: bit_head_loop.simps)
next
  case (Suc n)
  show ?case
  proof (cases "unat from mod 64 = 0")
    case True
    then show ?thesis
      by (subst bit_head_loop.simps)
        (simp add: BITS_PER_WORD_def word_arith_nat_mod flip: word_unat_eq_iff)
  next
    case False
    from Suc have len: "0 < len" "unat (len - 1) = n" and "from": "unat (from + 1) = unat from + 1"
      by (simp_all add: word_nat)
    from Suc obtain b1 where b1: "put b from = Some b1" and f1: "fills v b b1 {unat from}"
      using put_fills [of "from" b] by auto
    from Suc.prems len "from" Suc.hyps(2) obtain b2 from2 len2
      where b2: "bit_head_loop put b1 (from + 1) (len - 1) = Some (b2, from2, len2)"
        and f2: "fills v b1 b2 {unat from + 1..<unat from2}"
        and r: "unat from + 1 \<le> unat from2" "unat from2 + unat len2 = unat from + 1 + n"
          "unat from2 mod 64 = 0 \<or> len2 = 0"
      using Suc.hyps(1) [of "len - 1" "from + 1" b1] fills_length [OF f1] by auto
    have "{unat from} \<union> {unat from + 1..<unat from2} = {unat from..<unat from2}"
      using r by auto
    with fills_trans [OF f1 f2] have f: "fills v b b2 {unat from..<unat from2}" by simp
    have "from mod BITS_PER_WORD \<noteq> 0"
      using False by (simp add: BITS_PER_WORD_def word_unat_eq_iff unat_mod_distrib)
    with b1 b2 len have "bit_head_loop put b from len = Some (b2, from2, len2)"
      by (simp add: bit_head_loop.simps [of put b])
    with f r Suc.hyps(2) show ?thesis by auto
  qed
qed

lemma word_part_fills:
  assumes fill: "fill = (if v then 255 else 0)" and aligned: "unat from mod 64 = 0"
    and le: "unat from + unat len \<le> 64 * length b" and small: "64 * length b < 2 ^ 64"
  shows "\<exists>b1 b2. mem_set b (8 * (unat from div 64)) fill (unat len div 8) = Some b1
     \<and> bit_tail_loop put b1 (from + len - len mod BITS_PER_WORD) (len mod BITS_PER_WORD) = Some b2
     \<and> fills v b b2 {unat from..<unat from + unat len}"
proof -
  define n where "n = unat len"
  have off: "64 * (unat from div 64) = unat from"
    using aligned div_mult_mod_eq [of "unat from" 64] by linarith
  have "8 * (unat from div 64) + n div 8 \<le> 8 * length b"
    using le off unfolding n_def by linarith
  from mem_set_fills [OF this, of v] obtain b1
    where m: "mem_set b (8 * (unat from div 64)) fill (n div 8) = Some b1"
      and f1: "fills v b b1 {unat from..<unat from + 8 * (n div 8)}"
    unfolding fill by (auto simp: off distrib_left)
  have l1: "length b1 = length b" using fills_length [OF f1] by simp
  define from3 where "from3 = from + len - len mod BITS_PER_WORD"
  have lm: "unat (len mod BITS_PER_WORD) = n mod 64"
    by (simp add: n_def BITS_PER_WORD_def unat_mod_distrib)
  have "unat (from + len) = unat from + n" using le small by (simp add: n_def unat_add_u64)
  then have "from": "unat from3 = unat from + n - n mod 64"
    using lm by (simp add: from3_def unat_sub_u64 trans_le_add2)
  from tail_loop_fills [of from3 "len mod BITS_PER_WORD" b1] "from" lm l1 le small obtain b2
    where t: "bit_tail_loop put b1 from3 (len mod BITS_PER_WORD) = Some b2"
      and f2: "fills v b1 b2 {unat from3..<unat from3 + n mod 64}"
    by (auto simp: n_def)
  have "{unat from..<unat from + 8 * (n div 8)} \<union> {unat from3..<unat from3 + n mod 64}
      = {unat from..<unat from + n}"
  proof -
    have "n mod 8 \<le> n mod 64"
      using mod_mod_cancel [of 8 64 n] mod_less_eq_dividend [of "n mod 64" 8] by simp
    then have "n - n mod 64 \<le> 8 * (n div 8)" "8 * (n div 8) \<le> n" "n mod 64 \<le> n"
      by (simp_all flip: minus_mod_eq_mult_div)
    with "from" show ?thesis by auto
  qed
  with fills_trans [OF f1 f2] m t show ?thesis unfolding n_def from3_def by auto
qed

lemma range_loops_fills:
  assumes fill: "fill = (if v then 255 else 0)"
    and le: "unat from + unat len \<le> 64 * length b" and small: "64 * length b < 2 ^ 64"
  shows "\<exists>b'. bit_range_loops put fill b from len = Some b'
           \<and> fills v b b' {unat from..<unat from + unat len}"
proof -
  from head_loop_fills [OF le small] obtain b1 from1 len1
    where h: "bit_head_loop put b from len = Some (b1, from1, len1)"
      and f1: "fills v b b1 {unat from..<unat from1}"
      and r: "unat from \<le> unat from1" "unat from1 + unat len1 = unat from + unat len"
        "unat from1 mod 64 = 0 \<or> len1 = 0"
    by (elim exE conjE)
  have l1: "length b1 = length b" by (rule fills_length [OF f1])
  have le1: "unat from1 + unat len1 \<le> 64 * length b1" "64 * length b1 < 2 ^ 64" using r le small l1 by simp_all
  have all: "{unat from..<unat from1} \<union> {unat from1..<unat from1 + unat len1} = {unat from..<unat from + unat len}"
    using r by auto
  show ?thesis
  proof (cases "len1 \<ge> BITS_PER_WORD")
    case False
    from tail_loop_fills [OF le1] obtain b2 where "bit_tail_loop put b1 from1 len1 = Some b2"
        "fills v b1 b2 {unat from1..<unat from1 + unat len1}" by auto
    with False h fills_trans [OF f1] all show ?thesis by (fastforce simp: bit_range_loops_def)
  next
    case True
    with r(3) have mod: "unat from1 mod 64 = 0" by (auto simp: BITS_PER_WORD_def word_le_nat_alt)
    from word_part_fills [OF fill mod le1] obtain b2 b3
      where m: "mem_set b1 (8 * (unat from1 div 64)) fill (unat len1 div 8) = Some b2"
        "bit_tail_loop put b2 (from1 + len1 - len1 mod BITS_PER_WORD) (len1 mod BITS_PER_WORD) = Some b3"
        and f3: "fills v b1 b3 {unat from1..<unat from1 + unat len1}" by blast
    have "bit_range_loops put fill b from len = Some b3"
      using h True m by (simp add: bit_range_loops_def Let_def BITS_PER_WORD_def unat_div_distrib)
    with fills_trans [OF f1 f3] all show ?thesis by auto
  qed
qed

end

interpretation bset: bit_writer bit_set True
  by unfold_locales (rule bit_set_fills)

interpretation bclr: bit_writer bit_clear False
  by unfold_locales (rule bit_clear_fills)

lemma bit_set_range_fills:
  "unat from + unat len \<le> 64 * length b \<Longrightarrow> 64 * length b < 2 ^ 64 \<Longrightarrow>
     \<exists>b'. bit_set_range b from len = Some b' \<and> fills True b b' {unat from..<unat from + unat len}"
  unfolding bit_set_range_def by (rule bset.range_loops_fills) simp_all

lemma bit_clear_range_fills:
  "unat from + unat len \<le> 64 * length b \<Longrightarrow> 64 * length b < 2 ^ 64 \<Longrightarrow>
     \<exists>b'. bit_clear_range b from len = Some b' \<and> fills False b b' {unat from..<unat from + unat len}"
  unfolding bit_clear_range_def by (rule bclr.range_loops_fills) simp_all

definition is_run :: "bitfield \<Rightarrow> nat \<Rightarrow> nat \<Rightarrow> bool \<Rightarrow> nat \<Rightarrow> bool" where
  "is_run b f n v c \<longleftrightarrow>
     c \<le> n \<and> (\<forall>i < c. bf_bit b (f + i) = v) \<and> (c < n \<longrightarrow> bf_bit b (f + c) \<noteq> v)"

lemma is_run_unique: "is_run b f n v c \<Longrightarrow> is_run b f n v d \<Longrightarrow> c = d"
  unfolding is_run_def by (metis linorder_cases order.strict_trans2)

lemma is_run_extend:
  assumes "\<forall>i < m. bf_bit b (f + i) = v" and "is_run b (f + m) n v c"
  shows "is_run b f (m + n) v (m + c)"
  unfolding is_run_def
proof (intro conjI allI impI)
  fix i assume "i < m + c"
  with assms show "bf_bit b (f + i) = v"
    by (cases "i < m") (auto simp: is_run_def dest: spec [where x = "i - m"])
qed (use assms in \<open>auto simp: is_run_def add.assoc\<close>)

lemma bit_has_value_in:
  "unat i < 64 * length b \<Longrightarrow> bit_has_value b i (of_bool v) = Some (bf_bit b (unat i) = v)"
  by (cases v) (simp_all add: bit_has_value_def bit_get_eq)

lemma run_tail_stuck:
  "unat (from + count) < 64 * length b \<Longrightarrow> bf_bit b (unat (from + count)) \<noteq> v \<Longrightarrow>
     run_tail b from (of_bool v) count len = Some count"
  by (induction "unat len" arbitrary: len)
    (subst run_tail.simps; auto simp: bit_has_value_in word_nat)+

lemma run_tail_run:
  "unat from + unat count + unat len \<le> 64 * length b \<Longrightarrow> 64 * length b < 2 ^ 64 \<Longrightarrow>
     \<exists>c. run_tail b from (of_bool v) count len = Some c \<and> unat count \<le> unat c
        \<and> is_run b (unat from + unat count) (unat len) v (unat c - unat count)"
proof (induction "unat len" arbitrary: count len)
  case 0
  then show ?case by (simp add: run_tail.simps word_nat is_run_def)
next
  case (Suc n)
  have fc: "unat (from + count) = unat from + unat count" and len: "0 < len" "unat (len - 1) = n"
    using Suc by (simp_all add: word_nat)
  show ?case
  proof (cases "bf_bit b (unat from + unat count) = v")
    case True
    have c1: "unat (count + 1) = unat count + 1" using Suc by (simp add: word_nat)
    from Suc.hyps(1) [of "len - 1" "count + 1"] len c1 Suc.prems Suc.hyps(2) obtain c
      where c: "run_tail b from (of_bool v) (count + 1) (len - 1) = Some c" "unat count + 1 \<le> unat c"
        "is_run b (unat from + unat count + 1) n v (unat c - (unat count + 1))"
      by (auto simp: add.assoc)
    have "is_run b (unat from + unat count) (1 + n) v (1 + (unat c - (unat count + 1)))"
      by (rule is_run_extend) (use True c in auto)
    moreover have "run_tail b from (of_bool v) count len = Some c"
      using c(1) True fc len Suc.prems Suc.hyps(2)
      by (subst run_tail.simps) (simp add: bit_has_value_in)
    moreover have "1 + (unat c - (unat count + 1)) = unat c - unat count" using c(2) by simp
    ultimately show ?thesis using c(2) Suc.hyps(2) by auto
  next
    case False
    with fc Suc have "run_tail b from (of_bool v) count len = Some count"
      by (intro run_tail_stuck) simp_all
    with False Suc.hyps(2) show ?thesis by (simp add: is_run_def)
  qed
qed

lemma word_match_iff:
  assumes "f mod 64 = 0"
  shows "b ! (f div 64) = (if v then - 1 else 0) \<longleftrightarrow> (\<forall>i < 64. bf_bit b (f + i) = v)"
proof -
  have "bf_bit b (f + i) = bit (b ! (f div 64)) i" if "i < 64" for i
  proof -
    have f: "f = 64 * (f div 64)" using assms by auto
    from that have "(64 * (f div 64) + i) div 64 = f div 64" "(64 * (f div 64) + i) mod 64 = i"
      by simp_all
    then show ?thesis unfolding bf_bit_def by (metis f)
  qed
  then show ?thesis by (auto simp: bit_eq_iff)
qed

lemma run_words_run:
  "unat from + unat count + unat len \<le> 64 * length b \<Longrightarrow> 64 * length b < 2 ^ 64 \<Longrightarrow>
   (unat from + unat count) mod 64 = 0 \<or> len = 0 \<Longrightarrow>
     \<exists>c l. run_words b from (if v then - 1 else 0) count len = Some (c, l)
        \<and> unat count \<le> unat c \<and> unat c + unat l = unat count + unat len
        \<and> (\<forall>i < unat c - unat count. bf_bit b (unat from + unat count + i) = v)"
proof (induction "unat len" arbitrary: count len rule: less_induct)
  case less
  show ?case
  proof (cases "BITS_PER_WORD \<le> len")
    case False
    then show ?thesis by (subst run_words.simps) simp
  next
    case True
    then have l64: "64 \<le> unat len" by (simp add: BITS_PER_WORD_def word_le_nat_alt)
    with less.prems have mod: "(unat from + unat count) mod 64 = 0" by auto
    have fc: "unat (from + count) = unat from + unat count"
      using less.prems l64 by (simp add: unat_add_u64)
    have w: "BIT_WORD b (from + count) = Some (b ! ((unat from + unat count) div 64))"
      using less.prems l64 by (simp add: BIT_WORD_in fc)
    show ?thesis
    proof (cases "b ! ((unat from + unat count) div 64) = (if v then - 1 else 0)")
      case False
      with True w show ?thesis by (subst run_words.simps) simp
    next
      case same: True
      with word_match_iff [OF mod] have m: "\<forall>i < 64. bf_bit b (unat from + unat count + i) = v"
        by simp
      have c64: "unat (count + BITS_PER_WORD) = unat count + 64"
        and len64: "unat (len - BITS_PER_WORD) = unat len - 64"
        using less.prems l64 by (simp_all add: BITS_PER_WORD_def word_nat)
      have "(unat from + (unat count + 64)) mod 64 = 0"
        using mod by (simp add: add.assoc [symmetric])
      with less.hyps [of "len - BITS_PER_WORD" "count + BITS_PER_WORD"] less.prems l64 c64 len64
      obtain c l where r: "run_words b from (if v then - 1 else 0) (count + BITS_PER_WORD)
            (len - BITS_PER_WORD) = Some (c, l)"
          "unat count + 64 \<le> unat c" "unat c + unat l = unat count + unat len"
          "\<forall>i < unat c - (unat count + 64). bf_bit b (unat from + (unat count + 64) + i) = v"
        by auto
      have "bf_bit b (unat from + unat count + i) = v" if "i < unat c - unat count" for i
        using m r(2,4) that spec [OF r(4), of "i - 64"] by (cases "i < 64") (auto simp: add.assoc)
      moreover have "run_words b from (if v then - 1 else 0) count len = Some (c, l)"
        using True w same r(1) by (subst run_words.simps) simp
      ultimately show ?thesis using r(2,3) by auto
    qed
  qed
qed

lemma run_head_run:
  "unat from + unat count + unat len \<le> 64 * length b \<Longrightarrow> 64 * length b < 2 ^ 64 \<Longrightarrow>
     \<exists>r c l. run_head b from (of_bool v) count len = Some (r, c, l)
        \<and> unat count \<le> unat c \<and> unat c + unat l = unat count + unat len
        \<and> (\<forall>i < unat c - unat count. bf_bit b (unat from + unat count + i) = v)
        \<and> (if r then unat l > 0 \<and> bf_bit b (unat from + unat c) \<noteq> v
           else (unat from + unat c) mod 64 = 0 \<or> l = 0)"
proof (induction "unat len" arbitrary: count len)
  case 0
  then have "len = 0" using word_unat_eq_iff [of len 0] by simp
  then show ?case by (subst run_head.simps) auto
next
  case (Suc n)
  have fc: "unat (from + count) = unat from + unat count" and len: "0 < len" "unat (len - 1) = n"
    using Suc by (simp_all add: word_nat)
  have mod: "(from + count) mod BITS_PER_WORD = 0 \<longleftrightarrow> (unat from + unat count) mod 64 = 0"
    by (simp add: BITS_PER_WORD_def word_unat_eq_iff unat_mod_distrib fc)
  consider "(unat from + unat count) mod 64 = 0"
    | "(unat from + unat count) mod 64 \<noteq> 0" "bf_bit b (unat from + unat count) \<noteq> v"
    | "(unat from + unat count) mod 64 \<noteq> 0" "bf_bit b (unat from + unat count) = v"
    by blast
  then show ?case
  proof cases
    case 1
    with mod show ?thesis by (subst run_head.simps) auto
  next
    case 2
    with mod len fc Suc.prems Suc.hyps(2) show ?thesis
      by (subst run_head.simps) (auto simp: bit_has_value_in)
  next
    case 3
    have c1: "unat (count + 1) = unat count + 1" using Suc by (simp add: word_nat)
    from Suc.hyps(1) [of "len - 1" "count + 1"] len c1 Suc.prems Suc.hyps(2) obtain r c l
      where h: "run_head b from (of_bool v) (count + 1) (len - 1) = Some (r, c, l)"
        "unat count + 1 \<le> unat c" "unat c + unat l = unat count + 1 + n"
        "\<forall>i < unat c - (unat count + 1). bf_bit b (unat from + (unat count + 1) + i) = v"
        "if r then unat l > 0 \<and> bf_bit b (unat from + unat c) \<noteq> v
           else (unat from + unat c) mod 64 = 0 \<or> l = 0"
      by auto
    have "bf_bit b (unat from + unat count + i) = v" if "i < unat c - unat count" for i
      using 3(2) that spec [OF h(4), of "i - 1"] by (cases i) auto
    moreover have "run_head b from (of_bool v) count len = Some (r, c, l)"
      using h(1) 3 mod len fc Suc.prems Suc.hyps(2) by (subst run_head.simps) (simp add: bit_has_value_in)
    ultimately show ?thesis using h(2,3,5) Suc.hyps(2) by auto
  qed
qed

lemma bit_run_count_run:
  assumes le: "unat from + unat len \<le> 64 * length b" and small: "64 * length b < 2 ^ 64"
    and in_range: "unat from < 64 * length b"
  shows "\<exists>c. bit_run_count b from len = Some (c, of_bool (bf_bit b (unat from)))
           \<and> is_run b (unat from) (unat len) (bf_bit b (unat from)) (unat c)"
proof -
  define v where "v = bf_bit b (unat from)"
  have g: "bit_get b from = Some (of_bool v)" using in_range by (simp add: bit_get_eq v_def)
  from run_head_run [of "from" 0 len b v] le small obtain r c1 l1
    where h: "run_head b from (of_bool v) 0 len = Some (r, c1, l1)"
      "unat c1 + unat l1 = unat len" "\<forall>i < unat c1. bf_bit b (unat from + i) = v"
      "if r then unat l1 > 0 \<and> bf_bit b (unat from + unat c1) \<noteq> v
         else (unat from + unat c1) mod 64 = 0 \<or> l1 = 0"
    by auto
  show ?thesis
  proof (cases r)
    case True
    with h g have "bit_run_count b from len = Some (c1, of_bool v)"
      by (simp add: bit_run_count_def Let_def)
    with h True show ?thesis by (auto simp: is_run_def v_def)
  next
    case False
    with run_words_run [of "from" c1 l1 b v] h le small obtain c2 l2
      where w: "run_words b from (if v then - 1 else 0) c1 l1 = Some (c2, l2)"
        "unat c1 \<le> unat c2" "unat c2 + unat l2 = unat len"
        "\<forall>i < unat c2 - unat c1. bf_bit b (unat from + unat c1 + i) = v"
      by auto
    from run_tail_run [of "from" c2 l2 b v] w le small obtain c
      where t: "run_tail b from (of_bool v) c2 l2 = Some c" "unat c2 \<le> unat c"
        "is_run b (unat from + unat c2) (unat l2) v (unat c - unat c2)"
      by auto
    have "bf_bit b (unat from + i) = v" if "i < unat c2" for i
      using h(3) w(2) that spec [OF w(4), of "i - unat c1"] by (cases "i < unat c1") auto
    then have "is_run b (unat from) (unat c2 + unat l2) v (unat c2 + (unat c - unat c2))"
      by (intro is_run_extend t(3)) auto
    with t(2) w(3) have "is_run b (unat from) (unat len) v (unat c)" by simp
    moreover have "bit_run_count b from len = Some (c, of_bool v)"
      using g h(1) False w(1) t(1) by (simp add: bit_run_count_def Let_def)
    ultimately show ?thesis by (simp add: v_def)
  qed
qed

subsection \<open>Properties\<close>

text \<open>C18: the word-at-a-time range operations agree with setting (clearing) the bits one by one:
  for any range inside the array neither goes out of bounds, every bit of the range takes the value
  and every other bit is unchanged.\<close>

theorem bit_ranges_correct:
  assumes "unat from + unat len \<le> 64 * length b" "64 * length b < 2 ^ 64"
  shows "(\<exists>b'. bit_set_range b from len = Some b' \<and> length b' = length b
           \<and> (\<forall>j < 64 * length b. bf_bit b' j
                 \<longleftrightarrow> bf_bit b j \<or> unat from \<le> j \<and> j < unat from + unat len))
       \<and> (\<exists>b'. bit_clear_range b from len = Some b' \<and> length b' = length b
           \<and> (\<forall>j < 64 * length b. bf_bit b' j
                 \<longleftrightarrow> bf_bit b j \<and> \<not> (unat from \<le> j \<and> j < unat from + unat len)))"
proof
  from bit_set_range_fills [OF assms] show "\<exists>b'. bit_set_range b from len = Some b' \<and> length b' = length b
      \<and> (\<forall>j < 64 * length b. bf_bit b' j \<longleftrightarrow> bf_bit b j \<or> unat from \<le> j \<and> j < unat from + unat len)"
    by (auto simp: fills_def)
  from bit_clear_range_fills [OF assms] show "\<exists>b'. bit_clear_range b from len = Some b' \<and> length b' = length b
      \<and> (\<forall>j < 64 * length b. bf_bit b' j \<longleftrightarrow> bf_bit b j \<and> \<not> (unat from \<le> j \<and> j < unat from + unat len))"
    by (auto simp: fills_def)
qed

theorem bit_ranges_correct_witness:
  "\<exists>b'. bit_set_range [0, 0, 0] 60 100 = Some b' \<and> bf_bit b' 60 \<and> bf_bit b' 130 \<and> \<not> bf_bit b' 160"
proof -
  obtain b' where "bit_set_range [0, 0, 0] 60 100 = Some b'"
    and b': "\<And>j. j < 192 \<Longrightarrow> bf_bit b' j \<longleftrightarrow> bf_bit [0, 0, 0] j \<or> 60 \<le> j \<and> j < 160"
    using bit_ranges_correct [of 60 100 "[0, 0, 0]"] by auto
  moreover have "\<not> bf_bit [0, 0, 0] 160" by (simp add: bf_bit_def)
  ultimately show ?thesis using b' [of 60] b' [of 130] b' [of 160] by auto
qed

text \<open>\<open>bit_run_count\<close> returns the value of the first bit and the exact length of the run
  starting there: every bit counted has that value, and the count stops at the range's end or at
  a bit that differs, whatever the alignment.\<close>

theorem bit_run_count_maximal:
  assumes "unat from + unat len \<le> 64 * length b" "64 * length b < 2 ^ 64" "0 < unat len"
  shows "\<exists>c. bit_run_count b from len = Some (c, of_bool (bf_bit b (unat from)))
     \<and> 0 < unat c \<and> unat c \<le> unat len
     \<and> (\<forall>i < unat c. bf_bit b (unat from + i) = bf_bit b (unat from))
     \<and> (unat c < unat len \<longrightarrow> bf_bit b (unat from + unat c) \<noteq> bf_bit b (unat from))"
proof -
  have "unat from < 64 * length b" using assms by linarith
  from bit_run_count_run [OF assms(1,2) this] show ?thesis
    using assms(3) by (fastforce simp: is_run_def intro: gr0I)
qed

theorem bit_run_count_maximal_witness:
  "\<exists>c. bit_run_count [0xFFFFFFFFFFFFFFF0, 0xFF] 4 100 = Some (c, 1) \<and> 0 < unat c \<and> unat c \<le> 100"
  using bit_run_count_maximal [of 4 100 "[0xFFFFFFFFFFFFFFF0, 0xFF]"]
  by (auto simp: bf_bit_def)

end
