(* ===== verification/Bitset.thy ===== *)
theory Bitset
  imports Bitfield
begin

text \<open>
  Bitsets over a file and their event stream (\<^verbatim>\<open>src/src/server/bitset.h\<close>, lines 148 to 441).  A
  \<open>bitset\<close> keeps one bit per \<open>resolution\<close> bytes of the file; while the stream is enabled every
  range that is set or cleared is also enqueued in a ring of \<open>BITSET_STREAM_SIZE\<close> entries.  An
  enqueue on a full ring blocks on \<^verbatim>\<open>cond_not_full\<close>: the result is \<open>Blocked\<close> with the state the
  thread sleeps in, where the bits are already changed and the entry is not yet queued.  The locale
  \<open>bounded_queue\<close> is the contract of the stream as its users see it, interpreted for the ring;
  \<open>bs_bit\<close> reads the bitset byte by byte, and the range operations, the run counter and the
  allocation are specified through it.
\<close>

datatype bitset_stream_events =
  BITSET_STREAM_UNSET | BITSET_STREAM_SET | BITSET_STREAM_ON | BITSET_STREAM_OFF

record bitset_stream_entry =
  event :: bitset_stream_events
  entry_from :: u64
  entry_len :: u64

definition BITSET_STREAM_SIZE :: nat where
  "BITSET_STREAM_SIZE = (1024 * 1024) div 24"

record bitset_stream =
  entries :: "nat \<Rightarrow> bitset_stream_entry"
  s_in :: nat
  s_out :: nat
  s_size :: nat
  queued_bytes :: "bitset_stream_events \<Rightarrow> u64"

record bitset =
  bs_size :: u64
  resolution :: i32
  stream :: bitset_stream
  stream_enabled :: bool
  bits :: bitfield

definition res64 :: "bitset \<Rightarrow> u64" where
  "res64 bs = scast (resolution bs)"

definition zero_entry :: bitset_stream_entry where
  "zero_entry = \<lparr>event = BITSET_STREAM_UNSET, entry_from = 0, entry_len = 0\<rparr>"

definition zero_stream :: bitset_stream where
  "zero_stream = \<lparr>entries = (\<lambda>_. zero_entry), s_in = 0, s_out = 0, s_size = 0,
                   queued_bytes = (\<lambda>_. 0)\<rparr>"

definition bitset_alloc_bytes :: "u64 \<Rightarrow> i32 \<Rightarrow> u64" where
  "bitset_alloc_bytes sz reso =
     (let bitfield_size = BIT_WORDS_FOR_SIZE ((sz + scast reso - 1) div scast reso) * 8
      in bitfield_size div 8)"

definition alloc_words :: "u64 \<Rightarrow> nat \<Rightarrow> bitfield" where
  "alloc_words slack n =
     replicate (n div 8) 0 @
     (if n mod 8 = 0 then [] else [slack AND NOT (mask (8 * (n mod 8)))])"

definition bitset_alloc :: "u64 \<Rightarrow> u64 \<Rightarrow> i32 \<Rightarrow> bitset" where
  "bitset_alloc slack sz reso =
     \<lparr>bs_size = sz, resolution = reso, stream = zero_stream, stream_enabled = False,
      bits = alloc_words slack (unat (bitset_alloc_bytes sz reso))\<rparr>"

definition stream_put :: "bitset_stream \<Rightarrow> bitset_stream_entry \<Rightarrow> bitset_stream option" where
  "stream_put st e =
     (if s_size st = BITSET_STREAM_SIZE then None
      else Some (st\<lparr>entries := (entries st)(s_in st := e),
                    queued_bytes := (queued_bytes st)(event e := queued_bytes st (event e) + entry_len e),
                    s_size := s_size st + 1,
                    s_in := (s_in st + 1) mod BITSET_STREAM_SIZE\<rparr>))"

definition stream_take :: "bitset_stream \<Rightarrow> (bitset_stream_entry \<times> bitset_stream) option" where
  "stream_take st =
     (if s_size st = 0 then None
      else (let dequeued = entries st (s_out st) in
            Some (dequeued,
              st\<lparr>queued_bytes := (queued_bytes st)
                   (event dequeued := queued_bytes st (event dequeued) - entry_len dequeued),
                 s_size := s_size st - 1,
                 s_out := (s_out st + 1) mod BITSET_STREAM_SIZE\<rparr>)))"

definition bitset_stream_enqueue ::
  "bitset \<Rightarrow> bitset_stream_events \<Rightarrow> u64 \<Rightarrow> u64 \<Rightarrow> bitset cresult"
where
  "bitset_stream_enqueue bs ev from len =
     (case stream_put (stream bs) \<lparr>event = ev, entry_from = from, entry_len = len\<rparr> of
        None \<Rightarrow> Blocked bs
      | Some st \<Rightarrow> Done (bs\<lparr>stream := st\<rparr>))"

definition bitset_stream_dequeue :: "bitset \<Rightarrow> (bitset_stream_entry \<times> bitset) option" where
  "bitset_stream_dequeue bs =
     (case stream_take (stream bs) of
        None \<Rightarrow> None
      | Some (e, st) \<Rightarrow> Some (e, bs\<lparr>stream := st\<rparr>))"

definition bitset_stream_size :: "bitset \<Rightarrow> nat" where
  "bitset_stream_size bs = s_size (stream bs)"

definition bitset_stream_queued_bytes :: "bitset \<Rightarrow> bitset_stream_events \<Rightarrow> u64" where
  "bitset_stream_queued_bytes bs ev = queued_bytes (stream bs) ev"

definition bitset_enable_stream :: "bitset \<Rightarrow> bitset cresult" where
  "bitset_enable_stream bs =
     bitset_stream_enqueue (bs\<lparr>stream_enabled := True\<rparr>) BITSET_STREAM_ON 0 (bs_size bs)"

definition bitset_disable_stream :: "bitset \<Rightarrow> bitset cresult" where
  "bitset_disable_stream bs =
     (case bitset_stream_enqueue bs BITSET_STREAM_OFF 0 (bs_size bs) of
        Done bs' \<Rightarrow> Done (bs'\<lparr>stream_enabled := False\<rparr>)
      | r \<Rightarrow> r)"

definition INT_FIRST_AND_LAST :: "bitset \<Rightarrow> u64 \<Rightarrow> u64 \<Rightarrow> u64 \<times> u64 \<times> u64" where
  "INT_FIRST_AND_LAST bs from len =
     (let first = from div res64 bs;
          final = ((from + len) - 1) div res64 bs;
          bitlen = (final - first) + 1
      in (first, final, bitlen))"

definition bitset_set_range :: "bitset \<Rightarrow> u64 \<Rightarrow> u64 \<Rightarrow> bitset cresult" where
  "bitset_set_range bs from len =
     (let (first, final, bitlen) = INT_FIRST_AND_LAST bs from len in
      case bit_set_range (bits bs) first bitlen of
        None \<Rightarrow> OutOfBounds
      | Some b \<Rightarrow>
          let bs' = bs\<lparr>bits := b\<rparr> in
          if stream_enabled bs' then bitset_stream_enqueue bs' BITSET_STREAM_SET from len
          else Done bs')"

definition bitset_set :: "bitset \<Rightarrow> bitset cresult" where
  "bitset_set bs = bitset_set_range bs 0 (bs_size bs)"

definition bitset_clear_range :: "bitset \<Rightarrow> u64 \<Rightarrow> u64 \<Rightarrow> bitset cresult" where
  "bitset_clear_range bs from len =
     (let (first, final, bitlen) = INT_FIRST_AND_LAST bs from len in
      case bit_clear_range (bits bs) first bitlen of
        None \<Rightarrow> OutOfBounds
      | Some b \<Rightarrow>
          let bs' = bs\<lparr>bits := b\<rparr> in
          if stream_enabled bs' then bitset_stream_enqueue bs' BITSET_STREAM_UNSET from len
          else Done bs')"

definition bitset_clear :: "bitset \<Rightarrow> bitset cresult" where
  "bitset_clear bs = bitset_clear_range bs 0 (bs_size bs)"

definition bitset_run_count_ex :: "bitset \<Rightarrow> u64 \<Rightarrow> u64 \<Rightarrow> (u64 \<times> int option) option" where
  "bitset_run_count_ex bs from len =
     (if from > bs_size bs then Some (0, None)
      else (let len' = (if len + from > bs_size bs then bs_size bs - from else len);
                (first, final, bitlen) = INT_FIRST_AND_LAST bs from len' in
            case bit_run_count (bits bs) first bitlen of
              None \<Rightarrow> None
            | Some (count, run_is_set) \<Rightarrow>
                let run = count * res64 bs; run' = run - (from mod res64 bs)
                in Some (run', Some run_is_set)))"

definition bitset_run_count :: "bitset \<Rightarrow> u64 \<Rightarrow> u64 \<Rightarrow> u64 option" where
  "bitset_run_count bs from len = map_option fst (bitset_run_count_ex bs from len)"

definition bitset_is_clear_at :: "bitset \<Rightarrow> u64 \<Rightarrow> int option" where
  "bitset_is_clear_at bs at = bit_is_clear (bits bs) (at div res64 bs)"

definition bitset_is_set_at :: "bitset \<Rightarrow> u64 \<Rightarrow> int option" where
  "bitset_is_set_at bs at = bit_is_set (bits bs) (at div res64 bs)"

subsection \<open>The event stream is a bounded FIFO queue\<close>

definition stream_list :: "bitset_stream \<Rightarrow> bitset_stream_entry list" where
  "stream_list st =
     map (\<lambda>i. entries st ((s_out st + i) mod BITSET_STREAM_SIZE)) [0..<s_size st]"

definition bytes_of_kind :: "bitset_stream_events \<Rightarrow> bitset_stream_entry list \<Rightarrow> u64" where
  "bytes_of_kind ev es = sum_list (map entry_len (filter (\<lambda>e. event e = ev) es))"

definition stream_inv :: "bitset_stream \<Rightarrow> bool" where
  "stream_inv st \<longleftrightarrow>
     s_size st \<le> BITSET_STREAM_SIZE \<and> s_out st < BITSET_STREAM_SIZE
     \<and> s_in st = (s_out st + s_size st) mod BITSET_STREAM_SIZE
     \<and> (\<forall>ev. queued_bytes st ev = bytes_of_kind ev (stream_list st))"

datatype 'a queue_op = Enq 'a | Deq

fun run_queue ::
  "('q \<Rightarrow> 'a \<Rightarrow> 'q option) \<Rightarrow> ('q \<Rightarrow> ('a \<times> 'q) option) \<Rightarrow> 'q \<Rightarrow> 'a queue_op list \<Rightarrow> 'q \<times> 'a list"
where
  "run_queue enq deq q [] = (q, [])"
| "run_queue enq deq q (Enq x # ops) =
     run_queue enq deq (case enq q x of None \<Rightarrow> q | Some q' \<Rightarrow> q') ops"
| "run_queue enq deq q (Deq # ops) =
     (case deq q of
        None \<Rightarrow> run_queue enq deq q ops
      | Some (x, q') \<Rightarrow> (case run_queue enq deq q' ops of (q'', ys) \<Rightarrow> (q'', x # ys)))"

definition list_enq :: "nat \<Rightarrow> 'a list \<Rightarrow> 'a \<Rightarrow> 'a list option" where
  "list_enq cap xs x = (if length xs < cap then Some (xs @ [x]) else None)"

lemma list_enq_simps:
  "length xs < cap \<Longrightarrow> list_enq cap xs x = Some (xs @ [x])" "\<not> length xs < cap \<Longrightarrow> list_enq cap xs x = None"
  by (simp_all add: list_enq_def)

fun list_deq :: "'a list \<Rightarrow> ('a \<times> 'a list) option" where
  "list_deq [] = None"
| "list_deq (x # xs) = Some (x, xs)"

locale bounded_queue =
  fixes cap :: nat
    and enq :: "'q \<Rightarrow> 'a \<Rightarrow> 'q option"
    and deq :: "'q \<Rightarrow> ('a \<times> 'q) option"
    and list :: "'q \<Rightarrow> 'a list"
    and invar :: "'q \<Rightarrow> bool"
  assumes enq_full: "invar q \<Longrightarrow> length (list q) = cap \<Longrightarrow> enq q x = None"
    and enq_room: "invar q \<Longrightarrow> length (list q) < cap \<Longrightarrow>
          \<exists>q'. enq q x = Some q' \<and> invar q' \<and> list q' = list q @ [x]"
    and deq_empty: "invar q \<Longrightarrow> list q = [] \<Longrightarrow> deq q = None"
    and deq_front: "invar q \<Longrightarrow> list q = x # xs \<Longrightarrow>
          \<exists>q'. deq q = Some (x, q') \<and> invar q' \<and> list q' = xs"
    and within_cap: "invar q \<Longrightarrow> length (list q) \<le> cap"
begin

lemma enq_Some_iff: "invar q \<Longrightarrow> (\<exists>q'. enq q x = Some q') \<longleftrightarrow> length (list q) < cap"
  using enq_full enq_room within_cap by (metis le_neq_implies_less option.distinct(1))

lemma enqD: "enq q x = Some q' \<Longrightarrow> invar q \<Longrightarrow> invar q' \<and> list q' = list q @ [x]"
  by (metis enq_Some_iff enq_room option.inject)

lemma deqD: "deq q = Some (x, q') \<Longrightarrow> invar q \<Longrightarrow> invar q' \<and> list q = x # list q'"
  by (cases "list q") (use deq_empty deq_front in fastforce)+

lemma run_refines:
  "invar q \<Longrightarrow> run_queue enq deq q ops = (q', outs) \<Longrightarrow>
     invar q' \<and> run_queue (list_enq cap) list_deq (list q) ops = (list q', outs)"
proof (induction ops arbitrary: q outs)
  case (Cons op ops)
  note prems = Cons.prems and ih = Cons.IH
  show ?case
  proof (cases op)
    case (Enq x)
    show ?thesis
    proof (cases "length (list q) < cap")
      case True
      with enq_room [of q x] Cons.prems(1) obtain q1
        where q1: "enq q x = Some q1" "invar q1" "list q1 = list q @ [x]" by blast
      with Cons.IH [OF q1(2)] Cons.prems(2) Enq True show ?thesis by (simp add: list_enq_simps)
    next
      case False
      with enq_full [of q x] within_cap [of q] Cons.prems(1) have "enq q x = None" by simp
      with Cons.IH [OF Cons.prems(1)] Cons.prems(2) Enq False show ?thesis by (simp add: list_enq_simps)
    qed
  next
    case Deq
    show ?thesis
    proof (cases "list q")
      case Nil
      with deq_empty [OF prems(1)] ih [OF prems(1)] prems(2) Deq
      show ?thesis by simp
    next
      case (Cons x xs)
      with deq_front prems(1) obtain q1 where q1: "deq q = Some (x, q1)" "invar q1" "list q1 = xs" by blast
      with prems(2) Deq obtain ys where "run_queue enq deq q1 ops = (q', ys)" "outs = x # ys"
        by (auto split: prod.splits)
      with ih [OF q1(2)] q1(3) Deq Cons show ?thesis by auto
    qed
  qed
qed simp

end

lemma stream_list_length [simp]: "length (stream_list st) = s_size st"
  by (simp add: stream_list_def)

lemma BITSET_STREAM_SIZE_pos [simp]: "0 < BITSET_STREAM_SIZE"
  by (simp add: BITSET_STREAM_SIZE_def)

lemma ring_slot_neq:
  fixes i n m k :: nat
  assumes "i < n" "n < m"
  shows "(k + i) mod m \<noteq> (k + n) mod m"
proof
  assume "(k + i) mod m = (k + n) mod m"
  then have "m dvd (k + n) - (k + i)"
    using assms(1) by (subst mod_eq_dvd_iff_nat [symmetric]) simp_all
  with assms show False by (auto dest: dvd_imp_le)
qed

lemma bytes_of_kind_append:
  "bytes_of_kind ev (es @ fs) = bytes_of_kind ev es + bytes_of_kind ev fs"
  by (simp add: bytes_of_kind_def)

lemma stream_put_list:
  assumes inv: "stream_inv st" and room: "s_size st < BITSET_STREAM_SIZE"
  shows "\<exists>st'. stream_put st e = Some st' \<and> stream_inv st' \<and> stream_list st' = stream_list st @ [e]"
proof -
  define st' where "st' = st\<lparr>entries := (entries st)(s_in st := e),
      queued_bytes := (queued_bytes st)(event e := queued_bytes st (event e) + entry_len e),
      s_size := s_size st + 1, s_in := (s_in st + 1) mod BITSET_STREAM_SIZE\<rparr>"
  have s_in: "s_in st = (s_out st + s_size st) mod BITSET_STREAM_SIZE"
    using inv by (simp add: stream_inv_def)
  have "stream_list st' = stream_list st @ [e]"
    using ring_slot_neq [OF _ room, of _ "s_out st"]
    by (auto simp: stream_list_def st'_def s_in)
  moreover from this inv have "stream_inv st'"
    using room s_in by (auto simp: stream_inv_def st'_def bytes_of_kind_append mod_simps)
       (auto simp: bytes_of_kind_def)
  moreover have "stream_put st e = Some st'"
    using room by (simp add: stream_put_def st'_def)
  ultimately show ?thesis by blast
qed

lemma stream_take_list:
  assumes inv: "stream_inv st" and ne: "stream_list st = e # es"
  shows "\<exists>st'. stream_take st = Some (e, st') \<and> stream_inv st' \<and> stream_list st' = es"
proof -
  have size: "s_size st = Suc (length es)"
    using arg_cong [OF ne, of length] by simp
  then have split: "stream_list st = entries st (s_out st mod BITSET_STREAM_SIZE) #
      map (\<lambda>i. entries st ((s_out st + Suc i) mod BITSET_STREAM_SIZE)) [0..<length es]"
    by (simp add: stream_list_def upt_conv_Cons map_Suc_upt [symmetric] del: upt_Suc)
  define st' where "st' = st\<lparr>queued_bytes := (queued_bytes st)
        (event e := queued_bytes st (event e) - entry_len e),
      s_size := s_size st - 1, s_out := (s_out st + 1) mod BITSET_STREAM_SIZE\<rparr>"
  have e: "entries st (s_out st) = e"
    using inv ne split by (simp add: stream_inv_def)
  have l: "stream_list st' = es"
    using ne split size by (simp add: stream_list_def st'_def mod_simps)
  have "stream_inv st'"
    using inv size l ne by (auto simp: stream_inv_def st'_def mod_simps)
       (auto simp: bytes_of_kind_def)
  moreover have "stream_take st = Some (e, st')"
    using size by (simp add: stream_take_def st'_def e Let_def)
  ultimately show ?thesis using l by blast
qed

interpretation strm: bounded_queue BITSET_STREAM_SIZE stream_put stream_take stream_list stream_inv
proof unfold_locales
  show "stream_inv st \<Longrightarrow> length (stream_list st) = BITSET_STREAM_SIZE \<Longrightarrow> stream_put st e = None" for st e
    by (simp add: stream_put_def)
  show "stream_inv st \<Longrightarrow> length (stream_list st) < BITSET_STREAM_SIZE \<Longrightarrow>
      \<exists>st'. stream_put st e = Some st' \<and> stream_inv st' \<and> stream_list st' = stream_list st @ [e]" for st e
    by (rule stream_put_list) simp_all
  show "stream_inv st \<Longrightarrow> stream_list st = [] \<Longrightarrow> stream_take st = None" for st
    using stream_list_length [of st] by (simp add: stream_take_def)
  show "stream_inv st \<Longrightarrow> stream_list st = e # es \<Longrightarrow>
      \<exists>st'. stream_take st = Some (e, st') \<and> stream_inv st' \<and> stream_list st' = es" for st e es
    by (rule stream_take_list)
  show "stream_inv st \<Longrightarrow> length (stream_list st) \<le> BITSET_STREAM_SIZE" for st
    by (simp add: stream_inv_def)
qed

subsection \<open>The byte-level view\<close>

abbreviation res :: "bitset \<Rightarrow> nat" where
  "res bs \<equiv> unat (res64 bs)"

definition bs_bit :: "bitset \<Rightarrow> nat \<Rightarrow> bool" where
  "bs_bit bs p \<longleftrightarrow> bf_bit (bits bs) (p div res bs)"

definition wf_bitset :: "bitset \<Rightarrow> bool" where
  "wf_bitset bs \<longleftrightarrow>
     0 < res bs \<and> unat (bs_size bs) + res bs < 2 ^ 64
     \<and> unat (bs_size bs) \<le> res bs * (64 * length (bits bs))
     \<and> 64 * length (bits bs) < 2 ^ 64
     \<and> stream_inv (stream bs)"

definition same_shape :: "bitset \<Rightarrow> bitset \<Rightarrow> bool" where
  "same_shape bs bs' \<longleftrightarrow> bs_size bs' = bs_size bs \<and> resolution bs' = resolution bs
     \<and> stream_enabled bs' = stream_enabled bs"

lemma first_and_last:
  assumes "0 < unat len" "unat from + unat len < 2 ^ 64" "0 < res bs"
  shows "\<exists>first final bitlen. INT_FIRST_AND_LAST bs from len = (first, final, bitlen)
     \<and> unat first = unat from div res bs \<and> unat final = (unat from + unat len - 1) div res bs
     \<and> unat first \<le> unat final \<and> unat bitlen = unat final - unat first + 1"
proof -
  define first final where "first = from div res64 bs" and "final = ((from + len) - 1) div res64 bs"
  have sum: "unat (from + len) = unat from + unat len" using assms by (simp add: unat_add_u64)
  then have sub: "unat ((from + len) - 1) = unat from + unat len - 1"
    using assms by (simp add: unat_dec_u64 u64_pos_iff)
  have f: "unat first = unat from div res bs" "unat final = (unat from + unat len - 1) div res bs"
    by (simp_all add: first_def final_def unat_div_distrib sub)
  have le: "unat first \<le> unat final" unfolding f by (rule div_le_mono) (use assms in simp)
  have "unat final + 1 < 2 ^ 64"
  proof -
    have "unat final \<le> unat from + unat len - 1" unfolding f by (rule div_le_dividend)
    with assms show ?thesis by simp
  qed
  with le have "unat ((final - first) + 1) = unat final - unat first + 1"
    by (simp add: word_nat)
  with f le show ?thesis
    unfolding INT_FIRST_AND_LAST_def first_def final_def Let_def by auto
qed

definition range_fits :: "bitset \<Rightarrow> nat \<Rightarrow> nat \<Rightarrow> bool" where
  "range_fits bs from len \<longleftrightarrow>
     from + len < 2 ^ 64 \<and> (from + len - 1) div res bs < 64 * length (bits bs)"

lemma range_in_bits:
  assumes wf: "wf_bitset bs" and "0 < unat len" "unat from + unat len \<le> unat (bs_size bs)"
  shows "(unat from + unat len - 1) div res bs < 64 * length (bits bs)"
proof -
  have "unat from + unat len - 1 < res bs * (64 * length (bits bs))"
    using assms unfolding wf_bitset_def by linarith
  then show ?thesis by (simp add: less_mult_imp_div_less mult.commute)
qed

lemma range_fits_size:
  assumes "wf_bitset bs" "0 < unat len" "unat from + unat len \<le> unat (bs_size bs)"
  shows "range_fits bs (unat from) (unat len)"
  using range_in_bits [OF assms] assms by (simp add: range_fits_def wf_bitset_def)

lemma same_shapeD:
  "same_shape bs bs' \<Longrightarrow> bs_size bs' = bs_size bs"
  "same_shape bs bs' \<Longrightarrow> res64 bs' = res64 bs"
  "same_shape bs bs' \<Longrightarrow> stream_enabled bs' = stream_enabled bs"
  by (simp_all add: same_shape_def res64_def)

lemma same_shape_refl [simp]: "same_shape bs bs"
  by (simp add: same_shape_def)

lemma same_shape_bits [simp]: "same_shape bs (bs\<lparr>bits := b\<rparr>)"
  by (simp add: same_shape_def)

lemma res64_upd [simp]:
  "res64 (bs\<lparr>bits := b\<rparr>) = res64 bs" "res64 (bs\<lparr>stream := st\<rparr>) = res64 bs"
  "res64 (bs\<lparr>stream_enabled := en\<rparr>) = res64 bs"
  by (simp_all add: res64_def)

lemma enqueue_spec:
  assumes wf: "wf_bitset bs"
  shows "\<exists>bs'. bitset_stream_enqueue bs ev from len
             = (if bitset_stream_size bs = BITSET_STREAM_SIZE then Blocked bs' else Done bs')
      \<and> bits bs' = bits bs \<and> wf_bitset bs' \<and> same_shape bs bs'
      \<and> stream_list (stream bs') = stream_list (stream bs) @
           (if bitset_stream_size bs = BITSET_STREAM_SIZE then []
            else [\<lparr>event = ev, entry_from = from, entry_len = len\<rparr>])"
proof (cases "bitset_stream_size bs = BITSET_STREAM_SIZE")
  case True
  with wf show ?thesis
    by (intro exI [of _ bs]) (simp add: bitset_stream_enqueue_def stream_put_def bitset_stream_size_def)
next
  case False
  let ?e = "\<lparr>event = ev, entry_from = from, entry_len = len\<rparr>"
  from wf False obtain st where st: "stream_put (stream bs) ?e = Some st" "stream_inv st"
      "stream_list st = stream_list (stream bs) @ [?e]"
    using strm.enq_room [of "stream bs" ?e] strm.within_cap [of "stream bs"]
    by (auto simp: wf_bitset_def bitset_stream_size_def)
  with wf False show ?thesis
    by (intro exI [of _ "bs\<lparr>stream := st\<rparr>"])
      (simp add: bitset_stream_enqueue_def wf_bitset_def same_shape_def)
qed

definition in_chunks :: "bitset \<Rightarrow> nat \<Rightarrow> nat \<Rightarrow> nat \<Rightarrow> bool" where
  "in_chunks bs from len p \<longleftrightarrow> from div res bs \<le> p div res bs \<and> p div res bs \<le> (from + len - 1) div res bs"

lemma in_chunks_cover: "from \<le> p \<Longrightarrow> p < from + len \<Longrightarrow> in_chunks bs from len p"
  by (auto simp: in_chunks_def intro: div_le_mono)

lemma byte_in_bits:
  assumes "wf_bitset bs" "p < unat (bs_size bs)"
  shows "p div res bs < 64 * length (bits bs)"
proof -
  have "p < 64 * length (bits bs) * res bs"
    using assms by (simp add: wf_bitset_def mult.commute)
  then show ?thesis by (rule less_mult_imp_div_less)
qed

lemma update_bits:
  assumes wf: "wf_bitset bs" and len: "0 < unat len" "range_fits bs (unat from) (unat len)"
    and upd: "\<And>first bitlen. unat first + unat bitlen \<le> 64 * length (bits bs) \<Longrightarrow>
       64 * length (bits bs) < 2 ^ 64 \<Longrightarrow>
       \<exists>b. op (bits bs) first bitlen = Some b
          \<and> fills v (bits bs) b {unat first..<unat first + unat bitlen}"
  shows "\<exists>first final bitlen b. INT_FIRST_AND_LAST bs from len = (first, final, bitlen)
     \<and> op (bits bs) first bitlen = Some b \<and> wf_bitset (bs\<lparr>bits := b\<rparr>) \<and> length b = length (bits bs)
     \<and> (\<forall>p < unat (bs_size bs). bs_bit (bs\<lparr>bits := b\<rparr>) p
           \<longleftrightarrow> (if in_chunks bs (unat from) (unat len) p then v else bs_bit bs p))"
proof -
  have "unat from + unat len < 2 ^ 64" "0 < res bs"
    using wf len by (auto simp: wf_bitset_def range_fits_def)
  from first_and_last [OF len(1) this] obtain first final bitlen
    where f: "INT_FIRST_AND_LAST bs from len = (first, final, bitlen)"
      "unat first = unat from div res bs" "unat final = (unat from + unat len - 1) div res bs"
      "unat first \<le> unat final" "unat bitlen = unat final - unat first + 1"
    by blast
  have "unat first + unat bitlen \<le> 64 * length (bits bs)"
    using len(2) f by (simp add: range_fits_def)
  moreover have "64 * length (bits bs) < 2 ^ 64" using wf by (simp add: wf_bitset_def)
  ultimately obtain b where b: "op (bits bs) first bitlen = Some b"
      "fills v (bits bs) b {unat first..<unat first + unat bitlen}"
    using upd by blast
  have "wf_bitset (bs\<lparr>bits := b\<rparr>)"
    using wf fills_length [OF b(2)] by (simp add: wf_bitset_def)
  moreover have "bs_bit (bs\<lparr>bits := b\<rparr>) p
       \<longleftrightarrow> (if in_chunks bs (unat from) (unat len) p then v else bs_bit bs p)"
    if "p < unat (bs_size bs)" for p
  proof -
    have "p div res bs \<in> {unat first..<unat first + unat bitlen} \<longleftrightarrow> in_chunks bs (unat from) (unat len) p"
      using f by (auto simp: in_chunks_def)
    with b(2) byte_in_bits [OF wf that] show ?thesis
      by (simp add: bs_bit_def fills_def del: atLeastLessThan_iff)
  qed
  ultimately show ?thesis using f b fills_length [OF b(2)] by blast
qed

definition range_effect ::
  "bool \<Rightarrow> bitset_stream_events \<Rightarrow> bitset \<Rightarrow> u64 \<Rightarrow> u64 \<Rightarrow> bitset \<Rightarrow> bool"
where
  "range_effect v ev bs from len bs' \<longleftrightarrow>
     wf_bitset bs' \<and> same_shape bs bs' \<and> length (bits bs') = length (bits bs)
     \<and> (\<forall>p < unat (bs_size bs).
           bs_bit bs' p \<longleftrightarrow> (if in_chunks bs (unat from) (unat len) p then v else bs_bit bs p))
     \<and> stream_list (stream bs') = stream_list (stream bs) @
          (if stream_enabled bs \<and> bitset_stream_size bs < BITSET_STREAM_SIZE
           then [\<lparr>event = ev, entry_from = from, entry_len = len\<rparr>] else [])"

lemma range_op_spec:
  assumes wf: "wf_bitset bs" and len: "0 < unat len" "range_fits bs (unat from) (unat len)"
    and upd: "\<And>first bitlen. unat first + unat bitlen \<le> 64 * length (bits bs) \<Longrightarrow>
       64 * length (bits bs) < 2 ^ 64 \<Longrightarrow>
       \<exists>b. op (bits bs) first bitlen = Some b
          \<and> fills v (bits bs) b {unat first..<unat first + unat bitlen}"
  shows "\<exists>bs'. (let (first, final, bitlen) = INT_FIRST_AND_LAST bs from len in
          case op (bits bs) first bitlen of
            None \<Rightarrow> OutOfBounds
          | Some b \<Rightarrow>
              let bs' = bs\<lparr>bits := b\<rparr> in
              if stream_enabled bs' then bitset_stream_enqueue bs' ev from len else Done bs')
        = (if stream_enabled bs \<and> bitset_stream_size bs = BITSET_STREAM_SIZE then Blocked bs' else Done bs')
      \<and> range_effect v ev bs from len bs'"
proof -
  from update_bits [where op = op and v = v, OF wf len upd] obtain first final bitlen b
    where f: "INT_FIRST_AND_LAST bs from len = (first, final, bitlen)"
      "op (bits bs) first bitlen = Some b" "wf_bitset (bs\<lparr>bits := b\<rparr>)" "length b = length (bits bs)"
      and p: "\<forall>p < unat (bs_size bs). bs_bit (bs\<lparr>bits := b\<rparr>) p
           \<longleftrightarrow> (if in_chunks bs (unat from) (unat len) p then v else bs_bit bs p)"
    by blast
  show ?thesis
  proof (cases "stream_enabled bs")
    case False
    with f p show ?thesis
      by (intro exI [of _ "bs\<lparr>bits := b\<rparr>"]) (auto simp: range_effect_def)
  next
    case True
    from enqueue_spec [OF f(3), of ev "from" len] obtain bs'
      where e: "bitset_stream_enqueue (bs\<lparr>bits := b\<rparr>) ev from len
             = (if bitset_stream_size bs = BITSET_STREAM_SIZE then Blocked bs' else Done bs')"
        "bits bs' = b" "wf_bitset bs'" "same_shape bs bs'"
        "stream_list (stream bs') = stream_list (stream bs) @
           (if bitset_stream_size bs = BITSET_STREAM_SIZE then []
            else [\<lparr>event = ev, entry_from = from, entry_len = len\<rparr>])"
      by (auto simp: bitset_stream_size_def same_shape_def)
    moreover have "bs_bit bs' q = bs_bit (bs\<lparr>bits := b\<rparr>) q" for q
      using e(2) same_shapeD(2) [OF e(4)] by (simp add: bs_bit_def)
    moreover have "bitset_stream_size bs \<le> BITSET_STREAM_SIZE"
      using wf by (simp add: wf_bitset_def stream_inv_def bitset_stream_size_def)
    ultimately show ?thesis
      using True f p by (intro exI [of _ bs']) (auto simp: range_effect_def)
  qed
qed

lemma bitset_set_range_fits:
  assumes "wf_bitset bs" "0 < unat len" "range_fits bs (unat from) (unat len)"
  shows "\<exists>bs'. bitset_set_range bs from len
        = (if stream_enabled bs \<and> bitset_stream_size bs = BITSET_STREAM_SIZE then Blocked bs' else Done bs')
      \<and> range_effect True BITSET_STREAM_SET bs from len bs'"
  unfolding bitset_set_range_def using assms by (rule range_op_spec) (rule bit_set_range_fills)

lemma bitset_clear_range_fits:
  assumes "wf_bitset bs" "0 < unat len" "range_fits bs (unat from) (unat len)"
  shows "\<exists>bs'. bitset_clear_range bs from len
        = (if stream_enabled bs \<and> bitset_stream_size bs = BITSET_STREAM_SIZE then Blocked bs' else Done bs')
      \<and> range_effect False BITSET_STREAM_UNSET bs from len bs'"
  unfolding bitset_clear_range_def using assms by (rule range_op_spec) (rule bit_clear_range_fills)

lemmas bitset_set_range_spec = bitset_set_range_fits [OF _ _ range_fits_size]
lemmas bitset_clear_range_spec = bitset_clear_range_fits [OF _ _ range_fits_size]

lemma bitset_is_set_at_eq:
  "wf_bitset bs \<Longrightarrow> unat at < unat (bs_size bs) \<Longrightarrow>
     bitset_is_set_at bs at = Some (of_bool (bs_bit bs (unat at)))"
  by (simp add: bitset_is_set_at_def bit_is_set_def bit_get_eq bs_bit_def unat_div_distrib byte_in_bits)

lemma run_bytes:
  assumes run: "is_run b f n v c" and r: "0 < r" and f: "f = p div r"
  shows "(\<forall>q. p \<le> q \<and> q < r * (f + c) \<longrightarrow> bf_bit b (q div r) = v)"
    and "c < n \<Longrightarrow> bf_bit b (r * (f + c) div r) \<noteq> v"
proof -
  show "c < n \<Longrightarrow> bf_bit b (r * (f + c) div r) \<noteq> v"
    using run r by (simp add: is_run_def)
  show "\<forall>q. p \<le> q \<and> q < r * (f + c) \<longrightarrow> bf_bit b (q div r) = v"
  proof (intro allI impI, elim conjE)
    fix q assume q: "p \<le> q" "q < r * (f + c)"
    from q(1) have "f \<le> q div r" unfolding f by (rule div_le_mono)
    moreover from q(2) have "q div r < f + c"
      by (simp add: less_mult_imp_div_less mult.commute)
    ultimately obtain i where "q div r = f + i" "i < c"
      by (metis le_Suc_ex nat_add_left_cancel_less)
    with run show "bf_bit b (q div r) = v" by (simp add: is_run_def)
  qed
qed

definition clip_len :: "bitset \<Rightarrow> nat \<Rightarrow> nat \<Rightarrow> nat" where
  "clip_len bs from len = min len (unat (bs_size bs) - from)"

lemma clipped_len:
  assumes "from": "unat from < unat (bs_size bs)" and len: "0 < unat len" "unat from + unat len < 2 ^ 64"
    and len': "len' = (if len + from > bs_size bs then bs_size bs - from else len)"
  shows "unat len' = clip_len bs (unat from) (unat len)" "0 < unat len'"
    "unat from + unat len' \<le> unat (bs_size bs)"
proof -
  have "unat (len + from) = unat from + unat len" using len by (simp add: unat_add_u64 add.commute)
  then show eq: "unat len' = clip_len bs (unat from) (unat len)"
    using "from" by (auto simp: len' clip_len_def word_less_nat_alt unat_sub_u64)
  show "0 < unat len'" "unat from + unat len' \<le> unat (bs_size bs)"
    using "from" len unfolding eq clip_len_def by auto
qed

text \<open>From a count of chunks to a count of bytes: the run starts inside its first chunk.\<close>

lemma run_in_bytes:
  assumes r0: "0 < res bs" and c: "0 < unat c" "unat c * res bs < 2 ^ 64"
    and run: "run = c * res64 bs - from mod res64 bs"
  shows "0 < unat run" "unat from + unat run = res bs * (unat from div res bs + unat c)"
proof -
  have cr: "unat (c * res64 bs) = unat c * res bs" using c(2) by (subst unat_mult_lem [symmetric]) simp
  have m: "unat (from mod res64 bs) = unat from mod res bs" by (simp add: unat_mod_distrib)
  have mc: "unat from mod res bs < unat c * res bs"
    using c(1) mod_less_divisor [OF r0, of "unat from"]
    by (metis One_nat_def Suc_leI mult.commute mult.right_neutral mult_le_mono2 order.strict_trans2)
  have eq: "unat run = unat c * res bs - unat from mod res bs"
    unfolding run using mc by (subst unat_sub_u64) (simp_all add: cr m)
  show "0 < unat run" using mc eq by simp
  have "res bs * (unat from div res bs) + unat from mod res bs = unat from" by simp
  with mc show "unat from + unat run = res bs * (unat from div res bs + unat c)"
    unfolding eq distrib_left mult.commute [of "res bs" "unat c"] by linarith
qed

lemma bitset_run_count_ex_spec:
  assumes wf: "wf_bitset bs" and "from": "unat from < unat (bs_size bs)"
    and len: "0 < unat len" "unat from + unat len < 2 ^ 64"
  shows "\<exists>run. bitset_run_count_ex bs from len = Some (run, Some (of_bool (bs_bit bs (unat from))))
     \<and> 0 < unat run
     \<and> (\<forall>q. unat from \<le> q \<and> q < unat from + unat run \<longrightarrow> bs_bit bs q = bs_bit bs (unat from))
     \<and> (unat run < clip_len bs (unat from) (unat len) \<longrightarrow>
          bs_bit bs (unat from + unat run) \<noteq> bs_bit bs (unat from))"
proof -
  define len' where "len' = (if len + from > bs_size bs then bs_size bs - from else len)"
  have inb: "(from > bs_size bs) = False" using "from" by (simp add: word_less_nat_alt)
  note l' = clipped_len [OF "from" len len'_def]
  have r0: "0 < res bs" and small: "64 * length (bits bs) < 2 ^ 64"
    and sz: "unat (bs_size bs) + res bs < 2 ^ 64" using wf by (auto simp: wf_bitset_def)
  have "unat from + unat len' < 2 ^ 64" using l'(3) sz by simp
  from first_and_last [OF l'(2) this r0] obtain first final bitlen
    where f: "INT_FIRST_AND_LAST bs from len' = (first, final, bitlen)"
      "unat first = unat from div res bs" "unat final = (unat from + unat len' - 1) div res bs"
      "unat first \<le> unat final" "unat bitlen = unat final - unat first + 1"
    by blast
  have fb: "unat first + unat bitlen \<le> 64 * length (bits bs)"
    using range_in_bits [OF wf l'(2,3)] f by simp
  have v: "bf_bit (bits bs) (unat first) = bs_bit bs (unat from)" by (simp add: bs_bit_def f)
  obtain c where c: "bit_run_count (bits bs) first bitlen = Some (c, of_bool (bs_bit bs (unat from)))"
      "is_run (bits bs) (unat first) (unat bitlen) (bs_bit bs (unat from)) (unat c)"
    using bit_run_count_run [OF fb small] fb f(5) v by auto
  have c0: "0 < unat c" and cb: "unat c \<le> unat bitlen"
    using c(2) f(5) v unfolding is_run_def by (auto intro: gr0I)
  have "unat c * res bs \<le> (unat final + 1) * res bs" using cb f by (intro mult_right_mono) auto
  also have "\<dots> \<le> unat from + unat len' - 1 + res bs" unfolding f(3) by (simp add: distrib_right)
  finally have "unat c * res bs < 2 ^ 64" using l'(3) sz by simp
  note run = run_in_bytes [OF r0 c0 this refl, of "from", folded f(2)]
  let ?run = "c * res64 bs - from mod res64 bs"
  have "bs_bit bs (unat from + unat ?run) \<noteq> bs_bit bs (unat from)" if "unat ?run < unat len'"
  proof -
    have "unat c < unat bitlen"
    proof (rule ccontr)
      assume "\<not> unat c < unat bitlen"
      then have "unat first + unat c = unat final + 1" using cb f by simp
      then have "unat from + unat ?run = res bs * (unat final + 1)" using run(2) by simp
      moreover have "unat from + unat len' - 1 < res bs * (unat final + 1)"
        unfolding f(3) using dividend_less_times_div [OF r0] by (simp add: distrib_left)
      ultimately show False using that by simp
    qed
    from run_bytes(2) [OF c(2) r0 f(2) this] show ?thesis unfolding run(2) by (subst bs_bit_def) simp
  qed
  moreover have "bs_bit bs q = bs_bit bs (unat from)" if "unat from \<le> q" "q < unat from + unat ?run" for q
    using run_bytes(1) [OF c(2) r0 f(2)] that by (simp add: bs_bit_def [of bs q] run(2))
  moreover have "bitset_run_count_ex bs from len = Some (?run, Some (of_bool (bs_bit bs (unat from))))"
    using inb f(1) c(1)
    by (simp only: bitset_run_count_ex_def if_False Let_def len'_def [symmetric] prod.case option.case)
  ultimately show ?thesis using run(1) unfolding l'(1) by blast
qed

subsection \<open>Allocation\<close>

lemma ceil_div_bounds:
  assumes "0 < (r :: nat)"
  shows "n \<le> r * ((n + r - 1) div r)" and "r * ((n + r - 1) div r) \<le> n + r - 1"
proof -
  show "r * ((n + r - 1) div r) \<le> n + r - 1" by simp
  have "n + r - 1 < r * ((n + r - 1) div r + 1)"
    using dividend_less_times_div [OF assms, of "n + r - 1"] by (simp add: distrib_left)
  then show "n \<le> r * ((n + r - 1) div r)" using assms by (simp add: distrib_left)
qed

definition chunk_count :: "nat \<Rightarrow> nat \<Rightarrow> nat" where
  "chunk_count sz r = (sz + r - 1) div r"

lemma bitset_alloc_bytes_eq:
  fixes reso :: i32
  assumes "0 < unat (scast reso :: u64)" "unat sz + unat (scast reso :: u64) < 2 ^ 64"
    "unat sz < 2 ^ 60"
  shows "unat (bitset_alloc_bytes sz reso) = (chunk_count (unat sz) (unat (scast reso :: u64)) + 7) div 8"
proof -
  define r :: u64 where "r = scast reso"
  define n where "n = chunk_count (unat sz) (unat r)"
  have r: "0 < unat r" "unat sz + unat r < 2 ^ 64" using assms by (simp_all add: r_def)
  have "unat (sz + r - 1) = unat sz + unat r - 1"
    using r by (simp add: unat_dec_u64 u64_pos_iff unat_add_u64)
  then have n: "unat ((sz + r - 1) div r) = n"
    by (simp add: n_def chunk_count_def unat_div_distrib)
  have n60: "n \<le> 2 ^ 60"
  proof (rule ccontr)
    assume "\<not> n \<le> 2 ^ 60"
    then have "unat r * (2 ^ 60 + 1) \<le> unat r * n" by (intro mult_left_mono) auto
    also have "\<dots> \<le> unat sz + unat r - 1" unfolding n_def chunk_count_def by (rule ceil_div_bounds) (rule r)
    finally have "unat r * 2 ^ 60 < 2 ^ 60" using assms(3) r by simp
    with r show False by simp
  qed
  have w: "unat (BIT_WORDS_FOR_SIZE ((sz + r - 1) div r)) = (n + 7) div 8"
    unfolding BIT_WORDS_FOR_SIZE_def using n n60 by (simp add: unat_div_distrib unat_add_u64)
  have "unat (BIT_WORDS_FOR_SIZE ((sz + r - 1) div r) * 8) = (n + 7) div 8 * 8"
    using n60 by (subst unat_mult_lem [THEN iffD1]) (simp_all add: w)
  then show ?thesis
    unfolding bitset_alloc_bytes_def r_def [symmetric] Let_def n_def [symmetric]
    by (simp add: unat_div_distrib)
qed

lemma alloc_words_clear:
  assumes "i < 8 * n"
  shows "\<not> bf_bit (alloc_words slack n) i"
proof (cases "i div 64 < n div 8")
  case True
  then show ?thesis by (simp add: bf_bit_def alloc_words_def nth_append)
next
  case False
  have "i div 64 * 64 + i mod 64 = i" by simp
  moreover have "n = 8 * (n div 8) + n mod 8" by simp
  ultimately have "i div 64 = n div 8" "i mod 64 < 8 * (n mod 8)"
    using assms False by linarith+
  then show ?thesis
    by (auto simp: bf_bit_def alloc_words_def nth_append bit_and_iff bit_not_iff bit_mask_iff)
qed

lemma length_alloc_words: "length (alloc_words slack n) = (n + 7) div 8"
proof (cases "n mod 8 = 0")
  case True
  then show ?thesis by (auto simp: alloc_words_def)
next
  case False
  then obtain k where "n mod 8 = Suc k" by (auto simp: gr0_conv_Suc)
  then have "n + 7 = 8 * (n div 8 + 1) + (n mod 8 - 1)" using mult_div_mod_eq [of 8 n] by simp
  moreover have "(8 * (n div 8 + 1) + (n mod 8 - 1)) div 8 = n div 8 + 1" by simp
  ultimately have "(n + 7) div 8 = n div 8 + 1" by (rule ssubst)
  with False show ?thesis by (simp add: alloc_words_def)
qed

lemma stream_inv_zero [simp]: "stream_inv zero_stream" "stream_list zero_stream = []"
  by (simp_all add: stream_inv_def zero_stream_def stream_list_def bytes_of_kind_def)

lemma bitset_alloc_wf:
  fixes reso :: i32
  assumes r: "0 < unat (scast reso :: u64)" "unat sz + unat (scast reso :: u64) < 2 ^ 64"
    and sz: "unat sz < 2 ^ 60"
  shows "wf_bitset (bitset_alloc slack sz reso)"
    and "p < unat sz \<Longrightarrow> \<not> bs_bit (bitset_alloc slack sz reso) p"
proof -
  let ?r = "unat (scast reso :: u64)" and ?bs = "bitset_alloc slack sz reso"
  define n where "n = chunk_count (unat sz) ?r"
  define m where "m = (n + 7) div 8"
  have bytes: "unat (bitset_alloc_bytes sz reso) = m"
    unfolding m_def n_def by (rule bitset_alloc_bytes_eq [OF r sz])
  have res: "res ?bs = ?r" by (simp add: res64_def bitset_alloc_def)
  have len: "length (bits ?bs) = (m + 7) div 8"
    by (simp add: bitset_alloc_def bytes length_alloc_words)
  have nm: "n \<le> 8 * m" using ceil_div_bounds(1) [of 8 n] by (simp add: m_def)
  have cover: "unat sz \<le> ?r * n"
    unfolding n_def chunk_count_def by (rule ceil_div_bounds) (rule r)
  have "?r * n \<le> unat sz + ?r - 1"
    unfolding n_def chunk_count_def by (rule ceil_div_bounds) (rule r)
  moreover have "n \<le> ?r * n" using r by simp
  ultimately have n64: "n + 128 < 2 ^ 64"
  proof -
    have "n \<le> 2 ^ 60"
    proof (cases "n = 0")
      case False
      have "?r * (n - 1) \<le> unat sz - 1"
        using \<open>?r * n \<le> unat sz + ?r - 1\<close> False by (simp add: diff_mult_distrib2)
      moreover have "n - 1 \<le> ?r * (n - 1)" using r by simp
      ultimately show ?thesis using sz by linarith
    qed simp
    then show ?thesis by simp
  qed
  have m8: "8 * m \<le> n + 7" using ceil_div_bounds(2) [of 8 n] by (simp add: m_def)
  have len8: "m \<le> 8 * length (bits ?bs)" "8 * length (bits ?bs) \<le> m + 7"
    using ceil_div_bounds [of 8 m] by (simp_all add: len)
  have "?r * n \<le> ?r * (64 * length (bits ?bs))"
    using nm len8 by (intro mult_left_mono) auto
  with cover have "unat sz \<le> ?r * (64 * length (bits ?bs))" by (rule order_trans)
  moreover have "64 * length (bits ?bs) < 2 ^ 64" using n64 m8 len8(2) by linarith
  moreover have "bs_size ?bs = sz" "stream ?bs = zero_stream" by (simp_all add: bitset_alloc_def)
  ultimately show "wf_bitset ?bs" using r unfolding wf_bitset_def res by simp
  show "\<not> bs_bit ?bs p" if "p < unat sz"
  proof -
    have "p div ?r < n" using that cover by (intro less_mult_imp_div_less) (simp add: mult.commute)
    then have "p div ?r < 8 * m" using nm by simp
    then show ?thesis
      unfolding bs_bit_def res by (simp add: bitset_alloc_def bytes alloc_words_clear)
  qed
qed

subsection \<open>Properties\<close>

text \<open>C9: the event stream is a bounded first-in first-out queue.  Any sequence of enqueues and
  dequeues on a fresh ring delivers exactly the entries, in the order, that a list of at most
  \<open>BITSET_STREAM_SIZE\<close> entries delivers, and afterwards the per-kind byte counters that the
  migration reads are the sums over the entries still queued.\<close>

theorem stream_refines_bounded_fifo:
  assumes "run_queue stream_put stream_take zero_stream ops = (st, outs)"
  shows "run_queue (list_enq BITSET_STREAM_SIZE) list_deq [] ops = (stream_list st, outs)
    \<and> (\<forall>ev. queued_bytes st ev = bytes_of_kind ev (stream_list st))"
  using strm.run_refines [OF stream_inv_zero(1) assms] by (simp add: stream_inv_def)

theorem stream_refines_bounded_fifo_witness:
  "\<exists>st. run_queue stream_put stream_take zero_stream
        [Enq \<lparr>event = BITSET_STREAM_SET, entry_from = 0, entry_len = 10\<rparr>,
         Enq \<lparr>event = BITSET_STREAM_UNSET, entry_from = 5, entry_len = 7\<rparr>, Deq]
      = (st, [\<lparr>event = BITSET_STREAM_SET, entry_from = 0, entry_len = 10\<rparr>])
    \<and> queued_bytes st BITSET_STREAM_UNSET = 7 \<and> queued_bytes st BITSET_STREAM_SET = 0"
proof -
  let ?a = "\<lparr>event = BITSET_STREAM_SET, entry_from = 0, entry_len = 10\<rparr>"
  let ?b = "\<lparr>event = BITSET_STREAM_UNSET, entry_from = 5, entry_len = 7\<rparr>"
  obtain st outs where r: "run_queue stream_put stream_take zero_stream [Enq ?a, Enq ?b, Deq] = (st, outs)"
    by (cases "run_queue stream_put stream_take zero_stream [Enq ?a, Enq ?b, Deq]")
  from stream_refines_bounded_fifo [OF r] have st: "stream_list st = [?b]" "outs = [?a]"
      "queued_bytes st ev = bytes_of_kind ev (stream_list st)" for ev
    by (simp_all add: list_enq_def BITSET_STREAM_SIZE_def)
  from r [unfolded st(2)] show ?thesis
    by (intro exI [of _ st] conjI) (simp_all only: st(1,3) bytes_of_kind_def, simp_all)
qed

text \<open>C10: for a non-empty range inside the file, \<open>bitset_set_range\<close> sets and
  \<open>bitset_clear_range\<close> clears exactly the chunks the range touches, keeps the map well formed, and,
  while the stream is enabled, queues exactly one event for the range; on a full stream the call
  blocks, with the bits already changed and the event not yet queued.\<close>

theorem bitset_ranges_correct:
  assumes "wf_bitset bs" "0 < unat len" "unat from + unat len \<le> unat (bs_size bs)"
  shows "(\<exists>bs'. bitset_set_range bs from len
          = (if stream_enabled bs \<and> bitset_stream_size bs = BITSET_STREAM_SIZE then Blocked bs' else Done bs')
        \<and> range_effect True BITSET_STREAM_SET bs from len bs')
    \<and> (\<exists>bs'. bitset_clear_range bs from len
          = (if stream_enabled bs \<and> bitset_stream_size bs = BITSET_STREAM_SIZE then Blocked bs' else Done bs')
        \<and> range_effect False BITSET_STREAM_UNSET bs from len bs')"
  using bitset_set_range_spec [OF assms(1,2) assms] bitset_clear_range_spec [OF assms(1,2) assms] by blast

lemma alloc_example: "wf_bitset (bitset_alloc 0 100000 4096)" "res (bitset_alloc 0 100000 4096) = 4096"
  by (rule bitset_alloc_wf; simp) (simp add: res64_def bitset_alloc_def)

theorem bitset_ranges_correct_witness:
  "\<exists>bs'. bitset_set_range (bitset_alloc 0 100000 4096) 5000 8192 = Done bs'
     \<and> bs_bit bs' 4096 \<and> bs_bit bs' 16383 \<and> \<not> bs_bit bs' 16384"
proof -
  let ?bs = "bitset_alloc 0 100000 4096"
  have sz: "bs_size ?bs = 100000" and off: "\<not> stream_enabled ?bs" by (simp_all add: bitset_alloc_def)
  obtain bs' where "bitset_set_range ?bs 5000 8192 = Done bs'"
      "range_effect True BITSET_STREAM_SET ?bs 5000 8192 bs'"
    using bitset_ranges_correct [OF alloc_example(1), of 8192 5000] sz off by auto
  moreover have "\<not> bs_bit ?bs 16384" by (rule bitset_alloc_wf; simp)
  ultimately show ?thesis
    by (auto simp: range_effect_def in_chunks_def alloc_example sz)
qed

text \<open>\<open>bitset_run_count_ex\<close> finds the longest run of equal bytes: it reports the state of the
  byte at \<open>from\<close>, every byte of the run has that state, and a run shorter than the (clipped)
  request ends at a byte with the other state.  The run may extend past the request, up to the end
  of its last chunk.\<close>

theorem bitset_run_count_ex_maximal:
  assumes "wf_bitset bs" "unat from < unat (bs_size bs)" "0 < unat len" "unat from + unat len < 2 ^ 64"
  shows "\<exists>run. bitset_run_count_ex bs from len = Some (run, Some (of_bool (bs_bit bs (unat from))))
     \<and> 0 < unat run
     \<and> (\<forall>q. unat from \<le> q \<and> q < unat from + unat run \<longrightarrow> bs_bit bs q = bs_bit bs (unat from))
     \<and> (unat run < min (unat len) (unat (bs_size bs) - unat from) \<longrightarrow>
          bs_bit bs (unat from + unat run) \<noteq> bs_bit bs (unat from))"
  using bitset_run_count_ex_spec [OF assms] unfolding clip_len_def .

theorem bitset_run_count_ex_maximal_witness:
  "\<exists>run. bitset_run_count_ex (bitset_alloc 0 100000 4096) 5000 8192 = Some (run, Some 0) \<and> 0 < unat run"
proof -
  have "\<not> bs_bit (bitset_alloc 0 100000 4096) 5000" by (rule bitset_alloc_wf; simp)
  then show ?thesis
    using bitset_run_count_ex_maximal [OF alloc_example(1), of 5000 8192]
    by (auto simp: bitset_alloc_def)
qed

text \<open>\<open>bitset_alloc\<close> returns a well-formed map in which every byte of the file is clear,
  whatever the memory behind the object holds.\<close>

theorem bitset_alloc_clear:
  fixes reso :: i32
  assumes "0 < sint reso" "unat sz < 2 ^ 60"
  shows "wf_bitset (bitset_alloc slack sz reso)
       \<and> (\<forall>p < unat sz. \<not> bs_bit (bitset_alloc slack sz reso) p)"
proof -
  have "uint (scast reso :: u64) = sint reso"
  proof -
    have "scast reso = (word_of_int (sint reso) :: u64)" by simp
    then have "uint (scast reso :: u64) = take_bit 64 (sint reso)" by (simp only: unsigned_of_int) simp
    with assms(1) sint_less [of reso] show ?thesis by (simp add: take_bit_int_eq_self)
  qed
  then have "unat (scast reso :: u64) = nat (sint reso)" by (simp add: unat_eq_nat_uint)
  then have "0 < unat (scast reso :: u64)" "unat (scast reso :: u64) < 2 ^ 31"
    using assms(1) sint_less [of reso] by (simp_all add: nat_less_iff)
  with assms(2) bitset_alloc_wf [where reso = reso and sz = sz and slack = slack] show ?thesis by simp
qed

theorem bitset_alloc_clear_witness:
  "wf_bitset (bitset_alloc 255 100000 4096) \<and> \<not> bs_bit (bitset_alloc 255 100000 4096) 99999"
  using bitset_alloc_clear [of 4096 100000 255] by simp

text \<open>The allocation is not a multiple of the word size: \<open>bitset_alloc\<close> reserves one byte per
  eight chunks, so whenever the number of chunks leaves a remainder of 1 to 56 modulo 64 the last
  word the bit operations touch lies partly outside the reserved bytes.\<close>

theorem bitset_alloc_short:
  fixes reso :: i32
  assumes "0 < unat (scast reso :: u64)" "unat sz + unat (scast reso :: u64) < 2 ^ 64" "unat sz < 2 ^ 60"
    and "n = chunk_count (unat sz) (unat (scast reso :: u64))" "0 < n mod 64" "n mod 64 \<le> 56"
  shows "unat (bitset_alloc_bytes sz reso) < 8 * ((n - 1) div 64 + 1)"
proof -
  define q m where "q = n div 64" and "m = n mod 64"
  then have n: "n = 64 * q + m" by simp
  have "(n - 1) div 64 = q"
    using assms(5,6) unfolding m_def [symmetric] by (intro div_nat_eqI) (simp_all add: n)
  moreover have "(n + 7) div 8 = 8 * q + (m + 7) div 8" unfolding n by simp
  moreover have "(m + 7) div 8 < 8" using assms(6) unfolding m_def [symmetric] by simp
  ultimately show ?thesis
    using bitset_alloc_bytes_eq [OF assms(1-3)] unfolding assms(4) [symmetric] by simp
qed

theorem bitset_alloc_short_witness: "unat (bitset_alloc_bytes 100000 4096) < 8"
proof -
  have "unat (bitset_alloc_bytes 100000 4096) < 8 * ((25 - 1) div 64 + 1)"
    by (rule bitset_alloc_short) (simp_all add: chunk_count_def)
  then show ?thesis by simp
qed

end
