(* ===== verification/Nbdtypes.thy ===== *)
theory Nbdtypes
  imports Flex_Prelude
begin

text \<open>
  The NBD wire types (\<^verbatim>\<open>src/src/common/nbdtypes.h\<close>, \<^verbatim>\<open>nbdtypes.c\<close>) and the hello
  helpers of \<^verbatim>\<open>src/src/common/readwrite.c\<close>.  A \<open>_raw\<close> record holds the words exactly as the C
  structure does: the big-endian fields are byte-swapped words of a little-endian host, and
  \<open>init_raw_bytes\<close>, \<open>request_raw_bytes\<close> and \<open>reply_raw_bytes\<close> lay the structures out in
  memory, which is what goes over the socket.  The round trips and the wire layout are proved
  from the byte-level lemmas on \<open>le_bytes\<close> and \<open>le_word\<close>.
\<close>

subsection \<open>Words in memory\<close>

primrec le_bytes :: "nat \<Rightarrow> 'a::len word \<Rightarrow> byte list" where
  "le_bytes 0 w = []"
| "le_bytes (Suc n) w = ucast w # le_bytes n (drop_bit 8 w)"

primrec le_word :: "byte list \<Rightarrow> 'a::len word" where
  "le_word [] = 0"
| "le_word (b # bs) = ucast b OR push_bit 8 (le_word bs)"

definition htobe16 :: "u16 \<Rightarrow> u16" where "htobe16 w = le_word (rev (le_bytes 2 w))"
definition htobe32 :: "u32 \<Rightarrow> u32" where "htobe32 w = le_word (rev (le_bytes 4 w))"
definition htobe64 :: "u64 \<Rightarrow> u64" where "htobe64 w = le_word (rev (le_bytes 8 w))"
definition be16toh :: "u16 \<Rightarrow> u16" where "be16toh w = le_word (rev (le_bytes 2 w))"
definition be32toh :: "u32 \<Rightarrow> u32" where "be32toh w = le_word (rev (le_bytes 4 w))"
definition be64toh :: "u64 \<Rightarrow> u64" where "be64toh w = le_word (rev (le_bytes 8 w))"

subsection \<open>Constants\<close>

definition INIT_PASSWD :: "byte list" where
  "INIT_PASSWD = [78, 66, 68, 77, 65, 71, 73, 67]"

definition INIT_MAGIC :: u64 where "INIT_MAGIC = 0x0000420281861253"
definition REQUEST_MAGIC :: u32 where "REQUEST_MAGIC = 0x25609513"
definition REPLY_MAGIC :: u32 where "REPLY_MAGIC = 0x67446698"

definition REQUEST_READ :: u16 where "REQUEST_READ = 0"
definition REQUEST_WRITE :: u16 where "REQUEST_WRITE = 1"
definition REQUEST_DISCONNECT :: u16 where "REQUEST_DISCONNECT = 2"
definition REQUEST_FLUSH :: u16 where "REQUEST_FLUSH = 3"

definition FLAG_HAS_FLAGS :: u32 where "FLAG_HAS_FLAGS = push_bit 0 1"
definition FLAG_SEND_FLUSH :: u32 where "FLAG_SEND_FLUSH = push_bit 2 1"
definition FLAG_SEND_FUA :: u32 where "FLAG_SEND_FUA = push_bit 3 1"

definition NBD_MAX_SIZE :: nat where "NBD_MAX_SIZE = 32 * 1024 * 1024"
definition NBD_REQUEST_SIZE :: nat where "NBD_REQUEST_SIZE = 28"
definition NBD_REPLY_SIZE :: nat where "NBD_REPLY_SIZE = 16"
definition NBD_INIT_SIZE :: nat where "NBD_INIT_SIZE = 152"

lemmas request_types = REQUEST_READ_def REQUEST_WRITE_def REQUEST_DISCONNECT_def REQUEST_FLUSH_def

subsection \<open>The structures\<close>

record nbd_init_raw =
  ir_passwd :: "byte list"
  ir_magic :: u64
  ir_size :: u64
  ir_flags :: u32
  ir_reserved :: "byte list"

record nbd_request_raw =
  rqr_magic :: u32
  rqr_flags :: u16
  rqr_type :: u16
  rqr_handle :: u64
  rqr_from :: u64
  rqr_len :: u32

record nbd_reply_raw =
  rpr_magic :: u32
  rpr_error :: u32
  rpr_handle :: u64

record nbd_init =
  i_passwd :: "byte list"
  i_magic :: u64
  i_size :: u64
  i_flags :: u32
  i_reserved :: "byte list"

record nbd_request =
  rq_magic :: u32
  rq_flags :: u16
  rq_type :: u16
  rq_handle :: u64
  rq_from :: u64
  rq_len :: u32

record nbd_reply =
  rp_magic :: u32
  rp_error :: u32
  rp_handle :: u64

definition init_raw_bytes :: "nbd_init_raw \<Rightarrow> byte list" where
  "init_raw_bytes r = ir_passwd r @ le_bytes 8 (ir_magic r) @ le_bytes 8 (ir_size r)
     @ le_bytes 4 (ir_flags r) @ ir_reserved r"

definition request_raw_bytes :: "nbd_request_raw \<Rightarrow> byte list" where
  "request_raw_bytes r = le_bytes 4 (rqr_magic r) @ le_bytes 2 (rqr_flags r)
     @ le_bytes 2 (rqr_type r) @ le_bytes 8 (rqr_handle r) @ le_bytes 8 (rqr_from r)
     @ le_bytes 4 (rqr_len r)"

definition reply_raw_bytes :: "nbd_reply_raw \<Rightarrow> byte list" where
  "reply_raw_bytes r = le_bytes 4 (rpr_magic r) @ le_bytes 4 (rpr_error r) @ le_bytes 8 (rpr_handle r)"

definition mem_slice :: "nat \<Rightarrow> nat \<Rightarrow> 'a list \<Rightarrow> 'a list" where
  "mem_slice i n xs = take n (drop i xs)"

definition init_raw_of :: "byte list \<Rightarrow> nbd_init_raw" where
  "init_raw_of m = \<lparr>ir_passwd = mem_slice 0 8 m, ir_magic = le_word (mem_slice 8 8 m),
     ir_size = le_word (mem_slice 16 8 m), ir_flags = le_word (mem_slice 24 4 m), ir_reserved = mem_slice 28 124 m\<rparr>"

definition request_raw_of :: "byte list \<Rightarrow> nbd_request_raw" where
  "request_raw_of m = \<lparr>rqr_magic = le_word (mem_slice 0 4 m), rqr_flags = le_word (mem_slice 4 2 m),
     rqr_type = le_word (mem_slice 6 2 m), rqr_handle = le_word (mem_slice 8 8 m),
     rqr_from = le_word (mem_slice 16 8 m), rqr_len = le_word (mem_slice 24 4 m)\<rparr>"

definition reply_raw_of :: "byte list \<Rightarrow> nbd_reply_raw" where
  "reply_raw_of m = \<lparr>rpr_magic = le_word (mem_slice 0 4 m), rpr_error = le_word (mem_slice 4 4 m),
     rpr_handle = le_word (mem_slice 8 8 m)\<rparr>"

subsection \<open>Conversions between wire and host format\<close>

definition nbd_r2h_init :: "nbd_init_raw \<Rightarrow> nbd_init \<Rightarrow> nbd_init" where
  "nbd_r2h_init from to = to\<lparr>i_passwd := take 8 (ir_passwd from), i_magic := be64toh (ir_magic from),
     i_size := be64toh (ir_size from), i_flags := be32toh (ir_flags from)\<rparr>"

definition nbd_h2r_init :: "nbd_init \<Rightarrow> nbd_init_raw \<Rightarrow> nbd_init_raw" where
  "nbd_h2r_init from to = to\<lparr>ir_passwd := take 8 (i_passwd from), ir_magic := htobe64 (i_magic from),
     ir_size := htobe64 (i_size from), ir_flags := htobe32 (i_flags from)\<rparr>"

definition nbd_r2h_request :: "nbd_request_raw \<Rightarrow> nbd_request" where
  "nbd_r2h_request from = \<lparr>rq_magic = be32toh (rqr_magic from), rq_flags = be16toh (rqr_flags from),
     rq_type = be16toh (rqr_type from), rq_handle = rqr_handle from,
     rq_from = be64toh (rqr_from from), rq_len = be32toh (rqr_len from)\<rparr>"

definition nbd_h2r_request :: "nbd_request \<Rightarrow> nbd_request_raw" where
  "nbd_h2r_request from = \<lparr>rqr_magic = htobe32 (rq_magic from), rqr_flags = htobe16 (rq_flags from),
     rqr_type = htobe16 (rq_type from), rqr_handle = rq_handle from,
     rqr_from = htobe64 (rq_from from), rqr_len = htobe32 (rq_len from)\<rparr>"

definition nbd_r2h_reply :: "nbd_reply_raw \<Rightarrow> nbd_reply" where
  "nbd_r2h_reply from = \<lparr>rp_magic = be32toh (rpr_magic from), rp_error = be32toh (rpr_error from),
     rp_handle = rpr_handle from\<rparr>"

definition nbd_h2r_reply :: "nbd_reply \<Rightarrow> nbd_reply_raw" where
  "nbd_h2r_reply from = \<lparr>rpr_magic = htobe32 (rp_magic from), rpr_error = htobe32 (rp_error from),
     rpr_handle = rp_handle from\<rparr>"

text \<open>A reply as it goes over the socket.\<close>

definition reply_bytes :: "u64 \<Rightarrow> int \<Rightarrow> byte list" where
  "reply_bytes handle error = reply_raw_bytes (nbd_h2r_reply
     \<lparr>rp_magic = REPLY_MAGIC, rp_error = word_of_int error, rp_handle = handle\<rparr>)"

subsection \<open>Hello and request construction\<close>

fun strncmp_eq :: "nat \<Rightarrow> byte list \<Rightarrow> byte list \<Rightarrow> bool" where
  "strncmp_eq 0 _ _ = True"
| "strncmp_eq (Suc n) (a # as) (b # bs) = (a = b \<and> (a = 0 \<or> strncmp_eq n as bs))"
| "strncmp_eq (Suc n) _ _ = False"

definition nbd_check_hello :: "nbd_init_raw \<Rightarrow> (u64 \<times> u32) option" where
  "nbd_check_hello init_raw =
     (if \<not> strncmp_eq 8 (ir_passwd init_raw) INIT_PASSWD then None
      else if be64toh (ir_magic init_raw) \<noteq> INIT_MAGIC then None
      else Some (be64toh (ir_size init_raw), be32toh (ir_flags init_raw)))"

definition zero_init_raw :: nbd_init_raw where
  "zero_init_raw = \<lparr>ir_passwd = replicate 8 0, ir_magic = 0, ir_size = 0, ir_flags = 0,
     ir_reserved = replicate 124 0\<rparr>"

definition nbd_hello_to_buf :: "byte list \<Rightarrow> u64 \<Rightarrow> u32 \<Rightarrow> nbd_init_raw" where
  "nbd_hello_to_buf stack out_size out_flags =
     (let init = \<lparr>i_passwd = INIT_PASSWD, i_magic = INIT_MAGIC, i_size = out_size,
                   i_flags = out_flags, i_reserved = stack\<rparr>
      in nbd_h2r_init init zero_init_raw)"

definition fill_request :: "u32 \<Rightarrow> u32 \<Rightarrow> u16 \<Rightarrow> u16 \<Rightarrow> u64 \<Rightarrow> u32 \<Rightarrow> nbd_request_raw" where
  "fill_request rand1 rand2 type flags from len =
     \<lparr>rqr_magic = htobe32 REQUEST_MAGIC, rqr_flags = htobe16 flags, rqr_type = htobe16 type,
      rqr_handle = push_bit 32 (ucast rand1) OR ucast rand2,
      rqr_from = htobe64 from, rqr_len = htobe32 len\<rparr>"

subsection \<open>Byte-level lemmas\<close>

lemma le_bytes_length [simp]: "length (le_bytes n w) = n"
  by (induction n arbitrary: w) simp_all

lemma le_word_le_bytes: "le_word (le_bytes n (w :: 'a::len word)) = take_bit (8 * n) w"
proof (induction n arbitrary: w)
  case (Suc n)
  show ?case
    by (rule bit_eqI)
      (auto simp: Suc bit_or_iff bit_push_bit_iff bit_take_bit_iff bit_drop_bit_eq bit_ucast_iff
        bit_unsigned_iff dest: bit_imp_le_length)
qed simp

lemma le_bytes_cong:
  fixes v w :: "'a::len word"
  assumes "take_bit (8 * n) v = take_bit (8 * n) w"
  shows "le_bytes n v = le_bytes n w"
  using assms
proof (induction n arbitrary: v w)
  case (Suc n)
  have *: "bit v i \<longleftrightarrow> bit w i" if "i < 8 + 8 * n" for i
  proof -
    from Suc.prems have "bit (take_bit (8 * Suc n) v) i = bit (take_bit (8 * Suc n) w) i"
      by (rule arg_cong)
    with that show ?thesis by (simp only: bit_take_bit_iff mult_Suc_right simp_thms)
  qed
  have "ucast v = (ucast w :: byte)"
    by (rule bit_eqI) (simp add: bit_ucast_iff bit_unsigned_iff *)
  moreover have "take_bit (8 * n) (drop_bit 8 v) = take_bit (8 * n) (drop_bit 8 w)"
    by (rule bit_eqI) (auto simp: bit_take_bit_iff bit_drop_bit_eq *)
  ultimately show ?case using Suc.IH [of "drop_bit 8 v" "drop_bit 8 w"] by (simp only: le_bytes.simps)
qed simp

lemma le_bytes_le_word:
  "8 * length bs \<le> LENGTH('a) \<Longrightarrow> le_bytes (length bs) (le_word bs :: 'a::len word) = bs"
proof (induction bs)
  case (Cons b bs)
  have "ucast (ucast b OR push_bit 8 (le_word bs) :: 'a word) = b"
    using Cons.prems
    by (intro bit_eqI) (auto simp: bit_ucast_iff bit_unsigned_iff bit_or_iff bit_push_bit_iff)
  moreover have "le_bytes (length bs) (drop_bit 8 (ucast b OR push_bit 8 (le_word bs) :: 'a word))
      = le_bytes (length bs) (le_word bs :: 'a word)"
    using Cons.prems
    by (intro le_bytes_cong bit_eqI) (auto simp: bit_take_bit_iff bit_drop_bit_eq bit_or_iff
        bit_push_bit_iff bit_ucast_iff bit_unsigned_iff dest: bit_imp_le_length)
  ultimately show ?case using Cons by simp
qed simp

lemma le_bytes_of_word [simp]:
  "length bs = n \<Longrightarrow> 8 * n \<le> LENGTH('a) \<Longrightarrow> le_bytes n (le_word bs :: 'a::len word) = bs"
  using le_bytes_le_word by blast

lemma le_word_full [simp]:
  "le_word (le_bytes 2 (x :: u16)) = x" "le_word (le_bytes 4 (y :: u32)) = y"
  "le_word (le_bytes 8 (z :: u64)) = z"
  by (simp_all add: le_word_le_bytes take_bit_length_eq [where 'a = 16, simplified]
      take_bit_length_eq [where 'a = 32, simplified] take_bit_length_eq [where 'a = 64, simplified])

text \<open>On the wire a converted field is the big-endian byte string of the host value.\<close>

lemma be_bytes [simp]:
  "le_bytes 2 (htobe16 x) = rev (le_bytes 2 x)" "le_bytes 4 (htobe32 y) = rev (le_bytes 4 y)"
  "le_bytes 8 (htobe64 z) = rev (le_bytes 8 z)"
  by (simp_all add: htobe16_def htobe32_def htobe64_def)

lemma beNtoh_htobeN [simp]:
  "be16toh (htobe16 x) = x" "be32toh (htobe32 y) = y" "be64toh (htobe64 z) = z"
  by (simp_all add: be16toh_def be32toh_def be64toh_def)

lemma htobeN_beNtoh [simp]:
  "htobe16 (be16toh x) = x" "htobe32 (be32toh y) = y" "htobe64 (be64toh z) = z"
  by (simp_all add: htobe16_def htobe32_def htobe64_def be16toh_def be32toh_def be64toh_def)

lemma be64toh_eq_iff: "be64toh w = c \<longleftrightarrow> le_bytes 8 w = rev (le_bytes 8 c)"
proof -
  have "le_bytes 8 w = rev (le_bytes 8 (be64toh w))" by (simp add: be64toh_def)
  then show ?thesis by (metis le_word_full(3) rev_rev_ident)
qed

lemma mem_slice_append [simp]:
  "length xs \<le> i \<Longrightarrow> mem_slice i n (xs @ ys) = mem_slice (i - length xs) n ys"
  "n = length xs \<Longrightarrow> mem_slice 0 n (xs @ ys) = xs"
  "n = length xs \<Longrightarrow> mem_slice 0 n xs = xs"
  by (simp_all add: mem_slice_def)

lemma mem_slice_length [simp]: "i + n \<le> length xs \<Longrightarrow> length (mem_slice i n xs) = n"
  by (simp add: mem_slice_def)

lemma mem_slice_join: "mem_slice i n xs @ mem_slice (i + n) m xs = mem_slice i (n + m) xs"
  by (simp add: mem_slice_def take_add add.commute [of i n])

lemma mem_slice_drop: "j = i + n \<Longrightarrow> mem_slice i n xs @ drop j xs = drop i xs"
  by (metis add.commute append_take_drop_id drop_drop mem_slice_def)

lemma mem_slice_end: "length xs = i + n \<Longrightarrow> mem_slice i n xs = drop i xs"
  by (simp add: mem_slice_def)

lemma raw_lengths [simp]:
  "length (request_raw_bytes rq) = NBD_REQUEST_SIZE"
  "length (reply_raw_bytes rp) = NBD_REPLY_SIZE"
  "length (ir_passwd i) = 8 \<Longrightarrow> length (ir_reserved i) = 124 \<Longrightarrow> length (init_raw_bytes i) = NBD_INIT_SIZE"
  by (simp_all add: request_raw_bytes_def reply_raw_bytes_def init_raw_bytes_def
      NBD_REQUEST_SIZE_def NBD_REPLY_SIZE_def NBD_INIT_SIZE_def)

lemma length_reply_bytes [simp]: "length (reply_bytes h e) = NBD_REPLY_SIZE"
  by (simp add: reply_bytes_def)

lemma request_raw_of_bytes [simp]: "request_raw_of (request_raw_bytes r) = r"
  by (simp add: request_raw_of_def request_raw_bytes_def)

lemma reply_raw_of_bytes [simp]: "reply_raw_of (reply_raw_bytes r) = r"
  by (simp add: reply_raw_of_def reply_raw_bytes_def)

lemma init_raw_of_bytes [simp]:
  "length (ir_passwd r) = 8 \<Longrightarrow> length (ir_reserved r) = 124 \<Longrightarrow> init_raw_of (init_raw_bytes r) = r"
  by (simp add: init_raw_of_def init_raw_bytes_def)

lemma request_raw_bytes_of: "length m = NBD_REQUEST_SIZE \<Longrightarrow> request_raw_bytes (request_raw_of m) = m"
  by (simp add: request_raw_of_def request_raw_bytes_def NBD_REQUEST_SIZE_def
      mem_slice_end [of m 24] mem_slice_drop)

lemma reply_raw_bytes_of: "length m = NBD_REPLY_SIZE \<Longrightarrow> reply_raw_bytes (reply_raw_of m) = m"
  by (simp add: reply_raw_of_def reply_raw_bytes_def NBD_REPLY_SIZE_def
      mem_slice_end [of m 8] mem_slice_drop)

lemma nbd_r2h_h2r [simp]:
  "nbd_r2h_request (nbd_h2r_request rq) = rq" "nbd_r2h_reply (nbd_h2r_reply rp) = rp"
  by (simp_all add: nbd_r2h_request_def nbd_h2r_request_def nbd_r2h_reply_def nbd_h2r_reply_def)

lemma nbd_h2r_r2h [simp]: "nbd_h2r_request (nbd_r2h_request raw) = raw"
  by (simp add: nbd_r2h_request_def nbd_h2r_request_def)

lemma strncmp_eq_no_nul:
  "length a = n \<Longrightarrow> length b = n \<Longrightarrow> 0 \<notin> set b \<Longrightarrow> strncmp_eq n a b \<longleftrightarrow> a = b"
  by (induction n a b rule: strncmp_eq.induct) auto

lemma nbd_check_hello_iff:
  assumes "length m = NBD_INIT_SIZE"
  shows "nbd_check_hello (init_raw_of m) =
    (if take 16 m = INIT_PASSWD @ rev (le_bytes 8 INIT_MAGIC)
     then Some (le_word (rev (mem_slice 16 8 m)), le_word (rev (mem_slice 24 4 m))) else None)"
proof -
  have len: "length m = 152" using assms by (simp add: NBD_INIT_SIZE_def)
  have t: "take 16 m = mem_slice 0 8 m @ mem_slice 8 8 m"
    using mem_slice_join [of 0 8 m 8] by (simp add: mem_slice_def)
  have "strncmp_eq 8 (mem_slice 0 8 m) INIT_PASSWD \<longleftrightarrow> mem_slice 0 8 m = INIT_PASSWD"
    using len by (intro strncmp_eq_no_nul) (simp_all add: INIT_PASSWD_def)
  moreover have "be64toh (le_word (mem_slice 8 8 m)) = INIT_MAGIC \<longleftrightarrow> mem_slice 8 8 m = rev (le_bytes 8 INIT_MAGIC)"
    using len by (simp add: be64toh_eq_iff)
  moreover have "length (mem_slice 0 8 m) = length INIT_PASSWD" using len by (simp add: INIT_PASSWD_def)
  ultimately show ?thesis
    using len unfolding t by (simp add: nbd_check_hello_def init_raw_of_def be64toh_def be32toh_def)
qed

lemma nbd_hello_to_buf_shape [simp]:
  "length (ir_passwd (nbd_hello_to_buf st sz fl)) = 8" "length (ir_reserved (nbd_hello_to_buf st sz fl)) = 124"
  by (simp_all add: nbd_hello_to_buf_def nbd_h2r_init_def zero_init_raw_def INIT_PASSWD_def Let_def)

lemma nbd_check_hello_to_buf [simp]: "nbd_check_hello (nbd_hello_to_buf st sz fl) = Some (sz, fl)"
  by (simp add: nbd_check_hello_def nbd_hello_to_buf_def nbd_h2r_init_def zero_init_raw_def Let_def
      INIT_PASSWD_def eval_nat_numeral)

lemma fill_request_host [simp]:
  "nbd_r2h_request (fill_request r1 r2 type flags from len) =
     \<lparr>rq_magic = REQUEST_MAGIC, rq_flags = flags, rq_type = type,
      rq_handle = push_bit 32 (ucast r1) OR ucast r2, rq_from = from, rq_len = len\<rparr>"
  by (simp add: fill_request_def nbd_r2h_request_def)

subsection \<open>Properties\<close>

text \<open>C35: a request and a reply survive the trip over the wire, and the bytes on the wire are the
  fields in the protocol's order, big-endian, with the opaque handle passed through unchanged: 28
  bytes for a request and 16 for a reply.\<close>

theorem nbd_wire_format:
  "nbd_r2h_request (request_raw_of (request_raw_bytes (nbd_h2r_request rq))) = rq
   \<and> nbd_r2h_reply (reply_raw_of (reply_raw_bytes (nbd_h2r_reply rp))) = rp
   \<and> request_raw_bytes (nbd_h2r_request rq) =
       rev (le_bytes 4 (rq_magic rq)) @ rev (le_bytes 2 (rq_flags rq)) @ rev (le_bytes 2 (rq_type rq))
       @ le_bytes 8 (rq_handle rq) @ rev (le_bytes 8 (rq_from rq)) @ rev (le_bytes 4 (rq_len rq))
   \<and> reply_raw_bytes (nbd_h2r_reply rp) =
       rev (le_bytes 4 (rp_magic rp)) @ rev (le_bytes 4 (rp_error rp)) @ le_bytes 8 (rp_handle rp)
   \<and> length (request_raw_bytes (nbd_h2r_request rq)) = 28
   \<and> length (reply_raw_bytes (nbd_h2r_reply rp)) = 16"
  by (simp add: NBD_REQUEST_SIZE_def NBD_REPLY_SIZE_def)
     (simp add: request_raw_bytes_def reply_raw_bytes_def nbd_h2r_request_def nbd_h2r_reply_def)

text \<open>\<open>nbd_check_hello\<close> accepts a 152-byte greeting exactly when it starts with the password and
  the big-endian magic, and then reports the big-endian size and flags; in particular it accepts
  every greeting \<open>nbd_hello_to_buf\<close> builds and reads back its size and flags.\<close>

theorem nbd_check_hello_exact:
  assumes "length m = NBD_INIT_SIZE"
  shows "nbd_check_hello (init_raw_of m) =
      (if take 16 m = INIT_PASSWD @ rev (le_bytes 8 INIT_MAGIC)
       then Some (le_word (rev (mem_slice 16 8 m)), le_word (rev (mem_slice 24 4 m))) else None)
    \<and> nbd_check_hello (init_raw_of (init_raw_bytes (nbd_hello_to_buf stack sz flags))) = Some (sz, flags)"
  using nbd_check_hello_iff [OF assms] by simp

theorem nbd_check_hello_exact_witness:
  "nbd_check_hello (init_raw_of (init_raw_bytes (nbd_hello_to_buf [] 1024 13))) = Some (1024, 13)"
  using nbd_check_hello_exact [of "init_raw_bytes (nbd_hello_to_buf [] 1024 13)" "[]" 1024 13]
  by simp

end
