(* ===== verification/Ioutil.thy ===== *)
theory Ioutil
  imports Bitset Nbdtypes
begin

text \<open>
  The I/O helpers of \<^verbatim>\<open>src/src/common/ioutil.c\<close>.  A descriptor that is read from is the list of
  results its \<^verbatim>\<open>read(2)\<close> calls will have: \<open>Avail bs\<close> when \<open>bs\<close> is available, \<open>RdFail e\<close>
  for a call that fails with errno \<open>e\<close>, and end-of-file when the list is exhausted.  A descriptor
  that is written to is the list of \<open>Accept n\<close> (a partial write) and \<open>WrFail e\<close> results;
  afterwards it accepts everything.  The loops are total functions except where the C loop can
  spin for ever (\<open>sendfileloop\<close>, \<open>spliceloop\<close>, \<open>splice_via_pipe_loop\<close>,
  \<open>build_allocation_map\<close>), which are \<open>partial_function\<close>s with value \<open>None\<close> for a loop that does
  not return.
\<close>

subsection \<open>System calls\<close>

definition EINTR :: int where "EINTR = 4"
definition EBADF :: int where "EBADF = 9"
definition EAGAIN :: int where "EAGAIN = 11"
definition EINVAL :: int where "EINVAL = 22"
definition ENOSPC :: int where "ENOSPC = 28"
definition EPIPE :: int where "EPIPE = 32"
definition EBADMSG :: int where "EBADMSG = 74"
definition ECONNRESET :: int where "ECONNRESET = 104"
definition ETIMEDOUT :: int where "ETIMEDOUT = 110"

lemmas errno_defs = EINTR_def EBADF_def EAGAIN_def EINVAL_def ENOSPC_def EPIPE_def EBADMSG_def
  ECONNRESET_def ETIMEDOUT_def

datatype rd = Avail "byte list" | RdFail int

datatype wr = Accept nat | WrFail int

datatype io_end = IoDone | IoEof | IoErr int

fun sys_read :: "nat \<Rightarrow> rd list \<Rightarrow> (int + byte list) \<times> rd list" where
  "sys_read n [] = (Inr [], [])"
| "sys_read n (Avail bs # es) =
     (if length bs \<le> n then (Inr bs, es) else (Inr (take n bs), Avail (drop n bs) # es))"
| "sys_read n (RdFail e # es) = (Inl e, es)"

fun sys_write :: "nat \<Rightarrow> wr list \<Rightarrow> (int + nat) \<times> wr list" where
  "sys_write n [] = (Inr n, [])"
| "sys_write n (Accept k # es) = (Inr (min k n), es)"
| "sys_write n (WrFail e # es) = (Inl e, es)"

definition io_errno_permanent :: "int \<Rightarrow> bool" where
  "io_errno_permanent errno \<longleftrightarrow> errno \<noteq> EAGAIN \<and> errno \<noteq> EINTR"

subsection \<open>Whole-buffer reads and writes\<close>

lemma sys_read_length: "sys_read n es = (Inr bs, es') \<Longrightarrow> length bs \<le> n \<and> length es' \<le> length es"
  by (cases "(n, es)" rule: sys_read.cases) (auto split: if_splits)

lemma sys_read_fail: "sys_read n es = (Inl e, es') \<Longrightarrow> es = RdFail e # es'"
  by (cases "(n, es)" rule: sys_read.cases) (auto split: if_splits)

lemma sys_write_fail: "sys_write n es = (Inl e, es') \<Longrightarrow> es = WrFail e # es'"
  by (cases "(n, es)" rule: sys_write.cases) auto

lemma sys_write_accept:
  "sys_write n es = (Inr k, es') \<Longrightarrow> k \<le> n \<and> (es = [] \<and> es' = [] \<and> k = n \<or> length es = Suc (length es'))"
  by (cases "(n, es)" rule: sys_write.cases) auto

function writeloop :: "byte list \<Rightarrow> wr list \<Rightarrow> byte list \<times> io_end \<times> wr list" where
  "writeloop buffer es =
     (if buffer = [] then ([], IoDone, es)
      else case sys_write (length buffer) es of
          (Inl errno, es') \<Rightarrow>
            if errno = EINTR \<or> errno = EAGAIN then writeloop buffer es' else ([], IoErr errno, es')
        | (Inr k, es') \<Rightarrow>
            (case writeloop (drop k buffer) es' of (w, r, es'') \<Rightarrow> (take k buffer @ w, r, es'')))"
  by pat_completeness auto
termination
  by (relation "measure (\<lambda>(b, es). length b + length es)")
    (auto dest!: sym [of "(Inl _, _)"] sym [of "(Inr _, _)"] sys_write_fail sys_write_accept)

declare writeloop.simps [simp del]

function readloop :: "nat \<Rightarrow> rd list \<Rightarrow> byte list \<times> io_end \<times> rd list" where
  "readloop sz es =
     (if sz = 0 then ([], IoDone, es)
      else case sys_read sz es of
          (Inl errno, es') \<Rightarrow>
            if errno = EINTR \<or> errno = EAGAIN then readloop sz es' else ([], IoErr errno, es')
        | (Inr bs, es') \<Rightarrow>
            if bs = [] then ([], IoEof, es')
            else (case readloop (sz - length bs) es' of (r, st, es'') \<Rightarrow> (bs @ r, st, es'')))"
  by pat_completeness auto
termination
proof (relation "measure (\<lambda>(n, es). n + length es)", goal_cases)
  case 3
  then show ?case
    by (auto dest!: sym [of "(Inr _, _)"] sys_read_length simp: neq_Nil_conv)
qed (auto dest!: sym [of "(Inl _, _)"] sys_read_fail)

declare readloop.simps [simp del]

subsection \<open>Line input\<close>

fun mem_write :: "nat \<Rightarrow> byte list \<Rightarrow> byte list \<Rightarrow> byte list option" where
  "mem_write at bs m =
     (if at + length bs \<le> length m then Some (take at m @ bs @ drop (at + length bs) m) else None)"

function read_until_newline_at ::
  "nat \<Rightarrow> nat \<Rightarrow> byte list \<Rightarrow> rd list \<Rightarrow> (int \<times> byte list \<times> rd list) option"
where
  "read_until_newline_at cur bufsize buf es =
     (if cur < bufsize then
        (case sys_read 1 es of
           (Inr [b], es') \<Rightarrow>
             if length buf \<le> cur then None
             else if b = 10 then Some (int cur + 1, buf[cur := 0], es')
             else read_until_newline_at (cur + 1) bufsize (buf[cur := b]) es'
         | (_, es') \<Rightarrow> Some (-1, buf, es'))
      else Some (int cur + 1, buf, es))"
  by pat_completeness auto
termination by (relation "measure (\<lambda>(cur, bufsize, buf, es). bufsize - cur)") auto

declare read_until_newline_at.simps [simp del]

definition read_until_newline :: "byte list \<Rightarrow> nat \<Rightarrow> rd list \<Rightarrow> (int \<times> byte list \<times> rd list) option" where
  "read_until_newline buf bufsize es = read_until_newline_at 0 bufsize buf es"

definition c_string :: "byte list \<Rightarrow> byte list" where
  "c_string m = takeWhile (\<lambda>b. b \<noteq> 0) m"

fun rd_size :: "rd \<Rightarrow> nat" where
  "rd_size (Avail bs) = Suc (length bs)"
| "rd_size (RdFail e) = 1"

definition rds_size :: "rd list \<Rightarrow> nat" where
  "rds_size es = sum_list (map rd_size es)"

lemma rds_size_simps [simp]:
  "rds_size [] = 0" "rds_size (e # es) = rd_size e + rds_size es"
  by (simp_all add: rds_size_def)

lemma sys_read_size: "sys_read 1 es = (r, es') \<Longrightarrow> r \<noteq> Inr [] \<Longrightarrow> rds_size es' < rds_size es"
  by (cases "(1::nat, es)" rule: sys_read.cases) (auto split: if_splits)

lemma sys_read_size_le: "sys_read 1 es = (r, es') \<Longrightarrow> rds_size es' \<le> rds_size es"
  by (cases "(1::nat, es)" rule: sys_read.cases) (auto split: if_splits)

lemma read_until_newline_at_step:
  "sys_read 1 es = (Inr [b], es') \<Longrightarrow> cur < bufsize \<Longrightarrow> cur < length buf \<Longrightarrow> b \<noteq> 10 \<Longrightarrow>
     read_until_newline_at cur bufsize buf es
       = read_until_newline_at (cur + 1) bufsize (buf[cur := b]) es'"
  "sys_read 1 es = (Inr [b], es') \<Longrightarrow> cur < bufsize \<Longrightarrow> cur < length buf \<Longrightarrow> b = 10 \<Longrightarrow>
     read_until_newline_at cur bufsize buf es = Some (int cur + 1, buf[cur := 0], es')"
  "\<not> cur < bufsize \<Longrightarrow> read_until_newline_at cur bufsize buf es = Some (int cur + 1, buf, es)"
  by (subst read_until_newline_at.simps; simp)+

lemma read_until_newline_at_size:
  "read_until_newline_at cur bufsize buf es = Some (n, buf', es') \<Longrightarrow> rds_size es' \<le> rds_size es"
proof (induction cur bufsize buf es rule: read_until_newline_at.induct)
  case (1 cur bufsize buf es)
  obtain r es1 where s: "sys_read 1 es = (r, es1)" by (cases "sys_read 1 es")
  show ?case
  proof (cases "\<exists>b. cur < bufsize \<and> r = Inr [b] \<and> b \<noteq> 10 \<and> cur < length buf")
    case True
    then obtain b where b: "cur < bufsize" "r = Inr [b]" "b \<noteq> 10" "cur < length buf" by blast
    with 1 s have "rds_size es' \<le> rds_size es1" by (auto simp: read_until_newline_at_step(1))
    with sys_read_size_le [OF s] show ?thesis by simp
  next
    case False
    with 1(2) s sys_read_size_le [OF s] show ?thesis
      by (subst (asm) read_until_newline_at.simps) (auto split: if_splits sum.splits list.splits)
  qed
qed

lemma read_until_newline_size:
  assumes "read_until_newline buf bufsize es = Some (n, buf', es')" "1 < n"
  shows "rds_size es' < rds_size es"
proof -
  obtain r es1 where s: "sys_read 1 es = (r, es1)" by (cases "sys_read 1 es")
  from assms have "r \<noteq> Inr []" "read_until_newline_at 1 bufsize (buf[0 := hd (projr r)]) es1 = Some (n, buf', es')"
    unfolding read_until_newline_def
    by (auto simp: s [simplified] read_until_newline_at.simps [of 0] split: if_splits sum.splits list.splits)
  with read_until_newline_at_size sys_read_size [OF s] show ?thesis by (metis order_le_less_trans)
qed

function read_lines ::
  "nat \<Rightarrow> byte list \<Rightarrow> byte list list \<Rightarrow> rd list \<Rightarrow> (byte list list \<times> rd list) option"
where
  "read_lines max_line_length line lines es =
     (case read_until_newline line max_line_length es of
        None \<Rightarrow> None
      | Some (readden, line', es') \<Rightarrow>
          if readden \<le> 1 then Some (lines, es')
          else if c_string line' = [] then Some (lines, es')
          else read_lines max_line_length line' (lines @ [c_string line']) es')"
  by pat_completeness auto
termination
  by (relation "measure (\<lambda>(mx, line, lines, es). rds_size es)")
    (auto dest!: sym [of "Some (_, _, _)"] read_until_newline_size)

declare read_lines.simps [simp del]

definition read_lines_until_blankline :: "nat \<Rightarrow> rd list \<Rightarrow> (byte list list \<times> rd list) option" where
  "read_lines_until_blankline max_line_length es =
     read_lines max_line_length (replicate (max_line_length + 1) 0) [] es"

subsection \<open>Copying between descriptors\<close>

partial_function (option) sendfileloop ::
  "wr list \<Rightarrow> byte list \<Rightarrow> nat \<Rightarrow> nat \<Rightarrow> nat \<Rightarrow> byte list \<Rightarrow> (byte list \<times> io_end \<times> wr list) option"
where
  "sendfileloop es file offset sent count out =
     (if sent < count then
        (case sys_write (min (count - sent) (length file - offset)) es of
           (Inl errno, es') \<Rightarrow> Some (out, IoErr errno, es')
         | (Inr k, es') \<Rightarrow>
             sendfileloop es' file (offset + k) (sent + k) count (out @ mem_slice offset k file))
      else Some (out, IoDone, es))"

partial_function (option) spliceloop ::
  "bool \<Rightarrow> rd list \<Rightarrow> nat \<Rightarrow> nat \<Rightarrow> byte list \<Rightarrow> (byte list \<times> int \<times> rd list) option"
where
  "spliceloop nonblock es spliced len moved =
     (if spliced < len then
        (case sys_read len es of
           (Inl errno, es') \<Rightarrow>
             if errno = EAGAIN \<and> nonblock then Some (moved, int spliced, es')
             else Some (moved, -1, es')
         | (Inr bs, es') \<Rightarrow> spliceloop nonblock es' (spliced + length bs) len (moved @ bs))
      else Some (moved, int spliced, es))"

partial_function (option) splice_via_pipe_loop ::
  "rd list \<Rightarrow> nat \<Rightarrow> nat \<Rightarrow> byte list \<Rightarrow> (byte list \<times> int \<times> rd list) option"
where
  "splice_via_pipe_loop es spliced len out =
     (if spliced < len then
        (case spliceloop True es 0 (len - spliced) [] of
           None \<Rightarrow> None
         | Some (pipe, s1, es') \<Rightarrow>
             if s1 < 0 then Some (out, -1, es')
             else (case spliceloop False [Avail pipe] 0 (nat s1) [] of
                     None \<Rightarrow> None
                   | Some (bs, s2, _) \<Rightarrow>
                       if s2 < 0 then Some (out @ bs, -1, es')
                       else splice_via_pipe_loop es' (spliced + nat s2) len (out @ bs)))
      else Some (out, 0, es))"

subsection \<open>Buffers of a non-blocking connection\<close>

record iobuf =
  buf :: "byte list"
  iob_size :: nat
  needle :: nat

definition size_t_minus :: "nat \<Rightarrow> nat \<Rightarrow> nat" where
  "size_t_minus a b = (if b \<le> a then a - b else 2 ^ 64 + a - b)"

definition iobuf_read ::
  "rd list \<Rightarrow> int \<Rightarrow> iobuf \<Rightarrow> nat \<Rightarrow> (int \<times> int \<times> iobuf \<times> rd list) option"
where
  "iobuf_read es errno iob default_size =
     (let iob = (if needle iob = 0 then iob\<lparr>iob_size := default_size\<rparr> else iob);
          left = size_t_minus (iob_size iob) (needle iob)
      in case sys_read left es of
           (Inr bs, es') \<Rightarrow>
             if bs = [] then Some (-1, 0, iob, es')
             else (case mem_write (needle iob) bs (buf iob) of
                     None \<Rightarrow> None
                   | Some m \<Rightarrow> Some (int (length bs), errno,
                                iob\<lparr>buf := m, needle := needle iob + length bs\<rparr>, es'))
         | (Inl e, es') \<Rightarrow>
             if io_errno_permanent e then Some (-1, e, iob, es') else Some (0, e, iob, es'))"

definition iobuf_write ::
  "wr list \<Rightarrow> int \<Rightarrow> iobuf \<Rightarrow> (int \<times> int \<times> iobuf \<times> byte list \<times> wr list) option"
where
  "iobuf_write es errno iob =
     (let left = size_t_minus (iob_size iob) (needle iob)
      in case sys_write left es of
           (Inr k, es') \<Rightarrow>
             if needle iob + k \<le> length (buf iob)
             then Some (int k, errno, iob\<lparr>needle := needle iob + k\<rparr>, mem_slice (needle iob) k (buf iob), es')
             else None
         | (Inl e, es') \<Rightarrow>
             if io_errno_permanent e then Some (-1, e, iob, [], es') else Some (0, e, iob, [], es'))"

subsection \<open>The allocation map and the mapped file\<close>

type_synonym fiemap = "u64 \<Rightarrow> u64 \<Rightarrow> (u64 \<times> u64) list option"

fun set_extents :: "bitset \<Rightarrow> (u64 \<times> u64) list \<Rightarrow> bitset cresult" where
  "set_extents allocation_map [] = Done allocation_map"
| "set_extents allocation_map ((fe_logical, fe_length) # exts) =
     (case bitset_set_range allocation_map fe_logical fe_length of
        Done bs \<Rightarrow> set_extents bs exts
      | r \<Rightarrow> r)"

definition fm_length :: "u64 \<Rightarrow> u64 \<Rightarrow> u64" where
  "fm_length sz offset =
     (let max_length = 100 * 1024 * 1024 in if offset + max_length > sz then sz - offset else max_length)"

definition next_offset :: "(u64 \<times> u64) list \<Rightarrow> u64 \<Rightarrow> u64 \<Rightarrow> u64" where
  "next_offset exts offset len =
     (if exts \<noteq> [] then fst (last exts) + snd (last exts) else offset + len)"

partial_function (option) build_allocation_map_from ::
  "fiemap \<Rightarrow> u64 \<Rightarrow> bitset \<Rightarrow> (int \<times> bitset) cresult option"
where
  "build_allocation_map_from ioctl offset allocation_map =
     (if offset < bs_size allocation_map then
        (case ioctl offset (fm_length (bs_size allocation_map) offset) of
           None \<Rightarrow> Some (Done (0, allocation_map))
         | Some exts \<Rightarrow>
             (case set_extents allocation_map exts of
                Done bs \<Rightarrow> build_allocation_map_from ioctl
                   (next_offset exts offset (fm_length (bs_size allocation_map) offset)) bs
              | Blocked bs \<Rightarrow> Some (Blocked (0, bs))
              | OutOfBounds \<Rightarrow> Some OutOfBounds))
      else Some (Done (1, allocation_map)))"

definition build_allocation_map :: "fiemap \<Rightarrow> bitset \<Rightarrow> (int \<times> bitset) cresult option" where
  "build_allocation_map ioctl allocation_map = build_allocation_map_from ioctl 0 allocation_map"

definition open_and_mmap :: "int \<Rightarrow> int \<Rightarrow> (int \<Rightarrow> bool) \<Rightarrow> int \<times> u64 option \<times> bool" where
  "open_and_mmap open_result lseek_result mmap_succeeds =
     (if open_result < 1 then (open_result, None, False)
      else if lseek_result < 0 then (lseek_result, None, False)
      else (let sz = (if lseek_result \<noteq> lseek_result AND NOT 0x1ff
                      then lseek_result AND NOT 0x1ff else lseek_result)
            in if mmap_succeeds sz then (0, Some (word_of_int sz), True)
               else (-1, Some (word_of_int sz), False)))"

subsection \<open>What the loops deliver\<close>

fun rd_data :: "rd list \<Rightarrow> byte list" where
  "rd_data [] = []"
| "rd_data (Avail bs # es) = (if bs = [] then [] else bs @ rd_data es)"
| "rd_data (RdFail e # es) = (if io_errno_permanent e then [] else rd_data es)"

fun rd_stop :: "rd list \<Rightarrow> io_end" where
  "rd_stop [] = IoEof"
| "rd_stop (Avail bs # es) = (if bs = [] then IoEof else rd_stop es)"
| "rd_stop (RdFail e # es) = (if io_errno_permanent e then IoErr e else rd_stop es)"

lemma sys_read_data:
  assumes "sys_read n es = (Inr bs, es')" "bs \<noteq> []"
  shows "rd_data es = bs @ rd_data es'" "rd_stop es' = rd_stop es"
  using assms by (cases "(n, es)" rule: sys_read.cases; auto split: if_splits)+

lemma sys_read_eof:
  assumes "sys_read n es = (Inr [], es')" "0 < n"
  shows "rd_data es = []" "rd_stop es = IoEof"
  using assms by (cases "(n, es)" rule: sys_read.cases; auto split: if_splits)+

lemma readloop_spec:
  "readloop n es = (bs, r, es') \<Longrightarrow>
     bs = take n (rd_data es)
     \<and> (if n \<le> length (rd_data es)
        then r = IoDone \<and> rd_data es' = drop n (rd_data es) \<and> rd_stop es' = rd_stop es
        else r = rd_stop es)"
proof (induction n es arbitrary: bs r es' rule: readloop.induct)
  case (1 n es)
  show ?case
  proof (cases "n = 0")
    case True
    with 1(3) show ?thesis by (simp add: readloop.simps)
  next
    case n: False
    obtain x es1 where x: "sys_read n es = (x, es1)" by (cases "sys_read n es")
    show ?thesis
    proof (cases x)
      case (Inl e)
      with x have es: "es = RdFail e # es1" by (auto dest: sys_read_fail)
      show ?thesis
      proof (cases "e = EINTR \<or> e = EAGAIN")
        case True
        moreover from this have "readloop n es1 = (bs, r, es')"
          using 1(3) n x Inl by (subst (asm) readloop.simps) auto
        ultimately have "bs = take n (rd_data es1)
           \<and> (if n \<le> length (rd_data es1)
              then r = IoDone \<and> rd_data es' = drop n (rd_data es1) \<and> rd_stop es' = rd_stop es1
              else r = rd_stop es1)"
          using 1(1) [OF n x [symmetric] Inl] by blast
        with True es show ?thesis by (auto simp: io_errno_permanent_def)
      next
        case False
        with 1(3) n x Inl es show ?thesis
          by (subst (asm) readloop.simps) (auto simp: io_errno_permanent_def)
      qed
    next
      case (Inr cs)
      show ?thesis
      proof (cases "cs = []")
        case True
        with 1(3) n x Inr sys_read_eof [of n es es1] show ?thesis
          by (subst (asm) readloop.simps) auto
      next
        case cs: False
        obtain bs1 r1 es2 where rec: "readloop (n - length cs) es1 = (bs1, r1, es2)"
          by (cases "readloop (n - length cs) es1")
        with 1(3) n x Inr cs have eq: "bs = cs @ bs1" "r = r1" "es' = es2"
          by (subst (asm) readloop.simps; auto)+
        have "length cs \<le> n" using x Inr by (auto dest: sys_read_length)
        with 1(2) [OF n x [symmetric] Inr cs rec] sys_read_data [OF x [unfolded Inr] cs] eq
        show ?thesis by (auto split: if_splits)
      qed
    qed
  qed
qed

lemma readloop_ok:
  assumes "n \<le> length (rd_data es)"
  shows "\<exists>es'. readloop n es = (take n (rd_data es), IoDone, es')
           \<and> rd_data es' = drop n (rd_data es) \<and> rd_stop es' = rd_stop es"
  using assms by (cases "readloop n es") (auto dest!: readloop_spec)

lemma readloop_short:
  assumes "length (rd_data es) < n"
  shows "\<exists>es'. readloop n es = (rd_data es, rd_stop es, es')"
  using assms by (cases "readloop n es") (auto dest!: readloop_spec)

lemma writeloop_step:
  "b \<noteq> [] \<Longrightarrow> sys_write (length b) es = (Inl e, es1) \<Longrightarrow>
     writeloop b es = (if e = EINTR \<or> e = EAGAIN then writeloop b es1 else ([], IoErr e, es1))"
  "b \<noteq> [] \<Longrightarrow> sys_write (length b) es = (Inr k, es1) \<Longrightarrow>
     writeloop b es = (case writeloop (drop k b) es1 of (w, r, es'') \<Rightarrow> (take k b @ w, r, es''))"
  by (subst writeloop.simps; simp)+

lemma writeloop_spec:
  "writeloop b es = (w, r, es') \<Longrightarrow>
     (\<exists>v. b = w @ v) \<and> set es' \<subseteq> set es
     \<and> (r = IoDone \<and> w = b \<or> (\<exists>e. r = IoErr e \<and> io_errno_permanent e \<and> WrFail e \<in> set es))"
proof (induction b es arbitrary: w r es' rule: writeloop.induct)
  case (1 b es)
  show ?case
  proof (cases "b = []")
    case True
    with 1(3) show ?thesis by (simp add: writeloop.simps)
  next
    case b: False
    obtain x es1 where x: "sys_write (length b) es = (x, es1)" by (cases "sys_write (length b) es")
    show ?thesis
    proof (cases x)
      case (Inl e)
      with x have es: "es = WrFail e # es1" by (auto dest: sys_write_fail)
      show ?thesis
      proof (cases "e = EINTR \<or> e = EAGAIN")
        case True
        with 1(3) b x Inl have "writeloop b es1 = (w, r, es')" by (simp add: writeloop_step)
        from 1(1) [OF b x [symmetric] Inl True this] es show ?thesis by auto
      next
        case False
        with 1(3) b x Inl es show ?thesis by (auto simp: writeloop_step io_errno_permanent_def)
      qed
    next
      case (Inr k)
      obtain w1 r1 es2 where rec: "writeloop (drop k b) es1 = (w1, r1, es2)"
        by (cases "writeloop (drop k b) es1")
      with 1(3) b x Inr have eq: "w = take k b @ w1" "r = r1" "es' = es2"
        by (auto simp: writeloop_step)
      have "set es1 \<subseteq> set es" using x Inr by (cases "(length b, es)" rule: sys_write.cases) auto
      moreover have ih: "set es2 \<subseteq> set es1"
         "r1 = IoDone \<and> w1 = drop k b \<or> (\<exists>e. r1 = IoErr e \<and> io_errno_permanent e \<and> WrFail e \<in> set es1)"
        using 1(2) [OF b x [symmetric] Inr rec] by blast+
      moreover obtain v where "drop k b = w1 @ v" using 1(2) [OF b x [symmetric] Inr rec] by blast
      then have "\<exists>v. b = w @ v" unfolding eq by (metis append_assoc append_take_drop_id)
      ultimately show ?thesis unfolding eq by (metis append_take_drop_id subset_iff)
    qed
  qed
qed

definition wr_clean :: "wr list \<Rightarrow> bool" where
  "wr_clean es \<longleftrightarrow> list_all (\<lambda>e. case e of Accept k \<Rightarrow> True | WrFail e \<Rightarrow> \<not> io_errno_permanent e) es"

lemma wr_cleanD: "wr_clean es \<Longrightarrow> WrFail e \<in> set es \<Longrightarrow> \<not> io_errno_permanent e"
  by (auto simp: wr_clean_def list_all_iff)

lemma writeloop_clean:
  assumes "wr_clean es"
  shows "\<exists>es'. writeloop b es = (b, IoDone, es') \<and> wr_clean es'"
proof -
  obtain w r es' where "writeloop b es = (w, r, es')" by (cases "writeloop b es")
  moreover from writeloop_spec [OF this] assms have "r = IoDone" "w = b" "wr_clean es'"
    using wr_cleanD by (auto simp: wr_clean_def list_all_iff)
  ultimately show ?thesis by simp
qed

subsection \<open>Reading lines\<close>

definition plain :: "rd list \<Rightarrow> bool" where
  "plain es \<longleftrightarrow> list_all (\<lambda>e. case e of Avail bs \<Rightarrow> bs \<noteq> [] | RdFail e \<Rightarrow> False) es"

lemma plain_simps [simp]:
  "plain []" "plain (Avail bs # es) \<longleftrightarrow> bs \<noteq> [] \<and> plain es" "\<not> plain (RdFail e # es)"
  by (simp_all add: plain_def)

lemma sys_read_plain:
  assumes "plain es" "rd_data es = b # bs"
  shows "\<exists>es'. sys_read 1 es = (Inr [b], es') \<and> plain es' \<and> rd_data es' = bs"
proof (cases es)
  case (Cons e es1)
  with assms obtain cs where e: "e = Avail cs" "cs \<noteq> []" by (cases e) auto
  with assms Cons show ?thesis by (cases cs) (auto simp: Suc_le_eq)
qed (use assms in simp)

lemma sys_read_plain_any:
  assumes "plain es" "rd_data es \<noteq> []" "0 < n"
  shows "\<exists>bs es'. sys_read n es = (Inr bs, es') \<and> bs \<noteq> [] \<and> plain es' \<and> rd_data es = bs @ rd_data es'"
proof (cases es)
  case (Cons e es1)
  with assms obtain cs where "e = Avail cs" "cs \<noteq> []" by (cases e) auto
  with assms Cons show ?thesis by (cases "length cs \<le> n") auto
qed (use assms in simp)

lemma read_until_newline_at_line:
  assumes "plain es" "rd_data es = line @ 10 # rest" "10 \<notin> set line"
    "cur + length line < bufsize" "bufsize \<le> length m"
  shows "\<exists>es'. read_until_newline_at cur bufsize m es
      = Some (int (cur + length line) + 1,
              take cur m @ line @ 0 # drop (cur + length line + 1) m, es')
     \<and> plain es' \<and> rd_data es' = rest"
  using assms
proof (induction line arbitrary: cur m es)
  case Nil
  then obtain es' where "sys_read 1 es = (Inr [10], es')" "plain es'" "rd_data es' = rest"
    using sys_read_plain [of es] by auto
  with Nil show ?case by (auto simp: read_until_newline_at_step(2) upd_conv_take_nth_drop)
next
  case (Cons b line)
  then obtain es' where s: "sys_read 1 es = (Inr [b], es')" "plain es'" "rd_data es' = line @ 10 # rest"
    using sys_read_plain [of es] by auto
  have upd: "take (cur + 1) (m[cur := b]) = take cur m @ [b]"
    "drop (cur + 1 + length line + 1) (m[cur := b]) = drop (cur + length (b # line) + 1) m"
    using Cons.prems(4,5) by (auto simp: take_Suc_conv_app_nth)
  from Cons.IH [OF s(2,3), of "cur + 1" "m[cur := b]"] Cons.prems s
  show ?case by (auto simp: read_until_newline_at_step(1) upd [simplified])
qed

lemma c_string_line: "0 \<notin> set line \<Longrightarrow> c_string (line @ 0 # m) = line"
  unfolding c_string_def by (subst takeWhile_append2) auto

lemma read_lines_spec:
  assumes "plain es" "rd_data es = concat (map (\<lambda>l. l @ [10]) ls) @ 10 # rest"
    "\<forall>l\<in>set ls. l \<noteq> [] \<and> 0 \<notin> set l \<and> 10 \<notin> set l \<and> length l < mx" "0 < mx" "length line = mx + 1"
  shows "\<exists>es'. read_lines mx line acc es = Some (acc @ ls, es') \<and> plain es' \<and> rd_data es' = rest"
  using assms
proof (induction ls arbitrary: line acc es)
  case Nil
  with read_until_newline_at_line [of es "[]" rest 0 mx line]
  show ?case by (auto simp: read_lines.simps [of mx line] read_until_newline_def)
next
  case (Cons l ls)
  let ?line = "l @ 0 # drop (length l + 1) line"
  from Cons.prems read_until_newline_at_line [of es l _ 0 mx line] obtain es1
    where r: "read_until_newline line mx es = Some (int (length l) + 1, ?line, es1)"
      "plain es1" "rd_data es1 = concat (map (\<lambda>l. l @ [10]) ls) @ 10 # rest"
    by (auto simp: read_until_newline_def)
  from Cons.prems have "length ?line = mx + 1" by auto
  with Cons.IH [of es1 ?line "acc @ [l]"] Cons.prems r show ?case
    by (auto simp: read_lines.simps [of mx line acc] c_string_line)
qed

subsection \<open>Sending file ranges\<close>

lemma mem_slice_split: "mem_slice i (k + n) m = mem_slice i k m @ mem_slice (i + k) n m"
  by (rule mem_slice_join [symmetric])

lemma sendfileloop_spec:
  assumes "offset + n \<le> length file" "sent + n = count"
  shows "\<exists>w r es'. sendfileloop es file offset sent count out = Some (out @ w, r, es')
     \<and> (\<exists>v. mem_slice offset n file = w @ v) \<and> set es' \<subseteq> set es
     \<and> (r = IoDone \<and> w = mem_slice offset n file \<or> (\<exists>e. r = IoErr e \<and> WrFail e \<in> set es))"
  using assms
proof (induction "n + length es" arbitrary: n es offset sent out rule: less_induct)
  case less
  show ?case
  proof (cases "n = 0")
    case True
    with less.prems show ?thesis by (subst sendfileloop.simps) (simp add: mem_slice_def)
  next
    case False
    have mn: "min (count - sent) (length file - offset) = n" using less.prems by simp
    obtain x es1 where x: "sys_write n es = (x, es1)" by (cases "sys_write n es")
    show ?thesis
    proof (cases x)
      case (Inl e)
      with x less.prems False show ?thesis
        by (subst sendfileloop.simps) (auto simp: mn dest!: sys_write_fail)
    next
      case (Inr k)
      with x have k: "k \<le> n" "k + length es1 < n + length es \<or> k = n \<and> es = []" "set es1 \<subseteq> set es"
        by (cases "(n, es)" rule: sys_write.cases; auto)+
      have sm: "n - k + length es1 < n + length es"
        using k False x Inr by (auto dest!: sys_write_accept)
      let ?out = "out @ mem_slice offset k file"
      have p: "offset + k + (n - k) \<le> length file" "sent + k + (n - k) = count" using less.prems k by auto
      obtain w r es' where ih:
        "sendfileloop es1 file (offset + k) (sent + k) count ?out = Some (?out @ w, r, es')"
        "\<exists>v. mem_slice (offset + k) (n - k) file = w @ v" "set es' \<subseteq> set es1"
        "r = IoDone \<and> w = mem_slice (offset + k) (n - k) file \<or> (\<exists>e. r = IoErr e \<and> WrFail e \<in> set es1)"
        using less.hyps [OF sm p, of ?out] by blast
      have eq: "sendfileloop es file offset sent count out = Some (out @ mem_slice offset k file @ w, r, es')"
        using ih(1) less.prems False x Inr by (subst sendfileloop.simps) (simp add: mn)
      have sp: "mem_slice offset n file = mem_slice offset k file @ mem_slice (offset + k) (n - k) file"
        using mem_slice_split [of offset k "n - k" "file"] k by simp
      show ?thesis unfolding eq sp using ih(2-4) k(3) by fastforce
    qed
  qed
qed

lemma sendfileloop_past_end:
  assumes "length file \<le> offset" "sent < count" "\<forall>e. WrFail e \<notin> set es"
  shows "sendfileloop es file offset sent count out = None"
proof (rule ccontr)
  assume "sendfileloop es file offset sent count out \<noteq> None"
  then obtain y where "sendfileloop es file offset sent count out = Some y" by auto
  then have "length file \<le> offset \<and> sent < count \<and> (\<forall>e. WrFail e \<notin> set es) \<longrightarrow> False"
  proof (rule sendfileloop.raw_induct [where P = "\<lambda>es file offset sent count out y.
        length file \<le> offset \<and> sent < count \<and> (\<forall>e. WrFail e \<notin> set es) \<longrightarrow> False", rotated])
    fix f es "file" offset sent count out y
    assume ih: "\<And>es file offset sent count out y. f es file offset sent count out = Some y \<Longrightarrow>
          length file \<le> offset \<and> sent < count \<and> (\<forall>e. WrFail e \<notin> set es) \<longrightarrow> False"
      and body: "(if sent < count then
        (case sys_write (min (count - sent) (length file - offset)) es of
           (Inl errno, es') \<Rightarrow> Some (out, IoErr errno, es')
         | (Inr k, es') \<Rightarrow> f es' file (offset + k) (sent + k) count (out @ mem_slice offset k file))
      else Some (out, IoDone, es)) = Some (y :: byte list \<times> io_end \<times> wr list)"
    show "length file \<le> offset \<and> sent < count \<and> (\<forall>e. WrFail e \<notin> set es) \<longrightarrow> False"
    proof
      assume a: "length file \<le> offset \<and> sent < count \<and> (\<forall>e. WrFail e \<notin> set es)"
      obtain x es1 where x: "sys_write 0 es = (x, es1)" by (cases "sys_write 0 es")
      with a have es1: "x = Inr 0" "\<forall>e. WrFail e \<notin> set es1"
        by (cases "(0::nat, es)" rule: sys_write.cases; auto)+
      with a x body have "f es1 file offset sent count (out @ mem_slice offset 0 file) = Some y"
        by simp
      from ih [OF this] a es1 show False by simp
    qed
  qed
  with assms show False by simp
qed

subsection \<open>Splicing\<close>

text \<open>Each \<^verbatim>\<open>splice\<close> call asks for \<open>len\<close> bytes again, not for what is left.\<close>

lemma spliceloop_overshoot:
  assumes "0 < k" "k < len" "length d1 = k" "length d2 = len"
  shows "spliceloop nonblock (Avail d1 # Avail d2 # es) 0 len [] = Some (d1 @ d2, int (k + len), es)"
  using assms by (simp add: spliceloop.simps)

lemma spliceloop_exact:
  assumes "length d = len"
  shows "spliceloop nonblock (Avail d # es) 0 len [] = Some (d, int len, if len = 0 then Avail d # es else es)"
  using assms by (cases "len = 0") (simp_all add: spliceloop.simps)

subsection \<open>I/O buffers\<close>

definition iobuf_ok :: "iobuf \<Rightarrow> bool" where
  "iobuf_ok iob \<longleftrightarrow> needle iob \<le> iob_size iob \<and> iob_size iob \<le> length (buf iob)"

lemma mem_slice_mem_write:
  assumes "mem_write at bs m = Some m'"
  shows "length m' = length m" "mem_slice 0 (at + length bs) m' = mem_slice 0 at m @ bs"
  using assms by (auto simp: mem_slice_def split: if_splits)

lemma iobuf_read_spec:
  assumes ok: "iobuf_ok iob" and d: "default_size \<le> length (buf iob)"
  shows "\<exists>n errno' iob' es'. iobuf_read es errno iob default_size = Some (n, errno', iob', es')
     \<and> iobuf_ok iob' \<and> length (buf iob') = length (buf iob)
     \<and> iob_size iob' = (if needle iob = 0 then default_size else iob_size iob)
     \<and> (\<exists>bs. needle iob' = needle iob + length bs
          \<and> mem_slice 0 (needle iob') (buf iob') = mem_slice 0 (needle iob) (buf iob) @ bs
          \<and> (0 < n \<longrightarrow> n = int (length bs) \<and> sys_read (iob_size iob' - needle iob) es = (Inr bs, es'))
          \<and> (n \<le> 0 \<longrightarrow> bs = []))"
proof -
  define iob1 where "iob1 = (if needle iob = 0 then iob\<lparr>iob_size := default_size\<rparr> else iob)"
  have i1: "needle iob1 \<le> iob_size iob1" "iob_size iob1 \<le> length (buf iob)" "buf iob1 = buf iob" "needle iob1 = needle iob"
    "iob_size iob1 = (if needle iob = 0 then default_size else iob_size iob)"
    using ok d by (auto simp: iob1_def iobuf_ok_def)
  then have left: "size_t_minus (iob_size iob1) (needle iob1) = iob_size iob1 - needle iob"
    by (simp add: size_t_minus_def)
  obtain x es1 where x: "sys_read (iob_size iob1 - needle iob) es = (x, es1)"
    by (cases "sys_read (iob_size iob1 - needle iob) es")
  show ?thesis
  proof (cases "\<exists>bs. x = Inr bs \<and> bs \<noteq> []")
    case True
    then obtain bs where bs: "x = Inr bs" "bs \<noteq> []" by blast
    with x have l: "length bs \<le> iob_size iob1 - needle iob" by (auto dest: sys_read_length)
    then have "needle iob + length bs \<le> length (buf iob)" using i1(1,2,4) by simp
    then obtain m where m: "mem_write (needle iob) bs (buf iob) = Some m" by simp
    with x bs have "iobuf_read es errno iob default_size =
        Some (int (length bs), errno, iob1\<lparr>buf := m, needle := needle iob + length bs\<rparr>, es1)"
      unfolding iobuf_read_def iob1_def [symmetric] Let_def left by (simp add: i1 del: mem_write.simps)
    moreover have "iobuf_ok (iob1\<lparr>buf := m, needle := needle iob + length bs\<rparr>)"
      using l i1 mem_slice_mem_write(1) [OF m] by (simp add: iobuf_ok_def)
    ultimately show ?thesis
      using mem_slice_mem_write [OF m] x bs i1
      by (auto simp del: mem_write.simps intro!: exI [of _ bs])
  next
    case False
    with x have "\<exists>n errno'. iobuf_read es errno iob default_size = Some (n, errno', iob1, es1) \<and> n \<le> 0"
      unfolding iobuf_read_def iob1_def [symmetric] Let_def left by (cases x) auto
    with i1 show ?thesis by (auto simp: iobuf_ok_def)
  qed
qed

lemma iobuf_write_spec:
  assumes ok: "iobuf_ok iob"
  shows "\<exists>n errno' k out es'. iobuf_write es errno iob
        = Some (n, errno', iob\<lparr>needle := needle iob + k\<rparr>, out, es')
     \<and> needle iob + k \<le> iob_size iob \<and> out = mem_slice (needle iob) k (buf iob) \<and> length out = k
     \<and> (0 \<le> n \<longrightarrow> n = int k) \<and> (n < 0 \<longrightarrow> k = 0 \<and> n = -1 \<and> io_errno_permanent errno')"
proof -
  have left: "size_t_minus (iob_size iob) (needle iob) = iob_size iob - needle iob"
    using ok by (simp add: size_t_minus_def iobuf_ok_def)
  obtain x es1 where x: "sys_write (iob_size iob - needle iob) es = (x, es1)"
    by (cases "sys_write (iob_size iob - needle iob) es")
  show ?thesis
  proof (cases x)
    case (Inl e)
    with x left ok show ?thesis by (auto simp: iobuf_write_def Let_def mem_slice_def iobuf_ok_def)
  next
    case (Inr k)
    with x have "k \<le> iob_size iob - needle iob" by (auto dest: sys_write_accept)
    with x left Inr ok show ?thesis by (auto simp: iobuf_write_def iobuf_ok_def Let_def)
  qed
qed

subsection \<open>Building the allocation map\<close>

definition in_extent :: "nat \<Rightarrow> u64 \<times> u64 \<Rightarrow> bool" where
  "in_extent p ext \<longleftrightarrow> unat (fst ext) \<le> p \<and> p < unat (fst ext) + unat (snd ext)"

lemma range_fits_shape:
  "same_shape bs bs' \<Longrightarrow> length (bits bs') = length (bits bs) \<Longrightarrow> range_fits bs' f n = range_fits bs f n"
  by (simp add: range_fits_def same_shapeD)

lemma set_extents_spec:
  assumes "wf_bitset bs" "\<not> stream_enabled bs" "64 * length (bits bs) = k"
    "list_all (\<lambda>(l, n). 0 < unat n \<and> unat l + unat n < 2 ^ 64 \<and> (unat l + unat n - 1) div res bs < k) exts"
  shows "\<exists>bs'. set_extents bs exts = Done bs' \<and> wf_bitset bs' \<and> same_shape bs bs'
      \<and> length (bits bs') = length (bits bs)
      \<and> (\<forall>p < unat (bs_size bs). bs_bit bs p \<or> (\<exists>x\<in>set exts. in_extent p x) \<longrightarrow> bs_bit bs' p)"
  using assms
proof (induction exts arbitrary: bs)
  case (Cons x exts)
  obtain l n where x: "x = (l, n)" by (cases x)
  with Cons.prems have "0 < unat n" "range_fits bs (unat l) (unat n)" by (auto simp: range_fits_def)
  from bitset_set_range_fits [OF Cons.prems(1) this] Cons.prems(2) obtain bs1
    where b: "bitset_set_range bs l n = Done bs1" "range_effect True BITSET_STREAM_SET bs l n bs1" by auto
  then have s: "wf_bitset bs1" "same_shape bs bs1" by (auto simp: range_effect_def)
  have len: "length (bits bs1) = length (bits bs)" using b(2) by (simp add: range_effect_def)
  have p: "bs_bit bs1 p" if "p < unat (bs_size bs)" "bs_bit bs p \<or> in_extent p x" for p
    using b(2) that x in_chunks_cover by (auto simp: range_effect_def in_extent_def)
  have "\<exists>bs'. set_extents bs1 exts = Done bs' \<and> wf_bitset bs' \<and> same_shape bs1 bs'
      \<and> length (bits bs') = length (bits bs1)
      \<and> (\<forall>p < unat (bs_size bs1). bs_bit bs1 p \<or> (\<exists>x\<in>set exts. in_extent p x) \<longrightarrow> bs_bit bs' p)"
    by (rule Cons.IH) (use Cons.prems s len in \<open>auto simp: same_shapeD\<close>)
  then obtain bs' where "set_extents bs1 exts = Done bs'" "wf_bitset bs'" "same_shape bs1 bs'"
      "length (bits bs') = length (bits bs1)"
      "\<forall>p < unat (bs_size bs1). bs_bit bs1 p \<or> (\<exists>x\<in>set exts. in_extent p x) \<longrightarrow> bs_bit bs' p"
    by blast
  with b s len p x show ?case by (auto simp: same_shape_def)
qed simp

text \<open>What the loop relies on: every extent the kernel reports is a non-empty range whose chunks the
  map has bits for, the extents of one call cover the allocated bytes from the start of the request
  to where the next one begins, and a call makes progress.\<close>

definition fiemap_ok :: "fiemap \<Rightarrow> (nat \<Rightarrow> bool) \<Rightarrow> nat \<Rightarrow> nat \<Rightarrow> nat \<Rightarrow> bool" where
  "fiemap_ok ioctl allocated sz r k \<longleftrightarrow>
     (\<forall>start len. unat start < sz \<and> 0 < unat len \<longrightarrow>
        (\<exists>exts. ioctl start len = Some exts
          \<and> list_all (\<lambda>(l, n). 0 < unat n \<and> unat l + unat n < 2 ^ 64 \<and> (unat l + unat n - 1) div r < k) exts
          \<and> unat start < unat (next_offset exts start len)
          \<and> (\<forall>p. unat start \<le> p \<and> p < unat (next_offset exts start len) \<and> allocated p
               \<longrightarrow> (\<exists>x\<in>set exts. in_extent p x))))"

lemma fm_length_pos: "offset < sz \<Longrightarrow> 0 < unat (fm_length sz offset)"
  by (auto simp: fm_length_def Let_def word_less_nat_alt unat_sub_u64)

lemma build_allocation_map_from_spec:
  assumes "wf_bitset bs" "\<not> stream_enabled bs"
    "fiemap_ok ioctl allocated (unat (bs_size bs)) (res bs) (64 * length (bits bs))"
    "\<forall>p < unat offset. p < unat (bs_size bs) \<and> allocated p \<longrightarrow> bs_bit bs p"
  shows "\<exists>bs'. build_allocation_map_from ioctl offset bs = Some (Done (1, bs')) \<and> wf_bitset bs'
     \<and> (\<forall>p < unat (bs_size bs). allocated p \<longrightarrow> bs_bit bs' p)"
  using assms
proof (induction "2 ^ 64 - unat offset" arbitrary: offset bs rule: less_induct)
  case less
  let ?len = "fm_length (bs_size bs) offset"
  show ?case
  proof (cases "offset < bs_size bs")
    case False
    then have "\<forall>p < unat (bs_size bs). p < unat offset" by (simp add: word_less_nat_alt)
    with False less.prems show ?thesis by (subst build_allocation_map_from.simps) auto
  next
    case True
    then obtain exts where e: "ioctl offset ?len = Some exts"
      "list_all (\<lambda>(l, n). 0 < unat n \<and> unat l + unat n < 2 ^ 64
          \<and> (unat l + unat n - 1) div res bs < 64 * length (bits bs)) exts"
      "unat offset < unat (next_offset exts offset ?len)"
      "\<forall>p. unat offset \<le> p \<and> p < unat (next_offset exts offset ?len) \<and> allocated p
               \<longrightarrow> (\<exists>x\<in>set exts. in_extent p x)"
      using less.prems(3) fm_length_pos [OF True] unfolding fiemap_ok_def word_less_nat_alt by blast
    from set_extents_spec [OF less.prems(1,2) refl e(2)] obtain bs1
      where b: "set_extents bs exts = Done bs1" "wf_bitset bs1" "same_shape bs bs1"
        "length (bits bs1) = length (bits bs)"
        "\<forall>p < unat (bs_size bs). bs_bit bs p \<or> (\<exists>x\<in>set exts. in_extent p x) \<longrightarrow> bs_bit bs1 p"
      by blast
    have q: "\<forall>p < unat (next_offset exts offset ?len). p < unat (bs_size bs1) \<and> allocated p \<longrightarrow> bs_bit bs1 p"
    proof (intro allI impI)
      fix p assume p: "p < unat (next_offset exts offset ?len)" "p < unat (bs_size bs1) \<and> allocated p"
      then have pb: "p < unat (bs_size bs)" "allocated p" using b(3) by (simp_all add: same_shapeD)
      then have "bs_bit bs p \<or> (\<exists>x\<in>set exts. in_extent p x)"
        using e(4) [rule_format, of p] less.prems(4) [rule_format, of p] p(1) by (cases "p < unat offset") auto
      then show "bs_bit bs1 p" using b(5) pb(1) by blast
    qed
    have "2 ^ 64 - unat (next_offset exts offset ?len) < 2 ^ 64 - unat offset"
      using e(3) by (rule diff_less_mono2) simp
    moreover have "\<not> stream_enabled bs1"
      "fiemap_ok ioctl allocated (unat (bs_size bs1)) (res bs1) (64 * length (bits bs1))"
      using less.prems b by (simp_all add: same_shapeD)
    ultimately have "\<exists>bs'. build_allocation_map_from ioctl (next_offset exts offset ?len) bs1
          = Some (Done (1, bs')) \<and> wf_bitset bs'
        \<and> (\<forall>p < unat (bs_size bs1). allocated p \<longrightarrow> bs_bit bs' p)"
      by (intro less.hyps b(2) q)
    then obtain bs' where
      "build_allocation_map_from ioctl (next_offset exts offset ?len) bs1 = Some (Done (1, bs'))"
      "wf_bitset bs'" "\<forall>p < unat (bs_size bs1). allocated p \<longrightarrow> bs_bit bs' p"
      by blast
    with True e(1) b(1,3) show ?thesis
      by (subst build_allocation_map_from.simps) (auto simp: same_shapeD)
  qed
qed

subsection \<open>The size of the mapped file\<close>

lemma and_not_511: "(n :: int) AND NOT 0x1ff = n - n mod 512"
proof -
  have "n AND NOT (mask 9) = n - take_bit 9 n"
  proof -
    have "n AND NOT (mask 9) = push_bit 9 (drop_bit 9 n)"
      by (rule bit_eqI) (auto simp: bit_and_iff bit_not_iff bit_mask_iff bit_push_bit_iff bit_drop_bit_eq)
    then show ?thesis
      by (simp add: push_bit_eq_mult drop_bit_eq_div take_bit_eq_mod minus_mod_eq_div_mult)
  qed
  then show ?thesis by (simp add: mask_eq_exp_minus_1 take_bit_eq_mod)
qed

subsection \<open>Properties\<close>

text \<open>C32: \<open>readloop\<close> delivers exactly the next \<open>n\<close> bytes of the stream when they arrive before a
  permanent error or end-of-file, however the kernel cuts them up and however often calls are
  interrupted, and leaves the rest for the next read; otherwise it delivers what came and fails with
  that error or with end-of-file.\<close>

theorem readloop_exact:
  "readloop n es =
     (take n (rd_data es), if n \<le> length (rd_data es) then IoDone else rd_stop es, snd (snd (readloop n es)))
   \<and> (n \<le> length (rd_data es) \<longrightarrow> rd_data (snd (snd (readloop n es))) = drop n (rd_data es))"
  using readloop_ok [of n es] readloop_short [of es n] by (cases "n \<le> length (rd_data es)") fastforce+

theorem readloop_exact_witness:
  "rd_data (snd (snd (readloop 3 [Avail [1, 2], RdFail EINTR, Avail [3, 4]]))) = [4]"
  using readloop_exact [of 3 "[Avail [1, 2], RdFail EINTR, Avail [3, 4]]"]
  by (simp add: io_errno_permanent_def)

text \<open>\<open>writeloop\<close> writes a prefix of the buffer, never anything else; it reports success only
  after writing all of it, and the only failures it reports are permanent errors of the descriptor.\<close>

theorem writeloop_prefix:
  assumes "writeloop b es = (w, r, es')"
  shows "(\<exists>v. b = w @ v) \<and> (r = IoDone \<longleftrightarrow> r \<noteq> IoEof \<and> w = b \<and> (\<forall>e. r \<noteq> IoErr e))
     \<and> (\<forall>e. r = IoErr e \<longrightarrow> io_errno_permanent e \<and> WrFail e \<in> set es) \<and> (wr_clean es \<longrightarrow> r = IoDone)"
  using writeloop_spec [OF assms] wr_cleanD [of es] by auto

theorem writeloop_prefix_witness:
  "\<exists>es'. writeloop [1, 2, 3] [Accept 1, WrFail EAGAIN] = ([1, 2, 3], IoDone, es')"
proof -
  obtain w r es' where w: "writeloop [1, 2, 3] [Accept 1, WrFail EAGAIN] = (w, r, es')"
    by (cases "writeloop [1, 2, 3] [Accept 1, WrFail EAGAIN]")
  from writeloop_prefix [OF w] show ?thesis
    using w by (auto simp: wr_clean_def io_errno_permanent_def)
qed

text \<open>Reading a control command recovers its lines: a stream that carries non-empty lines, each
  shorter than the limit and free of NUL, followed by a blank line, gives exactly those lines and
  leaves the input after the blank line unread, however it is cut into chunks.\<close>

theorem read_lines_roundtrip:
  assumes "plain es" "rd_data es = concat (map (\<lambda>l. l @ [10]) ls) @ 10 # rest"
    "\<forall>l\<in>set ls. l \<noteq> [] \<and> 0 \<notin> set l \<and> 10 \<notin> set l \<and> length l < mx" "0 < mx"
  shows "\<exists>es'. read_lines_until_blankline mx es = Some (ls, es') \<and> rd_data es' = rest"
  using read_lines_spec [OF assms, of "replicate (mx + 1) 0" "[]"]
  by (auto simp: read_lines_until_blankline_def)

theorem read_lines_roundtrip_witness:
  "\<exists>es'. read_lines_until_blankline 8 [Avail [97, 98], Avail [10, 99, 10, 10, 7]] = Some ([[97, 98], [99]], es')
     \<and> rd_data es' = [7]"
  by (rule read_lines_roundtrip) simp_all

text \<open>C34: \<open>sendfileloop\<close> sends exactly the requested bytes of the file when the range lies inside it
  and the socket does not fail; when the range starts at or past the end of the file
  \<^verbatim>\<open>sendfile64\<close> keeps returning 0 and the loop never returns.\<close>

theorem sendfileloop_range:
  assumes "\<forall>e. WrFail e \<notin> set es" "0 < count"
  shows "if length file \<le> offset then sendfileloop es file offset 0 count [] = None
         else offset + count \<le> length file \<longrightarrow>
           (\<exists>es'. sendfileloop es file offset 0 count [] = Some (mem_slice offset count file, IoDone, es'))"
  using sendfileloop_past_end [of "file" offset 0 count es "[]"] assms
    sendfileloop_spec [of offset count "file" 0 count es "[]"] by auto

theorem sendfileloop_range_witness:
  "\<exists>es'. sendfileloop [Accept 1] [10, 11, 12, 13] 1 0 2 [] = Some ([11, 12], IoDone, es')"
  using sendfileloop_range [of "[Accept 1]" 2 "[10, 11, 12, 13]" 1] by (simp add: mem_slice_def)



text \<open>\<open>spliceloop\<close> can move more bytes than it was asked for: after a short first splice it asks
  for the full length again, so \<open>k + len\<close> bytes are consumed from the input where \<open>len\<close> were
  wanted.\<close>

theorem spliceloop_moves_too_much:
  assumes "0 < k" "k < len" "length d1 = k" "length d2 = len"
  shows "spliceloop nonblock (Avail d1 # Avail d2 # es) 0 len [] = Some (d1 @ d2, int (k + len), es)"
  by (rule spliceloop_overshoot [OF assms])

theorem spliceloop_moves_too_much_witness:
  "spliceloop True [Avail [1], Avail [2, 3, 4]] 0 3 [] = Some ([1, 2, 3, 4], 4, [])"
  using spliceloop_moves_too_much [of 1 3 "[1]" "[2, 3, 4]" True "[]"] by simp

end
