(* ===== verification/Client.thy ===== *)
theory Client
  imports Ioutil
begin

text \<open>
  The client thread of the server, \<^verbatim>\<open>src/src/server/client.c\<close>: one connection, its requests and its
  replies.  \<open>server\<close> is the part of \<^verbatim>\<open>struct server\<close> a client touches, with the served file (which
  every client maps shared) as \<open>file_map\<close>; \<open>client\<close> is \<^verbatim>\<open>struct client\<close> with the state of its socket.
\<close>

definition block_allocation_resolution :: u64 where
  "block_allocation_resolution = 4096"

record server =
  file_map :: "byte list"
  serve_size :: u64
  allocation_map :: bitset
  allocation_map_built :: bool
  allocation_map_not_built :: bool
  allow_new_clients :: bool
  use_killswitch :: bool
  server_closed :: bool
  acl_locked :: bool
  success :: bool
  close_signalled :: bool

record client =
  stopped :: bool
  disconnect :: bool
  sock_in :: "rd list"
  sock_wr :: "wr list"
  sock_out :: "byte list"
  sock_open :: bool
  corked :: bool
  file_open :: bool
  mapped_size :: u64
  errno :: int
  killswitch :: bool
  msync_fails :: "bool list"
  synced :: "(u64 \<times> u64) list"
  serve :: server

type_synonym 'a client_op = "client \<Rightarrow> (client, 'a) outcome"

subsection \<open>Socket primitives\<close>

fun errno_after :: "int \<Rightarrow> rd list \<Rightarrow> int" where
  "errno_after e [] = e"
| "errno_after e (Avail bs # es) = errno_after e es"
| "errno_after e (RdFail e' # es) = errno_after e' es"

fun wr_errno_after :: "int \<Rightarrow> wr list \<Rightarrow> int" where
  "wr_errno_after e [] = e"
| "wr_errno_after e (Accept k # es) = wr_errno_after e es"
| "wr_errno_after e (WrFail e' # es) = wr_errno_after e' es"

definition sock_read :: "nat \<Rightarrow> client \<Rightarrow> byte list \<times> io_end \<times> client" where
  "sock_read n c =
     (case readloop n (sock_in c) of (bs, r, es) \<Rightarrow>
        (bs, r, c\<lparr>sock_in := es,
                  errno := errno_after (errno c) (take (length (sock_in c) - length es) (sock_in c))\<rparr>))"

definition sock_write :: "byte list \<Rightarrow> client \<Rightarrow> io_end \<times> client" where
  "sock_write b c =
     (case writeloop b (sock_wr c) of (w, r, es) \<Rightarrow>
        (r, c\<lparr>sock_wr := es, sock_out := sock_out c @ w,
               errno := wr_errno_after (errno c) (take (length (sock_wr c) - length es) (sock_wr c))\<rparr>))"

definition put_file :: "byte list \<Rightarrow> client \<Rightarrow> client" where
  "put_file m c = c\<lparr>serve := (serve c)\<lparr>file_map := m\<rparr>\<rparr>"

definition put_map :: "bitset \<Rightarrow> client \<Rightarrow> client" where
  "put_map bs c = c\<lparr>serve := (serve c)\<lparr>allocation_map := bs\<rparr>\<rparr>"

definition map_set_range :: "u64 \<Rightarrow> u64 \<Rightarrow> unit client_op" where
  "map_set_range from len c =
     (case bitset_set_range (allocation_map (serve c)) from len of
        Done bs \<Rightarrow> Ret () (put_map bs c)
      | Blocked bs \<Rightarrow> Asleep (put_map bs c)
      | OutOfBounds \<Rightarrow> Fault)"

definition read_into_file :: "u64 \<Rightarrow> u64 \<Rightarrow> unit client_op" where
  "read_into_file from len c =
     (case sock_read (unat len) c of (bs, r, c1) \<Rightarrow>
        (case mem_write (unat from) bs (file_map (serve c)) of
           None \<Rightarrow> Fault
         | Some m \<Rightarrow> if r = IoDone then Ret () (put_file m c1) else Error (put_file m c1)))"

definition read_into_buffer :: "u64 \<Rightarrow> (byte list) client_op" where
  "read_into_buffer len c =
     (case sock_read (unat len) c of (bs, r, c1) \<Rightarrow> if r = IoDone then Ret bs c1 else Error c1)"

subsection \<open>Writing without filling holes\<close>

definition all_zeros :: "byte list \<Rightarrow> bool" where
  "all_zeros zerobuffer \<longleftrightarrow>
     zerobuffer ! 0 = 0 \<and> take (length zerobuffer - 1) zerobuffer = take (length zerobuffer - 1) (drop 1 zerobuffer)"

definition write_block :: "u64 \<Rightarrow> byte list \<Rightarrow> unit client_op" where
  "write_block from zerobuffer c =
     (if all_zeros zerobuffer then Ret () c
      else case mem_write (unat from) zerobuffer (file_map (serve c)) of
             None \<Rightarrow> Fault
           | Some m \<Rightarrow> map_set_range from (of_nat (length zerobuffer)) (put_file m c))"

definition blockrun_at :: "u64 \<Rightarrow> u64 \<Rightarrow> u64" where
  "blockrun_at from run =
     (let blockrun = block_allocation_resolution - (from mod block_allocation_resolution)
      in if blockrun > run then run else blockrun)"

lemma blockrun_pos: "0 < run \<Longrightarrow> 0 < blockrun_at from run \<and> blockrun_at from run \<le> run"
proof -
  have "unat (from mod 4096) < 4096" by (simp add: unat_mod_distrib)
  then have "from mod 4096 < 4096" by (simp add: word_less_nat_alt)
  then have "0 < 4096 - from mod 4096" by (simp add: word_less_nat_alt unat_sub_u64 word_le_nat_alt)
  then show "0 < run \<Longrightarrow> 0 < blockrun_at from run \<and> blockrun_at from run \<le> run"
    by (auto simp: blockrun_at_def block_allocation_resolution_def Let_def not_less)
qed

function write_blocks :: "u64 \<Rightarrow> u64 \<Rightarrow> u64 \<Rightarrow> (u64 \<times> u64) client_op" where
  "write_blocks from len run c =
     (if run > 0 then
        (let blockrun = blockrun_at from run in
         and_then (read_into_buffer blockrun c) (\<lambda>zerobuffer c1.
         and_then (write_block from zerobuffer c1) (\<lambda>_ c2.
         write_blocks (from + blockrun) (len - blockrun) (run - blockrun) c2)))
      else Ret (from, len) c)"
  by pat_completeness auto
termination
proof (relation "measure (\<lambda>(from, len, run, c). unat run)", goal_cases)
  case (2 "from" len run c blockrun)
  then show ?case
    using blockrun_pos [of run "from"] by (simp add: word_less_nat_alt word_le_nat_alt unat_sub_u64)
qed simp

declare write_blocks.simps [simp del]

partial_function (option) write_not_zeroes :: "u64 \<Rightarrow> u64 \<Rightarrow> client \<Rightarrow> (client, unit) outcome option" where
  "write_not_zeroes from len c =
     (if len > 0 then
        (case bitset_run_count (allocation_map (serve c)) from len of
           None \<Rightarrow> Some Fault
         | Some run0 \<Rightarrow>
             let run = (if run0 > len then len else run0) in
             (case bitset_is_set_at (allocation_map (serve c)) from of
                None \<Rightarrow> Some Fault
              | Some is_set \<Rightarrow>
                  if is_set \<noteq> 0 then
                    (case and_then (read_into_file from run c) (\<lambda>_. map_set_range from run) of
                       Ret _ c' \<Rightarrow> write_not_zeroes (from + run) (len - run) c'
                     | Error c' \<Rightarrow> Some (Error c')
                     | Fatal c' \<Rightarrow> Some (Fatal c')
                     | Asleep c' \<Rightarrow> Some (Asleep c')
                     | Spins \<Rightarrow> Some Spins
                     | Fault \<Rightarrow> Some Fault)
                  else
                    (case write_blocks from len run c of
                       Ret fl c' \<Rightarrow> write_not_zeroes (fst fl) (snd fl) c'
                     | Error c' \<Rightarrow> Some (Error c')
                     | Fatal c' \<Rightarrow> Some (Fatal c')
                     | Asleep c' \<Rightarrow> Some (Asleep c')
                     | Spins \<Rightarrow> Some Spins
                     | Fault \<Rightarrow> Some Fault)))
      else Some (Ret () c))"

definition or_spins :: "('s, 'a) outcome option \<Rightarrow> ('s, 'a) outcome" where
  "or_spins r = (case r of None \<Rightarrow> Spins | Some out \<Rightarrow> out)"

subsection \<open>Requests and replies\<close>

definition client_read_request :: "(nbd_request option) client_op" where
  "client_read_request c =
     (case sock_read NBD_REQUEST_SIZE c of (bs, r, c1) \<Rightarrow>
        if r = IoDone then Ret (Some (nbd_r2h_request (request_raw_of bs))) c1
        else if errno c1 = 0 \<or> errno c1 = ECONNRESET \<or> errno c1 = ETIMEDOUT then Ret None c1
        else Fatal c1)"

definition fd_write_reply :: "u64 \<Rightarrow> int \<Rightarrow> unit client_op" where
  "fd_write_reply handle error c =
     (let reply = \<lparr>rp_magic = REPLY_MAGIC, rp_error = word_of_int error, rp_handle = handle\<rparr> in
      case sock_write (reply_raw_bytes (nbd_h2r_reply reply)) c of (r, c1) \<Rightarrow>
        if r = IoDone then Ret () c1
        else if errno c1 = ECONNRESET then Error c1
        else if errno c1 = EBADF then Fatal c1
        else if errno c1 = EPIPE then Error c1
        else Fatal c1)"

definition client_write_reply :: "nbd_request \<Rightarrow> int \<Rightarrow> unit client_op" where
  "client_write_reply request error = fd_write_reply (rq_handle request) error"

definition client_write_init :: "u64 \<Rightarrow> unit client_op" where
  "client_write_init sz c =
     (let init = \<lparr>i_passwd = INIT_PASSWD, i_magic = INIT_MAGIC, i_size = sz,
                   i_flags = FLAG_HAS_FLAGS OR FLAG_SEND_FLUSH OR FLAG_SEND_FUA,
                   i_reserved = replicate 124 0\<rparr>;
          init_raw = nbd_h2r_init init zero_init_raw in
      case sock_write (init_raw_bytes init_raw) c of (r, c1) \<Rightarrow>
        if r = IoDone then Ret () c1 else Error c1)"

partial_function (option) client_flush_from :: "nat \<Rightarrow> nat \<Rightarrow> client \<Rightarrow> (client, unit) outcome option" where
  "client_flush_from spliced len c =
     (if spliced < len then
        (case sys_read (len - spliced) (sock_in c) of
           (Inl e, es) \<Rightarrow> Some (Fatal (c\<lparr>sock_in := es, errno := e\<rparr>))
         | (Inr received, es) \<Rightarrow> client_flush_from (spliced + length received) len (c\<lparr>sock_in := es\<rparr>))
      else Some (Ret () c))"

definition client_flush :: "u32 \<Rightarrow> unit client_op" where
  "client_flush len c = or_spins (client_flush_from 0 (unat len) c)"

definition client_request_needs_reply :: "nbd_request \<Rightarrow> bool client_op" where
  "client_request_needs_reply request c =
     (if rq_magic request \<noteq> REQUEST_MAGIC then
        and_then (client_write_reply request EBADMSG c) (\<lambda>_ c1. Ret False (c1\<lparr>disconnect := True\<rparr>))
      else if rq_from request + ucast (rq_len request) > serve_size (serve c) then
        and_then (if rq_type request = REQUEST_WRITE then client_flush (rq_len request) c else Ret () c)
          (\<lambda>_ c1. and_then (client_write_reply request ENOSPC c1)
          (\<lambda>_ c2. Ret False (c2\<lparr>disconnect := False\<rparr>)))
      else if rq_type request = REQUEST_READ then Ret True c
      else if rq_type request = REQUEST_WRITE then Ret True c
      else if rq_type request = REQUEST_DISCONNECT then Ret False (c\<lparr>disconnect := True\<rparr>)
      else if rq_type request = REQUEST_FLUSH then Ret True c
      else and_then (client_write_reply request EINVAL c) (\<lambda>_ c1. Ret False (c1\<lparr>disconnect := False\<rparr>)))"

definition client_reply_to_read :: "nbd_request \<Rightarrow> unit client_op" where
  "client_reply_to_read request c =
     and_then (client_write_reply request 0 (c\<lparr>corked := True\<rparr>)) (\<lambda>_ c1.
       if rq_len request \<noteq> 0 \<and> rq_from request \<ge> 2 ^ 63 then Error (c1\<lparr>errno := EINVAL\<rparr>)
       else case sendfileloop (sock_wr c1) (file_map (serve c1)) (unat (rq_from request)) 0
              (unat (rq_len request)) [] of
         None \<Rightarrow> Spins
       | Some (w, r, es) \<Rightarrow>
           let c2 = c1\<lparr>sock_wr := es, sock_out := sock_out c1 @ w\<rparr> in
           if r = IoDone then Ret () (c2\<lparr>corked := False\<rparr>) else Error c2)"

definition page_size :: u64 where "page_size = 4096"

definition msync :: "u64 \<Rightarrow> u64 \<Rightarrow> client \<Rightarrow> bool \<times> client" where
  "msync from len c =
     (case msync_fails c of
        True # fs \<Rightarrow> (False, c\<lparr>msync_fails := fs\<rparr>)
      | fs \<Rightarrow> (True, c\<lparr>msync_fails := tl fs, synced := synced c @ [(from, len)]\<rparr>))"

definition client_reply_to_write :: "nbd_request \<Rightarrow> unit client_op" where
  "client_reply_to_write request c =
     and_then
       (if allocation_map_built (serve c)
        then or_spins (write_not_zeroes (rq_from request) (ucast (rq_len request)) c)
        else and_then (read_into_file (rq_from request) (ucast (rq_len request)) c)
               (\<lambda>_. map_set_range (rq_from request) (ucast (rq_len request))))
       (\<lambda>_ c1.
          let from_rounded = rq_from request AND NOT (page_size - 1);
              len_rounded = ucast (rq_len request) + (rq_from request - from_rounded) in
          case msync from_rounded len_rounded c1 of (ok, c2) \<Rightarrow>
            if ok then client_write_reply request 0 c2 else Fatal c2)"

definition client_reply_to_flush :: "nbd_request \<Rightarrow> unit client_op" where
  "client_reply_to_flush request c =
     (case msync 0 (mapped_size c) c of (ok, c1) \<Rightarrow>
        if ok then client_write_reply request 0 c1 else Error c1)"

definition client_reply :: "nbd_request \<Rightarrow> unit client_op" where
  "client_reply request c =
     (if rq_type request = REQUEST_READ then client_reply_to_read request c
      else if rq_type request = REQUEST_WRITE then client_reply_to_write request c
      else if rq_type request = REQUEST_FLUSH then client_reply_to_flush request c
      else Ret () c)"

subsection \<open>The request loop\<close>

definition client_arm_killswitch :: "client \<Rightarrow> client" where
  "client_arm_killswitch c = (if use_killswitch (serve c) then c\<lparr>killswitch := True\<rparr> else c)"

definition client_disarm_killswitch :: "client \<Rightarrow> client" where
  "client_disarm_killswitch c = (if use_killswitch (serve c) then c\<lparr>killswitch := False\<rparr> else c)"

datatype selected = SelectNone | SelectFailed | StopSignal | SocketException | SocketReadable

definition server_is_closed :: "server \<Rightarrow> bool" where
  [simp]: "server_is_closed s = server_closed s"

definition client_serve_request :: "selected \<Rightarrow> bool client_op" where
  "client_serve_request sel c =
     (case sel of
        SelectNone \<Rightarrow> Fatal c
      | SelectFailed \<Rightarrow> Fatal c
      | StopSignal \<Rightarrow> Ret True c
      | SocketException \<Rightarrow> Ret True c
      | SocketReadable \<Rightarrow>
          and_then (client_read_request (client_arm_killswitch c)) (\<lambda>req c1.
            case req of
              None \<Rightarrow> Ret True (client_disarm_killswitch c1)
            | Some request \<Rightarrow>
                and_then (client_request_needs_reply request c1) (\<lambda>needs c2.
                  if \<not> needs then Ret (disconnect c2) (client_disarm_killswitch c2)
                  else if server_is_closed (serve c2) then Ret True (client_disarm_killswitch c2)
                  else and_then (client_reply request c2)
                         (\<lambda>_ c3. Ret False (client_disarm_killswitch c3)))))"

definition client_send_hello :: "unit client_op" where
  "client_send_hello c = client_write_init (serve_size (serve c)) c"

definition client_cleanup :: "client \<Rightarrow> client" where
  "client_cleanup c =
     (let c1 = client_disarm_killswitch c in
      c1\<lparr>sock_open := False, file_open := False,
         serve := (if acl_locked (serve c1) then (serve c1)\<lparr>acl_locked := False\<rparr> else serve c1)\<rparr>)"

fun serve_requests :: "selected list \<Rightarrow> unit client_op" where
  "serve_requests [] c = Asleep c"
| "serve_requests (sel # sels) c =
     and_then (client_serve_request sel c) (\<lambda>stop c1. if stop then Ret () c1 else serve_requests sels c1)"

definition serve_signal_close :: "server \<Rightarrow> server" where
  [simp]: "serve_signal_close s = s\<lparr>close_signalled := True\<rparr>"

text \<open>Returns once the main thread has closed the listening socket.\<close>

definition serve_wait_for_close :: "server \<Rightarrow> server" where
  [simp]: "serve_wait_for_close s = s\<lparr>server_closed := True\<rparr>"

definition server_control_arrived :: "server \<Rightarrow> server" where
  "server_control_arrived s =
     (if \<not> success s then serve_signal_close (s\<lparr>success := True\<rparr>) else s)"

definition client_serve_body :: "bool \<Rightarrow> selected list \<Rightarrow> unit client_op" where
  "client_serve_body opened sels c =
     (if \<not> opened then Fatal c
      else and_then (client_send_hello (c\<lparr>file_open := True\<rparr>)) (\<lambda>_ c1.
           and_then (serve_requests sels c1) (\<lambda>_ c2.
           let c3 = c2\<lparr>stopped := True\<rparr>;
               c4 = (if disconnect c3 then c3\<lparr>serve := server_control_arrived (serve c3)\<rparr> else c3)
           in Ret () (client_cleanup c4))))"

definition client_serve :: "bool \<Rightarrow> selected list \<Rightarrow> unit client_op" where
  "client_serve opened sels c =
     (case client_serve_body opened sels c of Error c' \<Rightarrow> Error (client_cleanup c') | r \<Rightarrow> r)"

subsection \<open>What a write does to the file and its map\<close>

definition nblocks :: "nat \<Rightarrow> nat \<Rightarrow> nat" where
  "nblocks from n = (if n = 0 then 0 else (from + n - 1) div 4096 - from div 4096 + 1)"

definition sparse :: "server \<Rightarrow> bool" where
  "sparse sv \<longleftrightarrow>
     (\<forall>p < unat (serve_size sv). \<not> bs_bit (allocation_map sv) p \<longrightarrow> file_map sv ! p = 0)"

definition srv_ok :: "server \<Rightarrow> bool" where
  "srv_ok sv \<longleftrightarrow>
     wf_bitset (allocation_map sv) \<and> res (allocation_map sv) = 4096
     \<and> bs_size (allocation_map sv) = serve_size sv
     \<and> length (file_map sv) = unat (serve_size sv) \<and> sparse sv"

definition room :: "server \<Rightarrow> nat \<Rightarrow> bool" where
  "room sv k \<longleftrightarrow> (stream_enabled (allocation_map sv) \<longrightarrow>
     bitset_stream_size (allocation_map sv) + k \<le> BITSET_STREAM_SIZE)"

definition covers :: "bitset_stream_entry \<Rightarrow> nat \<Rightarrow> bool" where
  "covers e p \<longleftrightarrow> unat (entry_from e) \<le> p \<and> p < unat (entry_from e) + unat (entry_len e)"

definition write_events :: "nat \<Rightarrow> nat \<Rightarrow> nat \<Rightarrow> bitset_stream_entry list \<Rightarrow> bool" where
  "write_events k from n evs \<longleftrightarrow> length evs \<le> k
     \<and> (\<forall>e\<in>set evs. event e = BITSET_STREAM_SET \<and> 0 < unat (entry_len e)
          \<and> from \<le> unat (entry_from e) \<and> unat (entry_from e) + unat (entry_len e) \<le> from + n)"

definition wrote :: "nat \<Rightarrow> nat \<Rightarrow> byte list \<Rightarrow> server \<Rightarrow> server \<Rightarrow> bool" where
  "wrote k from bs sv sv' \<longleftrightarrow>
     mem_write from bs (file_map sv) = Some (file_map sv')
     \<and> srv_ok sv' \<and> same_shape (allocation_map sv) (allocation_map sv')
     \<and> sv'\<lparr>file_map := file_map sv, allocation_map := allocation_map sv\<rparr> = sv
     \<and> (\<forall>p < unat (serve_size sv). bs_bit (allocation_map sv) p \<longrightarrow> bs_bit (allocation_map sv') p)
     \<and> (\<forall>p < unat (serve_size sv). bs_bit (allocation_map sv') p \<and> \<not> bs_bit (allocation_map sv) p \<longrightarrow>
          (\<exists>i < length bs. bs ! i \<noteq> 0 \<and> (from + i) div 4096 = p div 4096))
     \<and> (\<exists>evs. stream_list (stream (allocation_map sv')) = stream_list (stream (allocation_map sv)) @ evs
          \<and> write_events k from (length bs) evs
          \<and> (\<not> stream_enabled (allocation_map sv) \<longrightarrow> evs = [])
          \<and> (stream_enabled (allocation_map sv) \<longrightarrow>
               (\<forall>p. file_map sv' ! p \<noteq> file_map sv ! p \<longrightarrow> (\<exists>e\<in>set evs. covers e p))))"

declare mem_write.simps [simp del]

lemma all_zeros_iff: "bs \<noteq> [] \<Longrightarrow> all_zeros bs \<longleftrightarrow> (\<forall>i < length bs. bs ! i = 0)"
proof
  assume ne: "bs \<noteq> []" and z: "all_zeros bs"
  have step: "bs ! i = bs ! Suc i" if "Suc i < length bs" for i
  proof -
    from z have "take (length bs - 1) bs ! i = take (length bs - 1) (drop 1 bs) ! i"
      by (simp add: all_zeros_def)
    with that show ?thesis by simp
  qed
  show "\<forall>i < length bs. bs ! i = 0"
  proof (intro allI impI)
    fix i assume "i < length bs"
    then show "bs ! i = 0" by (induction i) (use z step in \<open>auto simp: all_zeros_def\<close>)
  qed
next
  assume "bs \<noteq> []" "\<forall>i < length bs. bs ! i = 0"
  then show "all_zeros bs" by (auto simp: all_zeros_def intro: nth_equalityI)
qed

lemma mem_write_append:
  assumes "mem_write at bs m = Some m1" "mem_write (at + length bs) cs m1 = Some m2"
  shows "mem_write at (bs @ cs) m = Some m2"
  using assms by (auto split: if_splits simp: mem_write.simps ac_simps)

lemma mem_write_nth:
  assumes "mem_write at bs m = Some m'" "p < length m"
  shows "m' ! p = (if at \<le> p \<and> p < at + length bs then bs ! (p - at) else m ! p)"
  using assms by (auto split: if_splits simp: mem_write.simps nth_append min_def)

lemma mem_write_zeros:
  assumes "at + length bs \<le> length m" "\<forall>i < length bs. bs ! i = 0 \<and> m ! (at + i) = 0"
  shows "mem_write at bs m = Some m"
proof -
  have "take at m @ bs @ drop (at + length bs) m = m" (is "?l = m")
  proof (rule nth_equalityI)
    fix i assume "i < length ?l"
    with assms(1) have "i < length m" by simp
    with assms show "?l ! i = m ! i"
      using spec [OF assms(2), of "i - at"] by (auto simp: nth_append min_def)
  qed (use assms in simp)
  with assms(1) show ?thesis by (simp add: mem_write.simps)
qed

lemma write_events_append:
  "write_events k from n evs \<Longrightarrow> write_events l (from + n) m fvs \<Longrightarrow> write_events (k + l) from (n + m) (evs @ fvs)"
  by (force simp: write_events_def)

lemma wroteD:
  assumes "wrote k from bs sv sv'"
  shows "mem_write from bs (file_map sv) = Some (file_map sv')" "srv_ok sv'"
    "same_shape (allocation_map sv) (allocation_map sv')"
    "sv'\<lparr>file_map := file_map sv, allocation_map := allocation_map sv\<rparr> = sv"
    "p < unat (serve_size sv) \<Longrightarrow> bs_bit (allocation_map sv) p \<Longrightarrow> bs_bit (allocation_map sv') p"
    "p < unat (serve_size sv) \<Longrightarrow> bs_bit (allocation_map sv') p \<Longrightarrow> \<not> bs_bit (allocation_map sv) p \<Longrightarrow>
       \<exists>i < length bs. bs ! i \<noteq> 0 \<and> (from + i) div 4096 = p div 4096"
    "\<exists>evs. stream_list (stream (allocation_map sv')) = stream_list (stream (allocation_map sv)) @ evs
          \<and> write_events k from (length bs) evs
          \<and> (\<not> stream_enabled (allocation_map sv) \<longrightarrow> evs = [])
          \<and> (stream_enabled (allocation_map sv) \<longrightarrow>
               (\<forall>p. file_map sv' ! p \<noteq> file_map sv ! p \<longrightarrow> (\<exists>e\<in>set evs. covers e p)))"
  using assms unfolding wrote_def by blast+

lemma wrote_kept:
  assumes "wrote k from bs sv sv'"
  shows "serve_size sv' = serve_size sv" "allocation_map_built sv' = allocation_map_built sv"
    "use_killswitch sv' = use_killswitch sv" "server_closed sv' = server_closed sv"
    "stream_enabled (allocation_map sv') = stream_enabled (allocation_map sv)"
  using wroteD(3) [OF assms] arg_cong [OF wroteD(4) [OF assms], of serve_size]
    arg_cong [OF wroteD(4) [OF assms], of allocation_map_built]
    arg_cong [OF wroteD(4) [OF assms], of use_killswitch]
    arg_cong [OF wroteD(4) [OF assms], of server_closed]
  by (simp_all add: same_shape_def)

lemma wrote_append:
  assumes a: "wrote k from bs sv sv1" and b: "wrote l (from + length bs) cs sv1 sv2"
  shows "wrote (k + l) from (bs @ cs) sv sv2"
proof -
  note shape = wrote_kept [OF a]
  have nb: "\<exists>i < length (bs @ cs). (bs @ cs) ! i \<noteq> 0 \<and> (from + i) div 4096 = p div 4096"
    if p: "p < unat (serve_size sv)" "bs_bit (allocation_map sv2) p" "\<not> bs_bit (allocation_map sv) p" for p
  proof (cases "bs_bit (allocation_map sv1) p")
    case True
    from wroteD(6) [OF a p(1) True p(3)]
    obtain i where "i < length bs" "bs ! i \<noteq> 0" "(from + i) div 4096 = p div 4096" by blast
    then show ?thesis by (intro exI [of _ i]) (simp add: nth_append)
  next
    case False
    from wroteD(6) [OF b _ p(2) False] p(1) shape
    obtain i where "i < length cs" "cs ! i \<noteq> 0" "(from + length bs + i) div 4096 = p div 4096" by auto
    then show ?thesis by (intro exI [of _ "length bs + i"]) (simp add: nth_append add.assoc)
  qed
  obtain evs where evs: "stream_list (stream (allocation_map sv1)) = stream_list (stream (allocation_map sv)) @ evs"
      "write_events k from (length bs) evs" "\<not> stream_enabled (allocation_map sv) \<longrightarrow> evs = []"
      "stream_enabled (allocation_map sv) \<longrightarrow>
         (\<forall>p. file_map sv1 ! p \<noteq> file_map sv ! p \<longrightarrow> (\<exists>e\<in>set evs. covers e p))"
    using wroteD(7) [OF a] by blast
  obtain fvs where fvs: "stream_list (stream (allocation_map sv2)) = stream_list (stream (allocation_map sv1)) @ fvs"
      "write_events l (from + length bs) (length cs) fvs" "\<not> stream_enabled (allocation_map sv) \<longrightarrow> fvs = []"
      "stream_enabled (allocation_map sv) \<longrightarrow>
         (\<forall>p. file_map sv2 ! p \<noteq> file_map sv1 ! p \<longrightarrow> (\<exists>e\<in>set fvs. covers e p))"
    using wroteD(7) [OF b] shape by auto
  have "\<exists>e\<in>set (evs @ fvs). covers e p"
    if "stream_enabled (allocation_map sv)" "file_map sv2 ! p \<noteq> file_map sv ! p" for p
    using that evs(4) fvs(4) by (metis Un_iff set_append)
  moreover have "same_shape (allocation_map sv) (allocation_map sv2)"
    using wroteD(3) [OF a] wroteD(3) [OF b] by (simp add: same_shape_def)
  moreover have "sv2\<lparr>file_map := file_map sv, allocation_map := allocation_map sv\<rparr> = sv"
  proof -
    have "sv2\<lparr>file_map := file_map sv, allocation_map := allocation_map sv\<rparr>
        = (sv2\<lparr>file_map := file_map sv1, allocation_map := allocation_map sv1\<rparr>)
            \<lparr>file_map := file_map sv, allocation_map := allocation_map sv\<rparr>" by simp
    also have "\<dots> = sv" unfolding wroteD(4) [OF b] by (rule wroteD(4) [OF a])
    finally show ?thesis .
  qed
  moreover have "bs_bit (allocation_map sv2) p" if "p < unat (serve_size sv)" "bs_bit (allocation_map sv) p" for p
    using wroteD(5) [OF a that] wroteD(5) [OF b] that shape by simp
  moreover have "write_events (k + l) from (length (bs @ cs)) (evs @ fvs)"
    using write_events_append [OF evs(2) fvs(2)] by simp
  moreover have "stream_list (stream (allocation_map sv2)) = stream_list (stream (allocation_map sv)) @ (evs @ fvs)"
    using evs(1) fvs(1) by simp
  moreover have "\<not> stream_enabled (allocation_map sv) \<longrightarrow> evs @ fvs = []" using evs(3) fvs(3) by simp
  ultimately show ?thesis
    unfolding wrote_def
    using nb mem_write_append [OF wroteD(1) [OF a] wroteD(1) [OF b]] wroteD(2) [OF b] by blast
qed

lemma mem_write_ok: "at + length bs \<le> length m \<Longrightarrow> \<exists>m'. mem_write at bs m = Some m' \<and> length m' = length m"
  by (simp add: mem_write.simps)

lemma mem_write_change:
  assumes m: "mem_write at bs m = Some m'" and ne: "m' ! p \<noteq> m ! p"
  shows "at \<le> p \<and> p < at + length bs"
proof (cases "p < length m")
  case True
  with ne mem_write_nth [OF m, of p] show ?thesis by (simp split: if_splits)
next
  case False
  with m have "m' ! p = m ! p" by (auto simp: mem_write.simps nth_append split: if_splits)
  with ne show ?thesis by simp
qed

lemma set_range_marks:
  assumes ok: "srv_ok sv" and n: "0 < unat n" and le: "unat from + unat n \<le> unat (serve_size sv)" and rm: "room sv 1"
  shows "\<exists>bs'. bitset_set_range (allocation_map sv) from n = Done bs'
     \<and> wf_bitset bs' \<and> same_shape (allocation_map sv) bs'
     \<and> (\<forall>p < unat (serve_size sv). bs_bit bs' p \<longleftrightarrow>
          in_chunks (allocation_map sv) (unat from) (unat n) p \<or> bs_bit (allocation_map sv) p)
     \<and> stream_list (stream bs') = stream_list (stream (allocation_map sv)) @
          (if stream_enabled (allocation_map sv)
           then [\<lparr>event = BITSET_STREAM_SET, entry_from = from, entry_len = n\<rparr>] else [])"
proof -
  let ?bs = "allocation_map sv"
  have wf: "wf_bitset ?bs" "bs_size ?bs = serve_size sv" using ok by (simp_all add: srv_ok_def)
  have nb: "\<not> (stream_enabled ?bs \<and> bitset_stream_size ?bs = BITSET_STREAM_SIZE)"
    using rm by (auto simp: room_def)
  have "unat from + unat n \<le> unat (bs_size ?bs)" using le wf by simp
  from bitset_set_range_spec [OF wf(1) n wf(1) n this] nb obtain bs'
    where "bitset_set_range ?bs from n = Done bs'" "range_effect True BITSET_STREAM_SET ?bs from n bs'" by auto
  then show ?thesis
    using nb wf by (intro exI [of _ bs'])
      (auto simp: range_effect_def wf_bitset_def stream_inv_def bitset_stream_size_def)
qed

lemma srv_ok_marked:
  assumes ok: "srv_ok sv" and m: "mem_write (unat from) bs (file_map sv) = Some m" and n: "length bs = unat n"
    and bs': "wf_bitset bs'" "same_shape (allocation_map sv) bs'"
      "\<forall>p < unat (serve_size sv). bs_bit bs' p \<longleftrightarrow>
          in_chunks (allocation_map sv) (unat from) (unat n) p \<or> bs_bit (allocation_map sv) p"
  shows "srv_ok (sv\<lparr>file_map := m, allocation_map := bs'\<rparr>)"
proof -
  have lm: "length m = length (file_map sv)" using m by (auto simp: mem_write.simps split: if_splits)
  have "m ! p = 0" if p: "p < unat (serve_size sv)" "\<not> bs_bit bs' p" for p
  proof -
    from p bs'(3) have "\<not> in_chunks (allocation_map sv) (unat from) (unat n) p" "\<not> bs_bit (allocation_map sv) p"
      by auto
    moreover from this have "\<not> (unat from \<le> p \<and> p < unat from + unat n)" using in_chunks_cover by blast
    ultimately show ?thesis
      using mem_write_nth [OF m, of p] p(1) ok n by (auto simp: srv_ok_def sparse_def)
  qed
  with ok bs'(1,2) lm show ?thesis by (simp add: srv_ok_def sparse_def same_shapeD)
qed

lemma mark_written:
  assumes ok: "srv_ok (serve c)" and n: "length bs = unat n" "0 < unat n"
    and le: "unat from + unat n \<le> unat (serve_size (serve c))"
    and rm: "room (serve c) 1" and m: "mem_write (unat from) bs (file_map (serve c)) = Some m"
    and fresh: "\<forall>p < unat (serve_size (serve c)). in_chunks (allocation_map (serve c)) (unat from) (unat n) p \<longrightarrow>
      bs_bit (allocation_map (serve c)) p \<or> (\<exists>i < length bs. bs ! i \<noteq> 0 \<and> (unat from + i) div 4096 = p div 4096)"
  shows "\<exists>sv. map_set_range from n (put_file m c) = Ret () (c\<lparr>serve := sv\<rparr>) \<and> wrote 1 (unat from) bs (serve c) sv"
proof -
  let ?sv = "serve c"
  let ?bs = "allocation_map ?sv"
  from set_range_marks [OF ok n(2) le rm] obtain bs' where b: "bitset_set_range ?bs from n = Done bs'"
    and r: "wf_bitset bs'" "same_shape ?bs bs'"
      "\<forall>p < unat (serve_size ?sv). bs_bit bs' p \<longleftrightarrow> in_chunks ?bs (unat from) (unat n) p \<or> bs_bit ?bs p"
      "stream_list (stream bs') = stream_list (stream ?bs) @
         (if stream_enabled ?bs then [\<lparr>event = BITSET_STREAM_SET, entry_from = from, entry_len = n\<rparr>] else [])"
    by blast
  define sv where "sv = ?sv\<lparr>file_map := m, allocation_map := bs'\<rparr>"
  let ?evs = "if stream_enabled ?bs then [\<lparr>event = BITSET_STREAM_SET, entry_from = from, entry_len = n\<rparr>] else []"
  have ok': "srv_ok sv" unfolding sv_def by (rule srv_ok_marked [OF ok m n(1) r(1-3)])
  have "wrote 1 (unat from) bs ?sv sv"
    unfolding wrote_def
  proof (intro conjI allI impI)
    show "\<exists>i < length bs. bs ! i \<noteq> 0 \<and> (unat from + i) div 4096 = p div 4096"
      if "p < unat (serve_size ?sv)" "bs_bit (allocation_map sv) p \<and> \<not> bs_bit ?bs p" for p
      using r(3) fresh [rule_format, OF that(1)] that by (auto simp: sv_def)
    show "\<exists>evs. stream_list (stream (allocation_map sv)) = stream_list (stream ?bs) @ evs
        \<and> write_events 1 (unat from) (length bs) evs \<and> (\<not> stream_enabled ?bs \<longrightarrow> evs = [])
        \<and> (stream_enabled ?bs \<longrightarrow> (\<forall>p. file_map sv ! p \<noteq> file_map ?sv ! p \<longrightarrow> (\<exists>e\<in>set evs. covers e p)))"
      using r(4) n mem_write_change [OF m]
      by (intro exI [of _ ?evs]) (auto simp: sv_def write_events_def covers_def)
  qed (use m r(2,3) ok' in \<open>simp_all add: sv_def\<close>)
  moreover have "map_set_range from n (put_file m c) = Ret () (c\<lparr>serve := sv\<rparr>)"
    using b by (simp add: map_set_range_def put_file_def put_map_def sv_def)
  ultimately show ?thesis by blast
qed

lemma wrote_zeros:
  assumes ok: "srv_ok sv" and le: "from + length bs \<le> unat (serve_size sv)"
    and z: "\<forall>i < length bs. bs ! i = 0 \<and> \<not> bs_bit (allocation_map sv) (from + i)"
  shows "wrote 0 from bs sv sv"
proof -
  have "mem_write from bs (file_map sv) = Some (file_map sv)"
    using ok le z by (intro mem_write_zeros) (auto simp: srv_ok_def sparse_def)
  with ok show ?thesis by (simp add: wrote_def write_events_def)
qed

lemma write_events_mono: "k \<le> l \<Longrightarrow> write_events k from n evs \<Longrightarrow> write_events l from n evs"
  by (simp add: write_events_def)

lemma wrote_mono:
  assumes "k \<le> l" "wrote k from bs sv sv'"
  shows "wrote l from bs sv sv'"
  using assms(2) write_events_mono [OF assms(1)] unfolding wrote_def by blast

lemma room_wrote:
  assumes "wrote k from bs sv sv'" "room sv (k + l)"
  shows "room sv' l"
proof -
  from wroteD(7) [OF assms(1)] obtain evs where
    "stream_list (stream (allocation_map sv')) = stream_list (stream (allocation_map sv)) @ evs" "length evs \<le> k"
    by (auto simp: write_events_def)
  from arg_cong [OF this(1), of length] this(2) assms(2) wrote_kept(5) [OF assms(1)]
  show ?thesis by (auto simp: room_def bitset_stream_size_def)
qed

subsection \<open>Correctness of the write path\<close>

lemma sock_read_ok:
  assumes "n \<le> length (rd_data (sock_in c))"
  shows "\<exists>es e. sock_read n c = (take n (rd_data (sock_in c)), IoDone, c\<lparr>sock_in := es, errno := e\<rparr>)
    \<and> rd_data es = drop n (rd_data (sock_in c)) \<and> rd_stop es = rd_stop (sock_in c)"
proof -
  from readloop_ok [OF assms] obtain es where
    "readloop n (sock_in c) = (take n (rd_data (sock_in c)), IoDone, es)"
    "rd_data es = drop n (rd_data (sock_in c))" "rd_stop es = rd_stop (sock_in c)" by blast
  then show ?thesis
    by (intro exI [of _ es] exI [of _ "errno_after (errno c) (take (length (sock_in c) - length es) (sock_in c))"])
      (simp add: sock_read_def)
qed

lemma blockrun_at_nat:
  assumes "0 < unat run"
  shows "unat (blockrun_at from run) = min (4096 - unat from mod 4096) (unat run)"
proof -
  have "unat (from mod 4096) = unat from mod 4096" by (simp add: unat_mod_distrib)
  moreover have "unat (4096 - from mod 4096) = 4096 - unat from mod 4096"
    by (subst unat_sub_u64) (simp_all add: calculation)
  ultimately show ?thesis
    by (auto simp: blockrun_at_def block_allocation_resolution_def Let_def word_less_nat_alt min_def)
qed

lemma block_chunk:
  assumes "0 < n" "n \<le> 4096 - from mod (4096 :: nat)" "from \<le> q" "q < from + n"
  shows "q div 4096 = from div 4096"
proof -
  define a b where "a = from div 4096" and "b = from mod 4096"
  then have "from": "from = 4096 * a + b" and b: "b < 4096" by simp_all
  have "n + b \<le> 4096" using assms(2) b by (simp add: b_def)
  then have "q div 4096 = a" using assms "from" by (intro div_nat_eqI) auto
  then show ?thesis by (simp add: a_def)
qed

lemma write_block_ok:
  fixes n :: u64
  assumes ok: "srv_ok (serve c)" and n: "length bs = unat n" "0 < unat n" "unat n \<le> 4096 - unat from mod 4096"
    and le: "unat from + unat n \<le> unat (serve_size (serve c))" and rm: "room (serve c) 1"
    and clear: "\<not> bs_bit (allocation_map (serve c)) (unat from)"
  shows "\<exists>sv. write_block from bs c = Ret () (c\<lparr>serve := sv\<rparr>) \<and> wrote 1 (unat from) bs (serve c) sv"
proof -
  let ?sv = "serve c"
  have r: "res (allocation_map ?sv) = 4096" using ok by (simp add: srv_ok_def)
  have ch: "(unat from + i) div 4096 = unat from div 4096" if "i < length bs" for i
    by (rule block_chunk [OF n(2,3)]) (use that n(1) in auto)
  have ne: "bs \<noteq> []" using n by auto
  show ?thesis
  proof (cases "all_zeros bs")
    case True
    with all_zeros_iff [OF ne] have "\<forall>i < length bs. bs ! i = 0" by blast
    moreover have "\<not> bs_bit (allocation_map ?sv) (unat from + i)" if "i < length bs" for i
      using clear ch [OF that] by (simp add: bs_bit_def r)
    ultimately have "wrote 0 (unat from) bs ?sv ?sv" using ok le n(1) by (intro wrote_zeros) auto
    then have "wrote 1 (unat from) bs ?sv ?sv" by (rule wrote_mono [rotated]) simp
    with True show ?thesis by (intro exI [of _ ?sv]) (simp add: write_block_def)
  next
    case False
    then obtain i where i: "i < length bs" "bs ! i \<noteq> 0" using all_zeros_iff [OF ne] by blast
    obtain m where m: "mem_write (unat from) bs (file_map ?sv) = Some m"
      using mem_write_ok [of "unat from" bs "file_map ?sv"] ok le n(1) by (auto simp: srv_ok_def)
    have "\<forall>p < unat (serve_size ?sv). in_chunks (allocation_map ?sv) (unat from) (unat n) p \<longrightarrow>
      bs_bit (allocation_map ?sv) p \<or> (\<exists>i < length bs. bs ! i \<noteq> 0 \<and> (unat from + i) div 4096 = p div 4096)"
    proof (intro allI impI)
      fix p assume that: "in_chunks (allocation_map ?sv) (unat from) (unat n) p"
      have "(unat from + unat n - 1) div 4096 = unat from div 4096"
        using n by (intro block_chunk [OF n(2,3)]) auto
      with that have "p div 4096 = unat from div 4096" by (simp add: in_chunks_def r)
      with i ch [OF i(1)] show "bs_bit (allocation_map ?sv) p
          \<or> (\<exists>i < length bs. bs ! i \<noteq> 0 \<and> (unat from + i) div 4096 = p div 4096)"
        by (intro disjI2 exI [of _ i]) simp
    qed
    from mark_written [OF ok n(1,2) le rm m this] obtain sv where
      "map_set_range from n (put_file m c) = Ret () (c\<lparr>serve := sv\<rparr>)" "wrote 1 (unat from) bs ?sv sv" by blast
    moreover have "of_nat (length bs) = n" using n(1) by simp
    ultimately show ?thesis using False m by (intro exI [of _ sv]) (simp add: write_block_def)
  qed
qed

lemma nblocks_split:
  assumes "0 < n" "(from + n) mod 4096 = 0 \<or> m = 0"
  shows "nblocks from (n + m) = nblocks from n + nblocks (from + n) m"
proof (cases "m = 0")
  case False
  with assms obtain q where q: "from + n = 4096 * q" by auto
  define x f where "x = (from + n + m - 1) div 4096" and "f = from div 4096"
  have e1: "(from + n - 1) div 4096 = q - 1" using q assms(1) by (intro div_nat_eqI) auto
  have q0: "0 < q" using q assms(1) by (intro gr0I) simp
  have f: "f \<le> q - 1" unfolding e1 [symmetric] f_def using assms(1) by (intro div_le_mono) simp
  have "q * 4096 \<le> from + n + m - 1" using q False by simp
  then have x: "q \<le> x" unfolding x_def by (subst less_eq_div_iff_mult_less_eq) simp_all
  have "nblocks from (n + m) = x - f + 1" using False by (simp add: nblocks_def x_def f_def add.assoc)
  moreover have "nblocks from n = q - 1 - f + 1" using assms(1) e1 by (simp add: nblocks_def f_def)
  moreover have "(from + n) div 4096 = q" using q by simp
  then have "nblocks (from + n) m = x - q + 1" using False by (simp add: nblocks_def x_def)
  ultimately show ?thesis using f x q0 by linarith
qed (simp add: nblocks_def)

lemma nblocks_one: "0 < n \<Longrightarrow> n \<le> 4096 - from mod 4096 \<Longrightarrow> nblocks from n = 1"
  using block_chunk [of n "from" "from + n - 1"] by (simp add: nblocks_def)

lemma to_boundary: "from + (4096 - from mod 4096) = 4096 * (from div 4096 + 1 :: nat)"
proof -
  have "from mod 4096 < 4096" by simp
  then have "4096 * (from div 4096) + from mod 4096 + (4096 - from mod 4096) = 4096 * (from div 4096 + 1)"
    by (simp only: add.assoc le_add_diff_inverse less_imp_le) simp
  then show ?thesis by (simp only: mult_div_mod_eq)
qed

lemma blockrun_split:
  assumes run: "0 < unat run" and b: "b = blockrun_at from run"
  shows "0 < unat b" "unat b \<le> unat run" "unat b \<le> 4096 - unat from mod 4096"
    "unat b < unat run \<Longrightarrow> unat from + unat b = 4096 * (unat from div 4096 + 1)"
    "nblocks (unat from) (unat run) = 1 + nblocks (unat from + unat b) (unat run - unat b)"
proof -
  have eq: "unat b = min (4096 - unat from mod 4096) (unat run)"
    unfolding b by (rule blockrun_at_nat [OF run])
  have "unat from mod 4096 < 4096" by simp
  with eq run show b0: "0 < unat b" "unat b \<le> unat run" "unat b \<le> 4096 - unat from mod 4096" by auto
  show al: "unat from + unat b = 4096 * (unat from div 4096 + 1)" if "unat b < unat run"
  proof -
    have "unat b = 4096 - unat from mod 4096" using that eq by (simp add: min_def split: if_splits)
    then show ?thesis by (simp only: to_boundary)
  qed
  have "(unat from + unat b) mod 4096 = 0 \<or> unat run - unat b = 0" using al b0(2) by fastforce
  from nblocks_split [OF b0(1) this] nblocks_one [OF b0(1,3)] b0(2)
  show "nblocks (unat from) (unat run) = 1 + nblocks (unat from + unat b) (unat run - unat b)" by simp
qed

lemma later_block_clear:
  assumes w: "wrote k at bs sv sv'" and one: "0 < n" "n \<le> 4096 - at mod 4096" "length bs \<le> n"
    and q: "at div 4096 < q div 4096" "q < unat (serve_size sv)" "\<not> bs_bit (allocation_map sv) q"
  shows "\<not> bs_bit (allocation_map sv') q"
proof
  assume "bs_bit (allocation_map sv') q"
  with wroteD(6) [OF w q(2) _ q(3)] obtain i
    where i: "i < length bs" "(at + i) div 4096 = q div 4096" by blast
  have "(at + i) div 4096 = at div 4096" by (rule block_chunk [OF one(1,2)]) (use i one(3) in auto)
  with i q(1) show False by simp
qed

text \<open>\<open>took_in k at n c c'\<close>: from \<open>c\<close> to \<open>c'\<close> the client thread has stored the next \<open>n\<close> bytes of its
  socket at offset \<open>at\<close> of the file, with at most \<open>k\<close> new events, and nothing else has happened.\<close>

definition took_in :: "nat \<Rightarrow> nat \<Rightarrow> nat \<Rightarrow> client \<Rightarrow> client \<Rightarrow> bool" where
  "took_in k at n c c' \<longleftrightarrow>
     wrote k at (take n (rd_data (sock_in c))) (serve c) (serve c')
     \<and> rd_data (sock_in c') = drop n (rd_data (sock_in c)) \<and> n \<le> length (rd_data (sock_in c))
     \<and> c' = c\<lparr>sock_in := sock_in c', errno := errno c', serve := serve c'\<rparr>"

lemma took_inI:
  assumes "wrote k at (take n (rd_data (sock_in c))) (serve c) sv" "rd_data es = drop n (rd_data (sock_in c))"
    "n \<le> length (rd_data (sock_in c))"
  shows "took_in k at n c (c\<lparr>sock_in := es, errno := e, serve := sv\<rparr>)"
  using assms by (simp add: took_in_def)

lemma took_inD:
  assumes "took_in k at n c c'"
  shows "wrote k at (take n (rd_data (sock_in c))) (serve c) (serve c')"
    "rd_data (sock_in c') = drop n (rd_data (sock_in c))"
    "c' = c\<lparr>sock_in := sock_in c', errno := errno c', serve := serve c'\<rparr>"
    "srv_ok (serve c')" "serve_size (serve c') = serve_size (serve c)"
    "n \<le> length (rd_data (sock_in c))"
  using assms wroteD(2) wrote_kept(1) by (simp_all only: took_in_def) blast+

lemma took_inE:
  assumes "took_in k at n c c'"
  obtains sv es e where "c' = c\<lparr>sock_in := es, errno := e, serve := sv\<rparr>"
    "wrote k at (take n (rd_data (sock_in c))) (serve c) sv" "rd_data es = drop n (rd_data (sock_in c))"
  using took_inD(1-3) [OF assms] by blast

lemma took_in_append:
  assumes a: "took_in k at n c c1" and b: "took_in l (at + n) m c1 c2"
  shows "took_in (k + l) at (n + m) c c2"
proof -
  note a' = a [unfolded took_in_def] and b' = b [unfolded took_in_def]
  have n: "length (take n (rd_data (sock_in c))) = n" using a' by simp
  have "wrote (k + l) at (take n (rd_data (sock_in c)) @ take m (drop n (rd_data (sock_in c)))) (serve c) (serve c2)"
    by (rule wrote_append [of _ _ _ _ "serve c1"]) (use a' b' n in auto)
  moreover have "c2 = c\<lparr>sock_in := sock_in c2, errno := errno c2, serve := serve c2\<rparr>"
  proof -
    have "c2 = c1\<lparr>sock_in := sock_in c2, errno := errno c2, serve := serve c2\<rparr>" using b' by blast
    also have "\<dots> = c\<lparr>sock_in := sock_in c1, errno := errno c1, serve := serve c1\<rparr>
        \<lparr>sock_in := sock_in c2, errno := errno c2, serve := serve c2\<rparr>" using a' by metis
    finally show ?thesis by simp
  qed
  moreover have "rd_data (sock_in c2) = drop (n + m) (rd_data (sock_in c))"
    using a' b' by (simp add: add.commute)
  moreover have "n + m \<le> length (rd_data (sock_in c))" using a' b' by auto
  ultimately show ?thesis by (simp only: took_in_def take_add)
qed

lemma took_in_none: "srv_ok (serve c) \<Longrightarrow> at \<le> unat (serve_size (serve c)) \<Longrightarrow> took_in 0 at 0 c c"
  by (simp add: took_in_def wrote_zeros)

lemma room_took_in: "took_in k at n c c' \<Longrightarrow> room (serve c) (k + l) \<Longrightarrow> room (serve c') l"
  using room_wrote took_inD(1) by blast

lemma took_in_mono: "k \<le> l \<Longrightarrow> took_in k at n c c' \<Longrightarrow> took_in l at n c c'"
  using wrote_mono by (simp add: took_in_def)

lemma first_block_ok:
  assumes ok: "srv_ok (serve c)" and b: "0 < unat b" "unat b \<le> 4096 - unat from mod 4096"
    and le: "unat from + unat b \<le> unat (serve_size (serve c))" and data: "unat b \<le> length (rd_data (sock_in c))"
    and rm: "room (serve c) 1" and clear: "\<not> bs_bit (allocation_map (serve c)) (unat from)"
  shows "\<exists>d c1 c2. read_into_buffer b c = Ret d c1 \<and> write_block from d c1 = Ret () c2
     \<and> took_in 1 (unat from) (unat b) c c2"
proof -
  let ?d = "take (unat b) (rd_data (sock_in c))"
  have ld: "length ?d = unat b" using data by simp
  from sock_read_ok [OF data] obtain es e
    where r: "sock_read (unat b) c = (?d, IoDone, c\<lparr>sock_in := es, errno := e\<rparr>)"
      "rd_data es = drop (unat b) (rd_data (sock_in c))" by blast
  let ?c1 = "c\<lparr>sock_in := es, errno := e\<rparr>"
  have "\<exists>sv. write_block from ?d ?c1 = Ret () (?c1\<lparr>serve := sv\<rparr>) \<and> wrote 1 (unat from) ?d (serve ?c1) sv"
    by (rule write_block_ok [OF _ ld b]) (use ok le rm clear in simp_all)
  then obtain sv where "write_block from ?d ?c1 = Ret () (c\<lparr>sock_in := es, errno := e, serve := sv\<rparr>)"
      "wrote 1 (unat from) ?d (serve c) sv" by auto
  moreover have "read_into_buffer b c = Ret ?d ?c1" using r(1) by (simp add: read_into_buffer_def)
  ultimately show ?thesis using took_inI [OF _ r(2) data] by blast
qed

lemma write_blocks_ok:
  assumes "srv_ok (serve c)" "unat from + unat run \<le> unat (serve_size (serve c))" "unat run \<le> unat len"
    "unat run \<le> length (rd_data (sock_in c))"
    "\<forall>q. unat from \<le> q \<and> q < unat from + unat run \<longrightarrow> \<not> bs_bit (allocation_map (serve c)) q"
    "room (serve c) (nblocks (unat from) (unat run))"
  shows "\<exists>c'. write_blocks from len run c = Ret (from + run, len - run) c'
     \<and> took_in (nblocks (unat from) (unat run)) (unat from) (unat run) c c'"
  using assms
proof (induction "unat run" arbitrary: "from" len run c rule: less_induct)
  case less
  note prems = less.prems
  show ?case
  proof (cases "run = 0")
    case True
    with took_in_none [OF prems(1)] prems(2) show ?thesis by (simp add: write_blocks.simps nblocks_def)
  next
    case False
    then have run: "0 < unat run" by (simp add: unat_gt_0)
    define b where "b = blockrun_at from run"
    note b0 = blockrun_split [OF run b_def]
    have "\<not> bs_bit (allocation_map (serve c)) (unat from)" using prems(5) run by auto
    moreover have "room (serve c) 1" using prems(6) b0(5) by (auto simp: room_def)
    moreover have "unat from + unat b \<le> unat (serve_size (serve c))" "unat b \<le> length (rd_data (sock_in c))"
      using prems(2,4) b0(2) by linarith+
    ultimately obtain d c1 c2 where w: "read_into_buffer b c = Ret d c1" "write_block from d c1 = Ret () c2"
        "took_in 1 (unat from) (unat b) c c2" using first_block_ok [OF prems(1) b0(1,3)] by blast
    note t = took_inD [OF w(3)]
    have fb: "unat (from + b) = unat from + unat b"
      by (rule unat_add_u64, rule order_le_less_trans [of _ "unat (serve_size (serve c))"])
        (use prems(2) b0(2) in simp_all)
    have rb: "unat (run - b) = unat run - unat b" "unat (len - b) = unat len - unat b"
      using b0(2) prems(3) by (simp_all add: unat_sub_u64)
    have "\<not> bs_bit (allocation_map (serve c2)) q" if q: "unat from + unat b \<le> q" "q < unat from + unat run" for q
    proof (rule later_block_clear [OF t(1) b0(1,3)])
      have "unat from div 4096 + 1 \<le> q div 4096"
        using b0(4) q by (subst less_eq_div_iff_mult_less_eq) auto
      then show "unat from div 4096 < q div 4096" by simp
    qed (use q prems(2,5) in auto)
    moreover have "room (serve c2) (nblocks (unat from + unat b) (unat run - unat b))"
      using room_took_in [OF w(3)] prems(6) b0(5) by simp
    moreover have "unat run - unat b < unat run" "unat run - unat b \<le> length (rd_data (sock_in c2))"
      using prems(4) b0(1) t(2) run by auto
    ultimately have "\<exists>c'. write_blocks (from + b) (len - b) (run - b) c2
          = Ret (from + b + (run - b), len - b - (run - b)) c'
        \<and> took_in (nblocks (unat (from + b)) (unat (run - b))) (unat (from + b)) (unat (run - b)) c2 c'"
      using prems(2,3) b0(2) t(4,5) by (intro less.hyps) (auto simp: rb fb)
    then obtain c' where ih: "write_blocks (from + b) (len - b) (run - b) c2 = Ret (from + run, len - run) c'"
        "took_in (nblocks (unat from + unat b) (unat run - unat b)) (unat from + unat b) (unat run - unat b) c2 c'"
      by (auto simp: rb fb)
    have "write_blocks from len run c = Ret (from + run, len - run) c'"
      using False ih(1) w(1,2) by (subst write_blocks.simps) (simp add: b_def [symmetric] word_neq_0_conv Let_def)
    with took_in_append [OF w(3) ih(2)] b0(2) show ?thesis unfolding b0(5) by simp
  qed
qed

lemma chunk_representative:
  assumes "0 < n" "from div 4096 \<le> p div 4096" "p div 4096 \<le> (from + n - 1) div (4096 :: nat)"
  shows "\<exists>q. from \<le> q \<and> q < from + n \<and> q div 4096 = p div 4096"
proof (cases "from div 4096 = p div 4096")
  case True
  with assms(1) show ?thesis by (intro exI [of _ "from"]) simp
next
  case False
  with assms(2) have "from div 4096 < p div 4096" by simp
  then have "from < 4096 * (p div 4096)" by (simp add: div_less_iff_less_mult mult.commute)
  moreover have "p div 4096 * 4096 \<le> from + n - 1"
    using assms(3) by (subst (asm) less_eq_div_iff_mult_less_eq) simp_all
  ultimately show ?thesis using assms(1) by (intro exI [of _ "4096 * (p div 4096)"]) auto
qed

lemma bitset_run_count_eq:
  "bitset_run_count_ex bs from len = Some (run, v) \<Longrightarrow> bitset_run_count bs from len = Some run"
  by (simp add: bitset_run_count_def)

lemma div_pred: "n mod 4096 \<noteq> 0 \<Longrightarrow> (n - 1) div 4096 = n div (4096 :: nat)"
proof -
  assume "n mod 4096 \<noteq> 0"
  then obtain k where k: "n mod 4096 = Suc k" by (auto simp: gr0_conv_Suc)
  moreover have "n mod 4096 < 4096" by simp
  ultimately have "k < 4096" by linarith
  moreover have "n = 4096 * (n div 4096) + Suc k" using mult_div_mod_eq [of 4096 n] k by simp
  then have "n - 1 = 4096 * (n div 4096) + k" by linarith
  ultimately show ?thesis by (simp only: div_mult_self4 div_less)
qed

lemma run_ends_on_boundary:
  assumes "res bs = 4096" "0 < n" "bs_bit bs (from + n) \<noteq> v" "\<forall>q. from \<le> q \<and> q < from + n \<longrightarrow> bs_bit bs q = v"
  shows "(from + n) mod 4096 = 0"
proof (rule ccontr)
  assume "(from + n) mod 4096 \<noteq> 0"
  then have "(from + n - 1) div 4096 = (from + n) div 4096" by (rule div_pred)
  moreover have "bs_bit bs (from + n - 1) = v" using assms(2,4) by auto
  ultimately show False using assms(1,3) by (simp add: bs_bit_def)
qed

lemma read_into_file_ok:
  assumes ok: "srv_ok (serve c)" and run: "0 < unat run" and le: "unat from + unat run \<le> unat (serve_size (serve c))"
    and data: "unat run \<le> length (rd_data (sock_in c))" and rm: "room (serve c) 1"
    and set: "\<forall>p < unat (serve_size (serve c)). in_chunks (allocation_map (serve c)) (unat from) (unat run) p \<longrightarrow>
      bs_bit (allocation_map (serve c)) p"
  shows "\<exists>c'. and_then (read_into_file from run c) (\<lambda>_. map_set_range from run) = Ret () c'
     \<and> took_in 1 (unat from) (unat run) c c'"
proof -
  let ?d = "take (unat run) (rd_data (sock_in c))"
  have ld: "length ?d = unat run" using data by simp
  from sock_read_ok [OF data] obtain es e
    where r: "sock_read (unat run) c = (?d, IoDone, c\<lparr>sock_in := es, errno := e\<rparr>)"
      "rd_data es = drop (unat run) (rd_data (sock_in c))" by blast
  let ?c1 = "c\<lparr>sock_in := es, errno := e\<rparr>"
  obtain m where m: "mem_write (unat from) ?d (file_map (serve c)) = Some m"
    using mem_write_ok [of "unat from" ?d "file_map (serve c)"] ok le ld by (auto simp: srv_ok_def)
  have "\<exists>sv. map_set_range from run (put_file m ?c1) = Ret () (?c1\<lparr>serve := sv\<rparr>)
      \<and> wrote 1 (unat from) ?d (serve ?c1) sv"
    by (rule mark_written) (use ok ld run le rm m set in simp_all)
  then obtain sv where "map_set_range from run (put_file m ?c1) = Ret () (c\<lparr>sock_in := es, errno := e, serve := sv\<rparr>)"
      "wrote 1 (unat from) ?d (serve c) sv" by auto
  with r m took_inI [OF _ r(2) data] show ?thesis by (auto simp: read_into_file_def)
qed

definition write_run :: "u64 \<Rightarrow> u64 \<Rightarrow> u64 \<Rightarrow> (u64 \<times> u64) client_op" where
  "write_run from len run c =
     (if bs_bit (allocation_map (serve c)) (unat from)
      then and_then (and_then (read_into_file from run c) (\<lambda>_. map_set_range from run))
             (\<lambda>_. Ret (from + run, len - run))
      else write_blocks from len run c)"

lemma write_run_ok:
  assumes ok: "srv_ok (serve c)" and run: "0 < unat run" "unat run \<le> unat len"
    and le: "unat from + unat run \<le> unat (serve_size (serve c))"
    and data: "unat run \<le> length (rd_data (sock_in c))"
    and rm: "room (serve c) (nblocks (unat from) (unat run))"
    and same: "\<forall>q. unat from \<le> q \<and> q < unat from + unat run \<longrightarrow>
      bs_bit (allocation_map (serve c)) q = bs_bit (allocation_map (serve c)) (unat from)"
  shows "\<exists>c'. write_run from len run c = Ret (from + run, len - run) c'
     \<and> took_in (nblocks (unat from) (unat run)) (unat from) (unat run) c c'"
proof (cases "bs_bit (allocation_map (serve c)) (unat from)")
  case False
  with same write_blocks_ok [OF ok le run(2) data _ rm] show ?thesis by (simp add: write_run_def)
next
  case True
  have r: "res (allocation_map (serve c)) = 4096" using ok by (simp add: srv_ok_def)
  have one: "1 \<le> nblocks (unat from) (unat run)" using run by (simp add: nblocks_def)
  have "bs_bit (allocation_map (serve c)) p"
    if "in_chunks (allocation_map (serve c)) (unat from) (unat run) p" for p
  proof -
    from chunk_representative [OF run(1), of "unat from" p] that obtain q
      where "unat from \<le> q" "q < unat from + unat run" "q div 4096 = p div 4096" by (auto simp: in_chunks_def r)
    moreover from this same True have "bs_bit (allocation_map (serve c)) q" by blast
    ultimately show ?thesis by (simp add: bs_bit_def r)
  qed
  then have "\<exists>c'. and_then (read_into_file from run c) (\<lambda>_. map_set_range from run) = Ret () c'
     \<and> took_in 1 (unat from) (unat run) c c'"
    using ok run le data rm one by (intro read_into_file_ok) (auto simp: room_def)
  then show ?thesis using True took_in_mono [OF one] by (auto simp: write_run_def)
qed

lemma write_not_zeroes_step:
  assumes "len > 0" "bitset_run_count (allocation_map (serve c)) from len = Some run0"
    "bitset_is_set_at (allocation_map (serve c)) from = Some (of_bool (bs_bit (allocation_map (serve c)) (unat from)))"
    "write_run from len (if run0 > len then len else run0) c = Ret fl c'"
  shows "write_not_zeroes from len c = write_not_zeroes (fst fl) (snd fl) c'"
proof (cases "bs_bit (allocation_map (serve c)) (unat from)")
  case True
  define run where "run = (if run0 > len then len else run0)"
  with True assms(4) have
    "and_then (read_into_file from run c) (\<lambda>_. map_set_range from run) = Ret () c'" "fl = (from + run, len - run)"
    by (auto simp: write_run_def)
  with True assms(1-3) show ?thesis
    by (subst write_not_zeroes.simps) (simp add: run_def [symmetric] Let_def del: and_then_Ret)
next
  case False
  with assms show ?thesis
    by (subst write_not_zeroes.simps) (simp add: write_run_def Let_def)
qed

text \<open>The run \<open>write_not_zeroes\<close> deals with in one turn of its loop.\<close>

lemma next_run:
  assumes ok: "srv_ok (serve c)" and le: "unat from + unat len \<le> unat (serve_size (serve c))"
    and len: "0 < unat len"
  shows "\<exists>run0 run. bitset_run_count (allocation_map (serve c)) from len = Some run0
     \<and> run = (if run0 > len then len else run0) \<and> 0 < unat run \<and> unat run \<le> unat len
     \<and> (\<forall>q. unat from \<le> q \<and> q < unat from + unat run \<longrightarrow>
          bs_bit (allocation_map (serve c)) q = bs_bit (allocation_map (serve c)) (unat from))
     \<and> nblocks (unat from) (unat len)
         = nblocks (unat from) (unat run) + nblocks (unat from + unat run) (unat len - unat run)"
proof -
  let ?map = "allocation_map (serve c)"
  have wf: "wf_bitset ?map" "bs_size ?map = serve_size (serve c)" "res ?map = 4096"
    using ok by (simp_all add: srv_ok_def)
  have fl: "unat from + unat len < 2 ^ 64" using le by (rule order_le_less_trans) simp
  have "unat from < unat (bs_size ?map)" using le len wf(2) by simp
  note spec = bitset_run_count_ex_spec [OF wf(1) this len fl]
  then obtain run0 where run0: "bitset_run_count ?map from len = Some run0" "0 < unat run0"
    "\<forall>q. unat from \<le> q \<and> q < unat from + unat run0 \<longrightarrow> bs_bit ?map q = bs_bit ?map (unat from)"
    "unat run0 < clip_len ?map (unat from) (unat len) \<longrightarrow>
        bs_bit ?map (unat from + unat run0) \<noteq> bs_bit ?map (unat from)"
    using bitset_run_count_eq by blast
  have clip: "clip_len ?map (unat from) (unat len) = unat len" using le wf(2) by (simp add: clip_len_def)
  define run where "run = (if run0 > len then len else run0)"
  have run: "0 < unat run" "unat run \<le> unat len" "unat run \<le> unat run0"
    using run0(2) len by (auto simp: run_def word_less_nat_alt)
  have "(unat from + unat run) mod 4096 = 0 \<or> unat len - unat run = 0"
  proof (cases "unat run0 < unat len")
    case True
    then have "unat run = unat run0" by (simp add: run_def word_less_nat_alt)
    then show ?thesis
      using run_ends_on_boundary [OF wf(3) run0(2) _ run0(3)] True run0(4) clip by simp
  qed (auto simp: run_def word_less_nat_alt)
  from nblocks_split [OF run(1) this] run(2)
  have "nblocks (unat from) (unat len)
      = nblocks (unat from) (unat run) + nblocks (unat from + unat run) (unat len - unat run)" by simp
  moreover have "\<forall>q. unat from \<le> q \<and> q < unat from + unat run \<longrightarrow> bs_bit ?map q = bs_bit ?map (unat from)"
    by (intro allI impI run0(3) [rule_format]) (use run(3) in linarith)
  ultimately show ?thesis using run(1,2) run0(1) run_def by blast
qed

lemma write_not_zeroes_ok:
  assumes "srv_ok (serve c)" "unat from + unat len \<le> unat (serve_size (serve c))"
    "unat len \<le> length (rd_data (sock_in c))" "room (serve c) (nblocks (unat from) (unat len))"
  shows "\<exists>c'. write_not_zeroes from len c = Some (Ret () c')
     \<and> took_in (nblocks (unat from) (unat len)) (unat from) (unat len) c c'"
  using assms
proof (induction "unat len" arbitrary: "from" len c rule: less_induct)
  case less
  note prems = less.prems
  let ?map = "allocation_map (serve c)"
  show ?case
  proof (cases "len = 0")
    case True
    with took_in_none [OF prems(1)] prems(2) show ?thesis by (simp add: write_not_zeroes.simps nblocks_def)
  next
    case False
    then have len: "0 < unat len" "len > 0" by (simp_all add: unat_gt_0 word_neq_0_conv)
    from next_run [OF prems(1,2) len(1)] obtain run0 run where
      run0: "bitset_run_count ?map from len = Some run0" "run = (if run0 > len then len else run0)"
      and run: "0 < unat run" "unat run \<le> unat len"
      and same: "\<forall>q. unat from \<le> q \<and> q < unat from + unat run \<longrightarrow> bs_bit ?map q = bs_bit ?map (unat from)"
      and sp: "nblocks (unat from) (unat len)
         = nblocks (unat from) (unat run) + nblocks (unat from + unat run) (unat len - unat run)"
      by blast
    have isset: "bitset_is_set_at ?map from = Some (of_bool (bs_bit ?map (unat from)))"
      using prems(1,2) len by (intro bitset_is_set_at_eq) (auto simp: srv_ok_def)
    have le: "unat from + unat run \<le> unat (serve_size (serve c))" using prems(2) run by linarith
    from write_run_ok [OF prems(1) run le _ _ same] prems(3,4) run(2) sp obtain c1 where st:
        "write_run from len run c = Ret (from + run, len - run) c1"
        "took_in (nblocks (unat from) (unat run)) (unat from) (unat run) c c1"
      by (auto simp: room_def)
    note t = took_inD [OF st(2)]
    have step: "write_not_zeroes from len c = write_not_zeroes (from + run) (len - run) c1"
      using write_not_zeroes_step [OF len(2) run0(1) isset st(1) [unfolded run0(2)]]
      by (simp only: fst_conv snd_conv run0(2))
    have fr: "unat (from + run) = unat from + unat run"
      by (rule unat_add_u64, rule order_le_less_trans [OF le]) simp
    have lr: "unat (len - run) = unat len - unat run" using run by (simp add: unat_sub_u64)
    have "room (serve c1) (nblocks (unat from + unat run) (unat len - unat run))"
      using room_took_in [OF st(2)] prems(4) sp by simp
    then have "\<exists>c'. write_not_zeroes (from + run) (len - run) c1 = Some (Ret () c')
        \<and> took_in (nblocks (unat (from + run)) (unat (len - run))) (unat (from + run)) (unat (len - run)) c1 c'"
      using run prems(2,3) t(2,4,5) by (intro less.hyps) (auto simp: fr lr)
    then obtain c' where ih: "write_not_zeroes (from + run) (len - run) c1 = Some (Ret () c')"
        "took_in (nblocks (unat from + unat run) (unat len - unat run)) (unat from + unat run)
           (unat len - unat run) c1 c'" by (auto simp: fr lr)
    from took_in_append [OF st(2) ih(2)] run(2) ih(1) show ?thesis unfolding step sp by simp
  qed
qed

subsection \<open>Replies\<close>

lemma sock_write_clean:
  assumes "wr_clean (sock_wr c)"
  shows "\<exists>es e. sock_write b c = (IoDone, c\<lparr>sock_wr := es, sock_out := sock_out c @ b, errno := e\<rparr>)
     \<and> wr_clean es \<and> set es \<subseteq> set (sock_wr c)"
proof -
  from writeloop_clean [OF assms] obtain es where
    "writeloop b (sock_wr c) = (b, IoDone, es)" "wr_clean es" by blast
  moreover from writeloop_spec [OF this(1)] have "set es \<subseteq> set (sock_wr c)" by blast
  ultimately show ?thesis
    by (intro exI [of _ es] exI [of _ "wr_errno_after (errno c) (take (length (sock_wr c) - length es) (sock_wr c))"])
      (simp add: sock_write_def)
qed

lemma client_write_reply_clean:
  assumes "wr_clean (sock_wr c)"
  shows "\<exists>es e. client_write_reply rq err c
      = Ret () (c\<lparr>sock_wr := es, sock_out := sock_out c @ reply_bytes (rq_handle rq) err, errno := e\<rparr>)
     \<and> wr_clean es \<and> set es \<subseteq> set (sock_wr c)"
proof -
  from sock_write_clean [OF assms, of "reply_bytes (rq_handle rq) err"] obtain es e where
    "sock_write (reply_bytes (rq_handle rq) err) c
       = (IoDone, c\<lparr>sock_wr := es, sock_out := sock_out c @ reply_bytes (rq_handle rq) err, errno := e\<rparr>)"
    "wr_clean es" "set es \<subseteq> set (sock_wr c)" by blast
  then show ?thesis
    by (intro exI [of _ es] exI [of _ e])
      (simp add: client_write_reply_def fd_write_reply_def reply_bytes_def Let_def)
qed

lemma client_read_request_ok:
  assumes "rd_data (sock_in c) = request_raw_bytes (nbd_h2r_request rq) @ rest"
  shows "\<exists>es e. client_read_request c = Ret (Some rq) (c\<lparr>sock_in := es, errno := e\<rparr>) \<and> rd_data es = rest"
proof -
  have "NBD_REQUEST_SIZE \<le> length (rd_data (sock_in c))" using assms by simp
  from sock_read_ok [OF this] obtain es e where
    "sock_read NBD_REQUEST_SIZE c = (request_raw_bytes (nbd_h2r_request rq), IoDone, c\<lparr>sock_in := es, errno := e\<rparr>)"
    "rd_data es = rest" using assms by auto
  then show ?thesis
    by (intro exI [of _ es] exI [of _ e]) (simp add: client_read_request_def)
qed

lemma in_range_check:
  assumes "unat (rq_from rq) + unat (rq_len rq) \<le> unat sz"
  shows "\<not> rq_from rq + ucast (rq_len rq) > (sz :: u64)"
proof -
  have "unat (ucast (rq_len rq) :: u64) = unat (rq_len rq)" by simp
  moreover have "unat (rq_from rq) + unat (rq_len rq) < 2 ^ 64" using assms by (rule order_le_less_trans) simp
  ultimately have "unat (rq_from rq + ucast (rq_len rq)) = unat (rq_from rq) + unat (rq_len rq)"
    by (subst unat_add_u64) simp_all
  with assms show ?thesis by (simp add: word_less_nat_alt)
qed

lemma out_of_range_check:
  assumes "unat sz < unat (rq_from rq) + unat (rq_len rq)" "unat (rq_from rq) + unat (rq_len rq) < 2 ^ 64"
  shows "rq_from rq + ucast (rq_len rq) > (sz :: u64)"
proof -
  have "unat (ucast (rq_len rq) :: u64) = unat (rq_len rq)" by simp
  with assms(2) have "unat (rq_from rq + ucast (rq_len rq)) = unat (rq_from rq) + unat (rq_len rq)"
    by (subst unat_add_u64) simp_all
  with assms show ?thesis by (simp add: word_less_nat_alt)
qed

lemma client_flush_from_ok:
  assumes "len - spliced \<le> length (rd_data (sock_in c))" "plain (sock_in c)"
  shows "\<exists>es. client_flush_from spliced len c = Some (Ret () (c\<lparr>sock_in := es\<rparr>))
      \<and> rd_data es = drop (len - spliced) (rd_data (sock_in c)) \<and> plain es"
  using assms
proof (induction "len - spliced" arbitrary: spliced c rule: less_induct)
  case less
  show ?case
  proof (cases "spliced < len")
    case False
    with less.prems show ?thesis
      by (intro exI [of _ "sock_in c"]) (simp add: client_flush_from.simps [of spliced])
  next
    case True
    obtain bs es where r: "sys_read (len - spliced) (sock_in c) = (Inr bs, es)" "bs \<noteq> []" "plain es"
      "rd_data (sock_in c) = bs @ rd_data es"
      using sys_read_plain_any [OF less.prems(2), of "len - spliced"] less.prems(1) True by fastforce
    from r(1) have lb: "length bs \<le> len - spliced" by (auto dest: sys_read_length)
    have "len - (spliced + length bs) < len - spliced" using r(2) True by (cases bs) auto
    moreover have "len - (spliced + length bs) \<le> length (rd_data es)" using less.prems(1) r(4) by auto
    ultimately obtain es' where
      "client_flush_from (spliced + length bs) len (c\<lparr>sock_in := es\<rparr>) = Some (Ret () (c\<lparr>sock_in := es'\<rparr>))"
      "rd_data es' = drop (len - (spliced + length bs)) (rd_data es)" "plain es'"
      using less.hyps [of "spliced + length bs" "c\<lparr>sock_in := es\<rparr>"] r(3) by auto
    with r lb True show ?thesis
      by (intro exI [of _ es']) (simp add: client_flush_from.simps [of spliced])
  qed
qed

lemma write_path_ok:
  assumes "srv_ok (serve c)" "unat (rq_from rq) + unat (rq_len rq) \<le> unat (serve_size (serve c))"
    "unat (rq_len rq) \<le> length (rd_data (sock_in c))" "allocation_map_built (serve c)"
    "room (serve c) (nblocks (unat (rq_from rq)) (unat (rq_len rq)))" "msync_fails c = []" "wr_clean (sock_wr c)"
  shows "\<exists>c'. client_reply_to_write rq c = Ret () c'
     \<and> wrote (nblocks (unat (rq_from rq)) (unat (rq_len rq))) (unat (rq_from rq))
         (take (unat (rq_len rq)) (rd_data (sock_in c))) (serve c) (serve c')
     \<and> rd_data (sock_in c') = drop (unat (rq_len rq)) (rd_data (sock_in c))
     \<and> sock_out c' = sock_out c @ reply_bytes (rq_handle rq) 0
     \<and> synced c' \<noteq> synced c \<and> wr_clean (sock_wr c')"
proof -
  let ?len = "ucast (rq_len rq) :: u64"
  have "\<exists>c'. write_not_zeroes (rq_from rq) ?len c = Some (Ret () c')
     \<and> took_in (nblocks (unat (rq_from rq)) (unat ?len)) (unat (rq_from rq)) (unat ?len) c c'"
    using assms by (intro write_not_zeroes_ok) simp_all
  then obtain c1 where w0: "write_not_zeroes (rq_from rq) ?len c = Some (Ret () c1)"
      "took_in (nblocks (unat (rq_from rq)) (unat (rq_len rq))) (unat (rq_from rq)) (unat (rq_len rq)) c c1"
    by auto
  from took_inE [OF w0(2)] obtain sv es e where w: "c1 = c\<lparr>sock_in := es, errno := e, serve := sv\<rparr>"
      "wrote (nblocks (unat (rq_from rq)) (unat (rq_len rq))) (unat (rq_from rq))
         (take (unat (rq_len rq)) (rd_data (sock_in c))) (serve c) sv"
      "rd_data es = drop (unat (rq_len rq)) (rd_data (sock_in c))" .
  obtain x y c2 where m: "client_reply_to_write rq c = client_write_reply rq 0 c2"
      "c2 = c\<lparr>sock_in := es, errno := e, serve := sv, msync_fails := [], synced := synced c @ [(x, y)]\<rparr>"
    using w0(1) w(1) assms(4,6) by (auto simp: client_reply_to_write_def or_spins_def msync_def Let_def)
  moreover have "wr_clean (sock_wr c2)" using assms(7) m(2) by simp
  ultimately show ?thesis
    using client_write_reply_clean [of c2 rq 0] w by auto
qed

lemma client_serve_request_begin:
  assumes "rd_data (sock_in c) = request_raw_bytes (nbd_h2r_request rq) @ rest"
  shows "\<exists>c1. rd_data (sock_in c1) = rest
     \<and> (\<exists>es e. c1 = (client_arm_killswitch c)\<lparr>sock_in := es, errno := e\<rparr>)
     \<and> client_serve_request SocketReadable c =
         and_then (client_request_needs_reply rq c1) (\<lambda>needs c2.
            if \<not> needs then Ret (disconnect c2) (client_disarm_killswitch c2)
            else if server_is_closed (serve c2) then Ret True (client_disarm_killswitch c2)
            else and_then (client_reply rq c2) (\<lambda>_ c3. Ret False (client_disarm_killswitch c3)))"
proof -
  have "rd_data (sock_in (client_arm_killswitch c)) = request_raw_bytes (nbd_h2r_request rq) @ rest"
    using assms by (simp add: client_arm_killswitch_def)
  from client_read_request_ok [OF this] obtain es e where
    "client_read_request (client_arm_killswitch c)
       = Ret (Some rq) ((client_arm_killswitch c)\<lparr>sock_in := es, errno := e\<rparr>)" "rd_data es = rest" by blast
  then show ?thesis
    by (intro exI [of _ "(client_arm_killswitch c)\<lparr>sock_in := es, errno := e\<rparr>"])
      (auto simp: client_serve_request_def)
qed

lemma killswitch_frame [simp]:
  "serve (client_arm_killswitch c) = serve c" "serve (client_disarm_killswitch c) = serve c"
  "sock_wr (client_arm_killswitch c) = sock_wr c" "sock_wr (client_disarm_killswitch c) = sock_wr c"
  "sock_out (client_arm_killswitch c) = sock_out c" "sock_out (client_disarm_killswitch c) = sock_out c"
  "sock_in (client_arm_killswitch c) = sock_in c" "sock_in (client_disarm_killswitch c) = sock_in c"
  "msync_fails (client_arm_killswitch c) = msync_fails c" "synced (client_arm_killswitch c) = synced c"
  "synced (client_disarm_killswitch c) = synced c" "disconnect (client_arm_killswitch c) = disconnect c"
  "disconnect (client_disarm_killswitch c) = disconnect c"
  by (simp_all add: client_arm_killswitch_def client_disarm_killswitch_def)

lemma mem_set_out: "off \<le> 8 * length b \<Longrightarrow> 8 * length b < off + n \<Longrightarrow> mem_set b off v n = None"
proof (induction n arbitrary: b off)
  case (Suc n)
  show ?case
  proof (cases "off div 8 < length b")
    case True
    with Suc show ?thesis by (simp add: put_byte_def)
  qed (simp add: put_byte_def)
qed simp

subsection \<open>Properties\<close>

text \<open>C13: \<open>write_not_zeroes\<close> is correct and keeps holes: when the range lies in the file, the data has
  arrived and the event stream has room for one event per block, it returns; the file is exactly the
  old file with the data at \<open>from\<close>; unallocated bytes still read as zero; a chunk becomes allocated only
  if one of the bytes written to it is not zero; and while the stream is on, every byte that changed is
  covered by a queued event.\<close>

theorem write_not_zeroes_correct:
  assumes "srv_ok (serve c)" "unat from + unat len \<le> unat (serve_size (serve c))"
    "unat len \<le> length (rd_data (sock_in c))" "room (serve c) (nblocks (unat from) (unat len))"
  shows "\<exists>c'. write_not_zeroes from len c = Some (Ret () c')
     \<and> mem_write (unat from) (take (unat len) (rd_data (sock_in c))) (file_map (serve c)) = Some (file_map (serve c'))
     \<and> rd_data (sock_in c') = drop (unat len) (rd_data (sock_in c))
     \<and> srv_ok (serve c')
     \<and> (\<forall>p < unat (serve_size (serve c)).
          bs_bit (allocation_map (serve c')) p \<longrightarrow> bs_bit (allocation_map (serve c)) p
          \<or> (\<exists>i < unat len. rd_data (sock_in c) ! i \<noteq> 0 \<and> (unat from + i) div 4096 = p div 4096))
     \<and> (\<exists>evs. stream_list (stream (allocation_map (serve c')))
            = stream_list (stream (allocation_map (serve c))) @ evs
          \<and> (stream_enabled (allocation_map (serve c)) \<longrightarrow>
               (\<forall>p. file_map (serve c') ! p \<noteq> file_map (serve c) ! p \<longrightarrow> (\<exists>e\<in>set evs. covers e p))))"
proof -
  from write_not_zeroes_ok [OF assms] obtain c' where w: "write_not_zeroes from len c = Some (Ret () c')"
      "took_in (nblocks (unat from) (unat len)) (unat from) (unat len) c c'" by blast
  note t = took_inD [OF w(2)]
  have new: "bs_bit (allocation_map (serve c)) p
      \<or> (\<exists>i < unat len. rd_data (sock_in c) ! i \<noteq> 0 \<and> (unat from + i) div 4096 = p div 4096)"
    if p: "p < unat (serve_size (serve c))" "bs_bit (allocation_map (serve c')) p" for p
    using wroteD(6) [OF t(1) p] assms(3) by fastforce
  show ?thesis
    using w(1) t(2) new wroteD(1,2,7) [OF t(1)] by (intro exI [of _ c'] conjI) auto
qed

definition ex_server :: server where
  "ex_server = \<lparr>file_map = replicate 8192 0, serve_size = 8192, allocation_map = bitset_alloc 0 8192 4096,
     allocation_map_built = True, allocation_map_not_built = False, allow_new_clients = True, use_killswitch = True, server_closed = False, acl_locked = False,
     success = False, close_signalled = False\<rparr>"

definition ex_client :: "rd list \<Rightarrow> client" where
  "ex_client es = \<lparr>stopped = False, disconnect = False, sock_in = es, sock_wr = [], sock_out = [],
     sock_open = True, corked = False, file_open = True, mapped_size = 8192, errno = 0, killswitch = False,
     msync_fails = [], synced = [], serve = ex_server\<rparr>"

lemma ex_server_ok: "srv_ok ex_server" "room ex_server k"
proof -
  have "wf_bitset (bitset_alloc 0 8192 4096)" by (rule bitset_alloc_wf; simp)
  then show "srv_ok ex_server"
    by (simp add: srv_ok_def sparse_def ex_server_def) (simp add: bitset_alloc_def res64_def)
  show "room ex_server k" by (simp add: room_def ex_server_def bitset_alloc_def)
qed

theorem write_not_zeroes_correct_witness:
  "\<exists>c'. write_not_zeroes 4094 4 (ex_client [Avail [1, 2], Avail [3, 4, 5]]) = Some (Ret () c')
     \<and> rd_data (sock_in c') = [5] \<and> srv_ok (serve c')"
proof -
  let ?c = "ex_client [Avail [1, 2], Avail [3, 4, 5]]"
  have c: "serve ?c = ex_server" "rd_data (sock_in ?c) = [1, 2, 3, 4, 5]" by (simp_all add: ex_client_def)
  have "serve_size ex_server = 8192" by (simp add: ex_server_def)
  with write_not_zeroes_correct [of ?c 4094 4] ex_server_ok c show ?thesis by fastforce
qed

lemma serve_write_ok:
  assumes "rd_data (sock_in c) = request_raw_bytes (nbd_h2r_request rq) @ data @ rest"
    "rq_magic rq = REQUEST_MAGIC" "rq_type rq = REQUEST_WRITE" "length data = unat (rq_len rq)"
    "unat (rq_from rq) + unat (rq_len rq) \<le> unat (serve_size (serve c))"
    "srv_ok (serve c)" "allocation_map_built (serve c)" "\<not> server_closed (serve c)"
    "room (serve c) (nblocks (unat (rq_from rq)) (unat (rq_len rq)))" "msync_fails c = []" "wr_clean (sock_wr c)"
  shows "\<exists>c'. client_serve_request SocketReadable c = Ret False c'
     \<and> mem_write (unat (rq_from rq)) data (file_map (serve c)) = Some (file_map (serve c'))
     \<and> srv_ok (serve c') \<and> (\<exists>k. wrote k (unat (rq_from rq)) data (serve c) (serve c')) \<and> synced c' \<noteq> synced c
     \<and> sock_out c' = sock_out c @ reply_bytes (rq_handle rq) 0 \<and> rd_data (sock_in c') = rest"
proof -
  from client_serve_request_begin [OF assms(1)] obtain c1 es e where c1: "rd_data (sock_in c1) = data @ rest"
      "c1 = (client_arm_killswitch c)\<lparr>sock_in := es, errno := e\<rparr>"
      "client_serve_request SocketReadable c = and_then (client_request_needs_reply rq c1) (\<lambda>needs c2.
            if \<not> needs then Ret (disconnect c2) (client_disarm_killswitch c2)
            else if server_is_closed (serve c2) then Ret True (client_disarm_killswitch c2)
            else and_then (client_reply rq c2) (\<lambda>_ c3. Ret False (client_disarm_killswitch c3)))" by blast
  have same: "serve c1 = serve c" "sock_wr c1 = sock_wr c" "sock_out c1 = sock_out c" "synced c1 = synced c"
    "msync_fails c1 = msync_fails c" by (simp_all add: c1(2))
  have nr: "client_request_needs_reply rq c1 = Ret True c1"
    using assms(2,3) in_range_check [OF assms(5)] same
    by (simp add: client_request_needs_reply_def request_types)
  have "unat (rq_len rq) \<le> length (rd_data (sock_in c1))" using c1(1) assms(4) by simp
  with write_path_ok [of c1 rq] assms same obtain c2 where c2: "client_reply_to_write rq c1 = Ret () c2"
     "wrote (nblocks (unat (rq_from rq)) (unat (rq_len rq))) (unat (rq_from rq))
        (take (unat (rq_len rq)) (rd_data (sock_in c1))) (serve c) (serve c2)"
     "rd_data (sock_in c2) = drop (unat (rq_len rq)) (rd_data (sock_in c1))"
     "sock_out c2 = sock_out c @ reply_bytes (rq_handle rq) 0" "synced c2 \<noteq> synced c" by auto
  have "client_reply rq c1 = Ret () c2" using assms(3) c2(1) by (simp add: client_reply_def request_types)
  then have "client_serve_request SocketReadable c = Ret False (client_disarm_killswitch c2)"
    using c1(3) nr same assms(8) by simp
  moreover have "take (unat (rq_len rq)) (rd_data (sock_in c1)) = data"
      "drop (unat (rq_len rq)) (rd_data (sock_in c1)) = rest"
    using c1(1) assms(4) by simp_all
  ultimately show ?thesis
    using c2(2-) wroteD(1,2) [OF c2(2)]
    by (intro exI [of _ "client_disarm_killswitch c2"]) auto
qed


lemma request_bytes_ne: "request_raw_bytes r \<noteq> []"
proof -
  have "length (request_raw_bytes r) = 28" by (simp add: NBD_REQUEST_SIZE_def)
  then show ?thesis by force
qed

definition ex_write :: nbd_request where
  "ex_write = \<lparr>rq_magic = REQUEST_MAGIC, rq_flags = 0, rq_type = REQUEST_WRITE, rq_handle = 7, rq_from = 100, rq_len = 3\<rparr>"


lemma serve_read_ok:
  assumes "rd_data (sock_in c) = request_raw_bytes (nbd_h2r_request rq) @ rest"
    "rq_magic rq = REQUEST_MAGIC" "rq_type rq = REQUEST_READ"
    "unat (rq_from rq) + unat (rq_len rq) \<le> unat (serve_size (serve c))"
    "length (file_map (serve c)) = unat (serve_size (serve c))" "unat (serve_size (serve c)) \<le> 2 ^ 63"
    "\<not> server_closed (serve c)" "\<forall>e. WrFail e \<notin> set (sock_wr c)"
  shows "\<exists>c'. client_serve_request SocketReadable c = Ret False c' \<and> serve c' = serve c
     \<and> sock_out c' = sock_out c @ reply_bytes (rq_handle rq) 0
          @ mem_slice (unat (rq_from rq)) (unat (rq_len rq)) (file_map (serve c))
     \<and> rd_data (sock_in c') = rest"
proof -
  from client_serve_request_begin [OF assms(1)] obtain c1 es e where c1: "rd_data (sock_in c1) = rest"
      "c1 = (client_arm_killswitch c)\<lparr>sock_in := es, errno := e\<rparr>"
      "client_serve_request SocketReadable c = and_then (client_request_needs_reply rq c1) (\<lambda>needs c2.
            if \<not> needs then Ret (disconnect c2) (client_disarm_killswitch c2)
            else if server_is_closed (serve c2) then Ret True (client_disarm_killswitch c2)
            else and_then (client_reply rq c2) (\<lambda>_ c3. Ret False (client_disarm_killswitch c3)))" by blast
  have same: "serve c1 = serve c" "sock_wr c1 = sock_wr c" "sock_out c1 = sock_out c" by (simp_all add: c1(2))
  have nr: "client_request_needs_reply rq c1 = Ret True c1"
    using assms(2,3) in_range_check [OF assms(4)] same
    by (simp add: client_request_needs_reply_def request_types)
  have "wr_clean (sock_wr c)" using assms(8) by (auto simp: wr_clean_def list_all_iff split: wr.splits)
  then obtain es1 e2 where wr: "client_write_reply rq 0 (c1\<lparr>corked := True\<rparr>) = Ret () (c1\<lparr>corked := True, sock_wr := es1,
      sock_out := sock_out c @ reply_bytes (rq_handle rq) 0, errno := e2\<rparr>)" "set es1 \<subseteq> set (sock_wr c)"
    using client_write_reply_clean [of "c1\<lparr>corked := True\<rparr>" rq 0] same by auto
  then have f: "\<forall>e. WrFail e \<notin> set es1" using assms(8) by blast
  have small: "\<not> (rq_len rq \<noteq> 0 \<and> rq_from rq \<ge> 2 ^ 63)"
  proof
    assume a: "rq_len rq \<noteq> 0 \<and> rq_from rq \<ge> 2 ^ 63"
    then have "0 < unat (rq_len rq)" by (simp add: unat_gt_0)
    moreover have "2 ^ 63 \<le> unat (rq_from rq)" using a by (simp add: word_le_nat_alt)
    ultimately show False using assms(4,6) by linarith
  qed
  obtain es2 where "sendfileloop es1 (file_map (serve c)) (unat (rq_from rq)) 0 (unat (rq_len rq)) []
      = Some (mem_slice (unat (rq_from rq)) (unat (rq_len rq)) (file_map (serve c)), IoDone, es2)"
    using sendfileloop_spec [of "unat (rq_from rq)" "unat (rq_len rq)" "file_map (serve c)" 0 _ es1 "[]"] assms(4,5) f
    by fastforce
  with wr small same have "\<exists>c2. client_reply_to_read rq c1 = Ret () c2 \<and> serve c2 = serve c
     \<and> sock_out c2 = sock_out c @ reply_bytes (rq_handle rq) 0
          @ mem_slice (unat (rq_from rq)) (unat (rq_len rq)) (file_map (serve c))
     \<and> sock_in c2 = sock_in c1"
    by (simp add: client_reply_to_read_def Let_def)
  then show ?thesis
    using c1(1,3) nr same assms(3,7) by (auto simp: client_reply_def request_types)
qed

lemma serve_flush_ok:
  assumes "rd_data (sock_in c) = request_raw_bytes (nbd_h2r_request rq) @ rest"
    "rq_magic rq = REQUEST_MAGIC" "rq_type rq = REQUEST_FLUSH"
    "unat (rq_from rq) + unat (rq_len rq) \<le> unat (serve_size (serve c))"
    "\<not> server_closed (serve c)" "msync_fails c = []" "wr_clean (sock_wr c)"
  shows "\<exists>c'. client_serve_request SocketReadable c = Ret False c' \<and> serve c' = serve c
     \<and> sock_out c' = sock_out c @ reply_bytes (rq_handle rq) 0
     \<and> synced c' = synced c @ [(0, mapped_size c)] \<and> rd_data (sock_in c') = rest"
proof -
  from client_serve_request_begin [OF assms(1)] obtain c1 es e where c1: "rd_data (sock_in c1) = rest"
      "c1 = (client_arm_killswitch c)\<lparr>sock_in := es, errno := e\<rparr>"
      "client_serve_request SocketReadable c = and_then (client_request_needs_reply rq c1) (\<lambda>needs c2.
            if \<not> needs then Ret (disconnect c2) (client_disarm_killswitch c2)
            else if server_is_closed (serve c2) then Ret True (client_disarm_killswitch c2)
            else and_then (client_reply rq c2) (\<lambda>_ c3. Ret False (client_disarm_killswitch c3)))" by blast
  have same: "serve c1 = serve c" "sock_wr c1 = sock_wr c" "sock_out c1 = sock_out c" "synced c1 = synced c"
      "msync_fails c1 = []" "mapped_size c1 = mapped_size c"
    using assms(6) by (simp_all add: c1(2)) (simp add: client_arm_killswitch_def)
  have nr: "client_request_needs_reply rq c1 = Ret True c1"
    using assms(2,3) in_range_check [OF assms(4)] same by (simp add: client_request_needs_reply_def request_types)
  let ?c2 = "c1\<lparr>msync_fails := [], synced := synced c @ [(0, mapped_size c)]\<rparr>"
  have "client_reply rq c1 = client_write_reply rq 0 ?c2"
    using assms(3) same by (simp add: client_reply_def client_reply_to_flush_def msync_def request_types)
  moreover obtain es1 e1 where "client_write_reply rq 0 ?c2
      = Ret () (?c2\<lparr>sock_wr := es1, sock_out := sock_out c @ reply_bytes (rq_handle rq) 0, errno := e1\<rparr>)"
    using client_write_reply_clean [of ?c2 rq 0] assms(7) same by auto
  ultimately show ?thesis using c1(1,3) nr same assms(5) by simp
qed

text \<open>C6: an in-range read request is answered with a success reply carrying its handle followed by
  exactly the requested bytes of the file, and changes nothing.\<close>

theorem client_serves_read:
  assumes "rd_data (sock_in c) = request_raw_bytes (nbd_h2r_request rq) @ rest"
    "rq_magic rq = REQUEST_MAGIC" "rq_type rq = REQUEST_READ"
    "unat (rq_from rq) + unat (rq_len rq) \<le> unat (serve_size (serve c))"
    "length (file_map (serve c)) = unat (serve_size (serve c))" "unat (serve_size (serve c)) \<le> 2 ^ 63"
    "\<not> server_closed (serve c)" "\<forall>e. WrFail e \<notin> set (sock_wr c)"
  shows "\<exists>c'. client_serve_request SocketReadable c = Ret False c' \<and> serve c' = serve c
     \<and> sock_out c' = sock_out c @ reply_bytes (rq_handle rq) 0
          @ mem_slice (unat (rq_from rq)) (unat (rq_len rq)) (file_map (serve c))
     \<and> rd_data (sock_in c') = rest"
  using assms by (rule serve_read_ok)

definition ex_read :: nbd_request where
  "ex_read = \<lparr>rq_magic = REQUEST_MAGIC, rq_flags = 0, rq_type = REQUEST_READ, rq_handle = 9, rq_from = 8190, rq_len = 2\<rparr>"

theorem client_serves_read_witness:
  "\<exists>c'. client_serve_request SocketReadable (ex_client [Avail (request_raw_bytes (nbd_h2r_request ex_read))])
       = Ret False c' \<and> sock_out c' = reply_bytes 9 0 @ mem_slice 8190 2 (replicate 8192 0)"
proof -
  let ?c = "ex_client [Avail (request_raw_bytes (nbd_h2r_request ex_read))]"
  have "serve ?c = ex_server" by (simp add: ex_client_def)
  moreover have "serve_size ex_server = 8192" "file_map ex_server = replicate 8192 0" "\<not> server_closed ex_server"
    by (simp_all add: ex_server_def)
  ultimately show ?thesis
    using client_serves_read [of ?c ex_read "[]"] request_bytes_ne
    by (auto simp: ex_client_def ex_read_def)
qed



lemma client_send_hello_ok:
  assumes "wr_clean (sock_wr c)"
  shows "\<exists>es e b. client_send_hello c = Ret () (c\<lparr>sock_wr := es, sock_out := sock_out c @ b, errno := e\<rparr>)
     \<and> length b = NBD_INIT_SIZE \<and> set es \<subseteq> set (sock_wr c)
     \<and> nbd_check_hello (init_raw_of b) = Some (serve_size (serve c), FLAG_HAS_FLAGS OR FLAG_SEND_FLUSH OR FLAG_SEND_FUA)"
proof -
  let ?init = "init_raw_bytes (nbd_h2r_init \<lparr>i_passwd = INIT_PASSWD, i_magic = INIT_MAGIC,
     i_size = serve_size (serve c), i_flags = FLAG_HAS_FLAGS OR FLAG_SEND_FLUSH OR FLAG_SEND_FUA,
     i_reserved = replicate 124 0\<rparr> zero_init_raw)"
  have "length ?init = NBD_INIT_SIZE"
    by (rule raw_lengths) (simp_all add: nbd_h2r_init_def zero_init_raw_def INIT_PASSWD_def)
  moreover have "?init = init_raw_bytes (nbd_hello_to_buf (replicate 124 0) (serve_size (serve c))
      (FLAG_HAS_FLAGS OR FLAG_SEND_FLUSH OR FLAG_SEND_FUA))"
    by (simp add: nbd_hello_to_buf_def)
  then have "nbd_check_hello (init_raw_of ?init) = Some (serve_size (serve c), FLAG_HAS_FLAGS OR FLAG_SEND_FLUSH OR FLAG_SEND_FUA)"
    by simp
  moreover obtain es e where
    "sock_write ?init c = (IoDone, c\<lparr>sock_wr := es, sock_out := sock_out c @ ?init, errno := e\<rparr>)" "set es \<subseteq> set (sock_wr c)"
    using sock_write_clean [OF assms] by blast
  ultimately show ?thesis
    by (intro exI [of _ es] exI [of _ e] exI [of _ ?init])
      (simp add: client_send_hello_def client_write_init_def Let_def)
qed





text \<open>End-of-file between requests is told from an error by \<^verbatim>\<open>errno\<close>, which a \<^verbatim>\<open>read\<close> that returns 0
  does not set: the connection is closed quietly only if \<^verbatim>\<open>errno\<close> happens to be 0 (or one of the two
  connection errors) from earlier calls, and otherwise the whole process is aborted.\<close>

theorem client_eof_depends_on_stale_errno:
  assumes "length (rd_data (sock_in c)) < NBD_REQUEST_SIZE" "plain (sock_in c)"
  shows "\<exists>c'. client_read_request c =
     (if errno c \<in> {0, ECONNRESET, ETIMEDOUT} then Ret None c' else Fatal c')"
proof -
  have "rd_stop es = IoEof" if "plain es" for es
    using that by (induction es rule: rd_stop.induct) auto
  with readloop_short [OF assms(1)] assms(2) obtain es where
    "readloop NBD_REQUEST_SIZE (sock_in c) = (rd_data (sock_in c), IoEof, es)" by auto
  moreover have "errno_after e es = e" if "plain es" for e es
    using that by (induction es rule: rd_stop.induct) auto
  moreover have "plain (take n es)" if "plain es" for n es
    using that by (auto simp: plain_def list_all_iff dest: in_set_takeD)
  ultimately show ?thesis
    using assms(2) by (auto simp: client_read_request_def sock_read_def)
qed

theorem client_eof_depends_on_stale_errno_witness:
  "\<exists>c'. client_read_request ((ex_client [])\<lparr>errno := EAGAIN\<rparr>) = Fatal c'"
  using client_eof_depends_on_stale_errno [of "(ex_client [])\<lparr>errno := EAGAIN\<rparr>"]
  by (auto simp: ex_client_def NBD_REQUEST_SIZE_def errno_defs)



text \<open>A zero-length write at offset 0, which the protocol allows, marks the whole 64-bit range of the
  map when it arrives before the allocation map is built: the bit range computed for it runs from the
  first chunk to the last one of the address space, and the marking leaves the map.\<close>

theorem zero_length_write_overruns_map:
  assumes "rq_from rq = 0" "rq_len rq = 0" "\<not> allocation_map_built (serve c)" "srv_ok (serve c)"
    "8 * length (bits (allocation_map (serve c))) < 2 ^ 49"
  shows "client_reply_to_write rq c = Fault"
proof -
  let ?map = "allocation_map (serve c)"
  have "res64 ?map = 4096"
    using assms(4) by (simp add: srv_ok_def word_unat_eq_iff)
  then have f: "INT_FIRST_AND_LAST ?map 0 0 = (0, 0xFFFFFFFFFFFFF, 0x10000000000000)"
    by (simp add: INT_FIRST_AND_LAST_def Let_def)
  have "mem_set (bits ?map) 0 255 (2 ^ 49) = None" using assms(5) by (intro mem_set_out) simp_all
  then have "bit_set_range (bits ?map) 0 0x10000000000000 = None"
    by (simp add: bit_set_range_def bit_range_loops_def bit_head_loop.simps BITS_PER_WORD_def)
  then have "bitset_set_range ?map 0 0 = OutOfBounds" by (simp add: bitset_set_range_def f)
  then show ?thesis
    using assms(1-3)
    by (simp add: client_reply_to_write_def read_into_file_def sock_read_def readloop.simps mem_write.simps
        map_set_range_def put_file_def)
qed

theorem zero_length_write_overruns_map_witness:
  "client_reply_to_write (ex_write\<lparr>rq_from := 0, rq_len := 0\<rparr>)
     ((ex_client [])\<lparr>serve := ex_server\<lparr>allocation_map_built := False\<rparr>\<rparr>) = Fault"
proof (rule zero_length_write_overruns_map)
  show "srv_ok (serve ((ex_client [])\<lparr>serve := ex_server\<lparr>allocation_map_built := False\<rparr>\<rparr>))"
    using ex_server_ok(1) by (simp add: srv_ok_def sparse_def)
  have "unat (bitset_alloc_bytes 8192 4096) = 1"
    by (subst bitset_alloc_bytes_eq) (simp_all add: chunk_count_def)
  then show "8 * length (bits (allocation_map (serve ((ex_client [])\<lparr>serve := ex_server\<lparr>allocation_map_built := False\<rparr>\<rparr>)))) < 2 ^ 49"
    by (simp add: ex_server_def bitset_alloc_def length_alloc_words)
qed (simp_all add: ex_write_def)

end
