(* ===== verification/Mirror.thy ===== *)
theory Mirror
  imports Client
begin

text \<open>
  Outward migration, \<^verbatim>\<open>src/src/server/mirror.c\<close>.  \<open>mirror_ctrl\<close> is the event loop's state: the
  mirror, the server it copies, the transfer in progress and which watchers are active; each libev
  callback is a function on it.  The call of \<^verbatim>\<open>server_join_clients\<close> inside the read callback waits
  for other threads, so the callback is cut there: \<open>joining\<close> holds \<open>next_xfer\<close> and whether the clients
  are being closed until they have ended.  \<open>mapped\<close> says whether \<^verbatim>\<open>mirror->mapped\<close> is the mapping
  of the file or NULL; writing from NULL fails with \<open>EFAULT\<close>.  An ERROR in the thread runs
  \<open>mirror_cleanup\<close>.
\<close>

subsection \<open>State\<close>

datatype mirror_finish_action = ACTION_EXIT | ACTION_UNLINK | ACTION_NOTHING

datatype mirror_state = MS_UNKNOWN | MS_INIT | MS_GO | MS_ABANDONED | MS_DONE | MS_FAIL_CONNECT
  | MS_FAIL_REJECTED | MS_FAIL_NO_HELLO | MS_FAIL_SIZE_MISMATCH

record mirror =
  max_bytes_per_second :: u64
  action_at_finish :: mirror_finish_action
  offset :: u64
  commit_state :: mirror_state
  migration_started :: u64
  all_dirty :: u64
  mapped :: bool

record xfer =
  hdr :: "byte list"
  xfer_from :: u64
  xfer_len :: u64
  xfer_written :: nat
  xfer_read :: nat

record mirror_ctrl =
  mserve :: server
  mirror :: mirror
  begin_watcher :: bool
  read_watcher :: bool
  write_watcher :: bool
  timeout_watcher :: bool
  limit_watcher :: bool
  abandon_watcher :: bool
  loop_broken :: bool
  clear_events :: bool
  clients_closed :: bool
  xfer :: xfer
  joining :: "(bool \<times> bool) option"
  abandon_signal :: bool
  unlinked :: bool
  disconnect_sent :: bool

definition mirror_longest_write :: u64 where
  "mirror_longest_write = push_bit 20 8"

definition EFAULT :: int where
  "EFAULT = 14"

definition MS_CONVERGE_TIME_SECS :: u64 where
  "MS_CONVERGE_TIME_SECS = 5"

definition mirror_handle :: u64 where
  "mirror_handle = le_word [46, 77, 73, 82, 82, 79, 82, 46]"

definition mmap :: "mirror_ctrl \<Rightarrow> bitset" where
  "mmap c = allocation_map (mserve c)"

definition put_mmap :: "bitset \<Rightarrow> mirror_ctrl \<Rightarrow> mirror_ctrl" where
  "put_mmap bs c = c\<lparr>mserve := (mserve c)\<lparr>allocation_map := bs\<rparr>\<rparr>"

subsection \<open>Operations\<close>

definition mirror_alloc :: "u64 \<Rightarrow> mirror_finish_action \<Rightarrow> mirror" where
  "mirror_alloc max_Bps action =
     \<lparr>max_bytes_per_second = max_Bps, action_at_finish = action, offset = 0, commit_state = MS_UNKNOWN,
      migration_started = 0, all_dirty = 0, mapped = False\<rparr>"

definition mirror_init :: "mirror \<Rightarrow> mirror" where
  "mirror_init m = m\<lparr>mapped := True\<rparr>"

definition mirror_set_state_f :: "mirror \<Rightarrow> mirror_state \<Rightarrow> mirror" where
  "mirror_set_state_f m st = m\<lparr>commit_state := st\<rparr>"

definition mirror_reset :: "mirror \<Rightarrow> mirror" where
  "mirror_reset m = (mirror_set_state_f m MS_INIT)\<lparr>all_dirty := 0, migration_started := 0, offset := 0\<rparr>"

definition mirror_create :: "u64 \<Rightarrow> mirror_finish_action \<Rightarrow> mirror" where
  "mirror_create max_Bps action = mirror_reset (mirror_init (mirror_alloc max_Bps action))"

datatype hello_outcome = NoConnection | NoHello | BadHello | HelloSize u64

definition mirror_connect :: "hello_outcome \<Rightarrow> u64 \<Rightarrow> mirror \<Rightarrow> bool \<times> mirror" where
  "mirror_connect out local_size m =
     (case out of
        HelloSize remote_size \<Rightarrow>
          if remote_size = local_size then (True, mirror_set_state_f m MS_GO)
          else (False, mirror_set_state_f m MS_FAIL_SIZE_MISMATCH)
      | BadHello \<Rightarrow> (False, mirror_set_state_f m MS_FAIL_REJECTED)
      | NoHello \<Rightarrow> (False, mirror_set_state_f m MS_FAIL_NO_HELLO)
      | NoConnection \<Rightarrow> (False, mirror_set_state_f m MS_FAIL_CONNECT))"

definition mirror_should_quit :: "mirror \<Rightarrow> bool" where
  "mirror_should_quit m = (case action_at_finish m of ACTION_EXIT \<Rightarrow> True | ACTION_UNLINK \<Rightarrow> True | _ \<Rightarrow> False)"

definition server_mirror_bps :: "u64 \<Rightarrow> mirror_ctrl \<Rightarrow> u64" where
  "server_mirror_bps now c =
     (let duration_ms = now - migration_started (mirror c)
      in all_dirty (mirror c) div ((duration_ms div 1000) + 1))"

definition server_mirror_bytes_remaining :: "mirror_ctrl \<Rightarrow> u64" where
  "server_mirror_bytes_remaining c =
     bitset_stream_queued_bytes (mmap c) BITSET_STREAM_SET + (serve_size (mserve c) - offset (mirror c))"

definition server_mirror_eta :: "u64 \<Rightarrow> mirror_ctrl \<Rightarrow> u64" where
  "server_mirror_eta now c = server_mirror_bytes_remaining c div (server_mirror_bps now c + 1)"

definition mirror_should_wait :: "u64 \<Rightarrow> mirror_ctrl \<Rightarrow> bool" where
  "mirror_should_wait now c \<longleftrightarrow>
     server_mirror_bps now c > max_bytes_per_second (mirror c)
     \<and> \<not> bitset_stream_size (mmap c) > BITSET_STREAM_SIZE div 2"

function dequeue_events :: "mirror_ctrl \<Rightarrow> bitset_stream_entry \<Rightarrow> bitset_stream_entry \<times> mirror_ctrl" where
  "dequeue_events c e =
     (if (offset (mirror c) = serve_size (mserve c) \<or> clear_events c) \<and> event e \<noteq> BITSET_STREAM_SET then
        (let events = bitset_stream_size (mmap c) in
         if events = 0 then (e, c)
         else (case bitset_stream_dequeue (mmap c) of
                 None \<Rightarrow> (e, c)
               | Some (e', bs) \<Rightarrow>
                   dequeue_events ((put_mmap bs c)\<lparr>clear_events :=
                     (if events < BITSET_STREAM_SIZE div 4 then False else clear_events c)\<rparr>) e'))
      else (e, c))"
  by pat_completeness auto
termination
  by (relation "measure (\<lambda>(c, e). bitset_stream_size (mmap c))")
    (auto simp: bitset_stream_dequeue_def stream_take_def bitset_stream_size_def mmap_def put_mmap_def Let_def
      split: option.splits if_splits)

declare dequeue_events.simps [simp del]

definition mirror_request :: "u64 \<Rightarrow> u64 \<Rightarrow> nbd_request" where
  "mirror_request current run =
     \<lparr>rq_magic = REQUEST_MAGIC, rq_flags = 0, rq_type = REQUEST_WRITE, rq_handle = mirror_handle,
      rq_from = current, rq_len = ucast run\<rparr>"

definition start_xfer :: "u64 \<Rightarrow> u64 \<Rightarrow> mirror_ctrl \<Rightarrow> mirror_ctrl" where
  "start_xfer current run c =
     c\<lparr>xfer := \<lparr>hdr = request_raw_bytes (nbd_h2r_request (mirror_request current run)),
                xfer_from = current, xfer_len = run, xfer_written = 0, xfer_read = 0\<rparr>\<rparr>"

definition mirror_setup_next_xfer :: "mirror_ctrl \<Rightarrow> bool \<times> mirror_ctrl" where
  "mirror_setup_next_xfer c =
     (let current = offset (mirror c);
          sz = serve_size (mserve c);
          c1 = (if offset (mirror c) < sz \<and> bitset_stream_size (mmap c) > BITSET_STREAM_SIZE div 2
                then c\<lparr>clear_events := True\<rparr> else c)
      in case dequeue_events c1 zero_entry of (e, c2) \<Rightarrow>
           if event e = BITSET_STREAM_SET then (True, start_xfer (entry_from e) (entry_len e) c2)
           else if current < sz then
             (let run = (if current + mirror_longest_write > sz then sz - current else mirror_longest_write);
                  c3 = c2\<lparr>mirror := (mirror c2)\<lparr>offset := offset (mirror c2) + run\<rparr>\<rparr>
              in (True, start_xfer current run c3))
           else (False, c2))"

text \<open>What the system calls at the end of a migration will say: whether the file can be unlinked, and whether the disconnect request
  can be written.\<close>

record exit_calls =
  unlink_ok :: bool
  disconnect_ok :: bool

definition calls_work :: exit_calls where
  "calls_work = \<lparr>unlink_ok = True, disconnect_ok = True\<rparr>"

definition server_unlink :: "exit_calls \<Rightarrow> mirror_ctrl \<Rightarrow> (mirror_ctrl, unit) outcome" where
  "server_unlink calls c = (if unlink_ok calls then Ret () (c\<lparr>unlinked := True\<rparr>) else Fatal c)"

definition mirror_on_exit :: "exit_calls \<Rightarrow> mirror_ctrl \<Rightarrow> (mirror_ctrl, unit) outcome" where
  "mirror_on_exit calls c =
     (let c1 = c\<lparr>mserve := serve_wait_for_close (serve_signal_close (mserve c))\<rparr>
      in and_then (if action_at_finish (mirror c1) = ACTION_UNLINK then server_unlink calls c1 else Ret () c1) (\<lambda>_ c2.
         if disconnect_ok calls then Ret () (c2\<lparr>disconnect_sent := True\<rparr>) else Fatal c2))"

definition set_state :: "mirror_state \<Rightarrow> mirror_ctrl \<Rightarrow> mirror_ctrl" where
  "set_state st c = c\<lparr>mirror := mirror_set_state_f (mirror c) st\<rparr>"

definition mirror_complete :: "exit_calls \<Rightarrow> mirror_ctrl \<Rightarrow> (mirror_ctrl, unit) outcome" where
  "mirror_complete calls c =
     and_then (if mirror_should_quit (mirror c) then mirror_on_exit calls c else Ret () c)
       (\<lambda>_ c1. Ret () (set_state MS_DONE c1))"

definition mirror_to_write :: "mirror_ctrl \<Rightarrow> nat" where
  "mirror_to_write c =
     (let x = xfer c in
      if xfer_written x < NBD_REQUEST_SIZE then NBD_REQUEST_SIZE - xfer_written x
      else unat (xfer_len x) - (xfer_written x - NBD_REQUEST_SIZE))"

definition mirror_data_loc :: "mirror_ctrl \<Rightarrow> byte list" where
  "mirror_data_loc c =
     (let x = xfer c in
      if xfer_written x < NBD_REQUEST_SIZE then mem_slice (xfer_written x) (mirror_to_write c) (hdr x)
      else mem_slice (unat (xfer_from x) + (xfer_written x - NBD_REQUEST_SIZE)) (mirror_to_write c)
             (file_map (mserve c)))"

definition mirror_wrote :: "nat \<Rightarrow> mirror_ctrl \<Rightarrow> mirror_ctrl" where
  "mirror_wrote count c =
     (let c1 = (if count > 0 then c\<lparr>xfer := (xfer c)\<lparr>xfer_written := xfer_written (xfer c) + count\<rparr>,
                                    timeout_watcher := True\<rparr> else c)
      in if xfer_written (xfer c1) = unat (xfer_len (xfer c)) + NBD_REQUEST_SIZE
         then c1\<lparr>read_watcher := True, write_watcher := False\<rparr> else c1)"

definition mirror_write_cb :: "wr \<Rightarrow> mirror_ctrl \<Rightarrow> (mirror_ctrl, byte list) outcome" where
  "mirror_write_cb result c =
     (case (if xfer_written (xfer c) \<ge> NBD_REQUEST_SIZE \<and> \<not> mapped (mirror c) then WrFail EFAULT else result) of
        WrFail e \<Rightarrow> Ret [] (if io_errno_permanent e then c\<lparr>loop_broken := True\<rparr> else c)
      | Accept k \<Rightarrow>
          let count = min k (mirror_to_write c)
          in if length (mirror_data_loc c) < mirror_to_write c then Fault
             else Ret (take count (mirror_data_loc c)) (mirror_wrote count c))"

definition mirror_read_reply :: "int + byte list \<Rightarrow> mirror_ctrl \<Rightarrow> bool \<times> mirror_ctrl" where
  "mirror_read_reply result c =
     (case result of
        Inl e \<Rightarrow> (False, if io_errno_permanent e then c\<lparr>loop_broken := True\<rparr> else c)
      | Inr received \<Rightarrow>
          let bs = take (NBD_REPLY_SIZE - xfer_read (xfer c)) received in
          if bs = [] then (False, c\<lparr>loop_broken := True\<rparr>)
          else
            (let x = xfer c;
                 h = take (xfer_read x) (hdr x) @ bs @ drop (xfer_read x + length bs) (hdr x);
                 rd = xfer_read x + length bs;
                 c1 = c\<lparr>timeout_watcher := True, xfer := x\<lparr>hdr := h, xfer_read := rd\<rparr>\<rparr>
             in if rd < NBD_REPLY_SIZE then (False, c1)
                else
                  (let rsp = nbd_r2h_reply (reply_raw_of h)
                   in if rp_magic rsp \<noteq> REPLY_MAGIC then (False, c1\<lparr>loop_broken := True\<rparr>)
                      else if rp_error rsp \<noteq> 0 then (False, c1\<lparr>loop_broken := True\<rparr>)
                      else if rp_handle rsp \<noteq> mirror_handle then (False, c1\<lparr>loop_broken := True\<rparr>)
                      else (True, c1))))"

definition mirror_xfer_done :: "u64 \<Rightarrow> mirror_ctrl \<Rightarrow> mirror_ctrl" where
  "mirror_xfer_done now c =
     (let c1 = c\<lparr>xfer := (xfer c)\<lparr>xfer_read := 0, xfer_written := 0\<rparr>\<rparr>;
          c2 = (if \<not> clear_events c1
                then c1\<lparr>mirror := (mirror c1)\<lparr>all_dirty := all_dirty (mirror c1) + xfer_len (xfer c1)\<rparr>\<rparr> else c1);
          c3 = c2\<lparr>timeout_watcher := False\<rparr>
      in case mirror_setup_next_xfer c3 of (next_xfer, c4) \<Rightarrow>
           if \<not> clients_closed c4 \<and> (\<not> next_xfer \<or> server_mirror_eta now c4 < MS_CONVERGE_TIME_SECS)
           then c4\<lparr>mserve := (mserve c4)\<lparr>allow_new_clients := False\<rparr>, joining := Some (next_xfer, True)\<rparr>
           else c4\<lparr>joining := Some (next_xfer, False)\<rparr>)"

definition mirror_close_done :: "bool \<Rightarrow> bool \<Rightarrow> mirror_ctrl \<Rightarrow> bool \<times> mirror_ctrl" where
  "mirror_close_done next_xfer closing c =
     (if closing
      then (if \<not> next_xfer then mirror_setup_next_xfer (c\<lparr>clients_closed := True\<rparr>)
            else (next_xfer, c\<lparr>clients_closed := True\<rparr>))
      else (next_xfer, c))"

definition mirror_proceed :: "u64 \<Rightarrow> exit_calls \<Rightarrow> bool \<Rightarrow> mirror_ctrl \<Rightarrow> (mirror_ctrl, bool) outcome" where
  "mirror_proceed now calls next_xfer c =
     (if clients_closed c \<and> \<not> next_xfer
      then and_then (mirror_complete calls c) (\<lambda>_ c1. Ret next_xfer (c1\<lparr>loop_broken := True\<rparr>))
      else if \<not> next_xfer then Error c
      else (let c1 = c\<lparr>read_watcher := False\<rparr>
            in if mirror_should_wait now c1 then Ret next_xfer (c1\<lparr>limit_watcher := True\<rparr>)
               else Ret next_xfer (c1\<lparr>timeout_watcher := True, write_watcher := True\<rparr>)))"

definition mirror_joined :: "u64 \<Rightarrow> exit_calls \<Rightarrow> mirror_ctrl \<Rightarrow> (mirror_ctrl, bool) outcome" where
  "mirror_joined now calls c =
     (case joining c of
        None \<Rightarrow> Ret False c
      | Some (nx, closing) \<Rightarrow>
          (case mirror_close_done nx closing c of (next_xfer, c1) \<Rightarrow>
             mirror_proceed now calls next_xfer (c1\<lparr>joining := None\<rparr>)))"

definition mirror_timeout_cb :: "mirror_ctrl \<Rightarrow> mirror_ctrl" where
  "mirror_timeout_cb c = c\<lparr>loop_broken := True\<rparr>"

definition mirror_abandon_cb :: "mirror_ctrl \<Rightarrow> mirror_ctrl" where
  "mirror_abandon_cb c = (set_state MS_ABANDONED c)\<lparr>abandon_signal := False, abandon_watcher := False, loop_broken := True\<rparr>"

definition mirror_limit_cb :: "u64 \<Rightarrow> mirror_ctrl \<Rightarrow> mirror_ctrl" where
  "mirror_limit_cb now c =
     (if mirror_should_wait now c then c\<lparr>limit_watcher := True\<rparr>
      else c\<lparr>write_watcher := True, limit_watcher := False, timeout_watcher := True\<rparr>)"

definition enable_stream :: "mirror_ctrl \<Rightarrow> (mirror_ctrl, unit) outcome" where
  "enable_stream c =
     (case bitset_enable_stream (mmap c) of
        Done bs \<Rightarrow> Ret () (put_mmap bs c)
      | Blocked bs \<Rightarrow> Asleep (put_mmap bs c)
      | OutOfBounds \<Rightarrow> Fault)"

definition mirror_begin_cb :: "mirror_ctrl \<Rightarrow> (mirror_ctrl, unit) outcome" where
  "mirror_begin_cb c =
     (if allocation_map_built (mserve c) \<or> allocation_map_not_built (mserve c)
      then enable_stream (c\<lparr>begin_watcher := False, write_watcher := True, timeout_watcher := True\<rparr>)
      else Ret () (c\<lparr>begin_watcher := True\<rparr>))"

subsection \<open>A run of the mirror\<close>

definition zero_xfer :: xfer where
  "zero_xfer = \<lparr>hdr = replicate NBD_REQUEST_SIZE 0, xfer_from = 0, xfer_len = 0, xfer_written = 0, xfer_read = 0\<rparr>"

definition mirror_ctrl_zero :: "server \<Rightarrow> mirror \<Rightarrow> bool \<Rightarrow> mirror_ctrl" where
  "mirror_ctrl_zero s m sig =
     \<lparr>mserve = s, mirror = m, begin_watcher = False, read_watcher = False, write_watcher = False,
      timeout_watcher = False, limit_watcher = False, abandon_watcher = False, loop_broken = False,
      clear_events = False, clients_closed = False, xfer = zero_xfer, joining = None,
      abandon_signal = sig, unlinked = False, disconnect_sent = False\<rparr>"

definition mirror_run_begin :: "u64 \<Rightarrow> exit_calls \<Rightarrow> mirror_ctrl \<Rightarrow> (mirror_ctrl, bool) outcome" where
  "mirror_run_begin now calls c =
     (let c1 = c\<lparr>mirror := (mirror c)\<lparr>migration_started := now\<rparr>\<rparr> in
      if serve_size (mserve c1) = 0 then and_then (mirror_complete calls c1) (\<lambda>_. Ret False)
      else case mirror_setup_next_xfer (c1\<lparr>abandon_watcher := True\<rparr>) of (next_xfer, c2) \<Rightarrow>
        if \<not> next_xfer then Error c2
        else if allocation_map_built (mserve c2)
        then and_then (enable_stream (c2\<lparr>write_watcher := True, timeout_watcher := True\<rparr>)) (\<lambda>_. Ret True)
        else Ret True (c2\<lparr>begin_watcher := True\<rparr>))"

definition mirror_run_end :: "mirror_ctrl \<Rightarrow> (mirror_ctrl, unit) outcome" where
  "mirror_run_end c =
     (let c1 = (if action_at_finish (mirror c) = ACTION_NOTHING \<or> commit_state (mirror c) \<noteq> MS_DONE
                then c\<lparr>mserve := (mserve c)\<lparr>allow_new_clients := True\<rparr>\<rparr> else c)
      in if commit_state (mirror c1) \<noteq> MS_DONE
         then (case bitset_disable_stream (mmap c1) of
                 Done bs \<Rightarrow> Error (put_mmap bs c1)
               | Blocked bs \<Rightarrow> Asleep (put_mmap bs c1)
               | OutOfBounds \<Rightarrow> Fault)
         else Ret () c1)"

text \<open>
  One event of the run: a watcher that fires, the end of the wait for the clients, or another
  thread's step, a client storing bytes or marking them in the map (a mark that finds the stream full
  sets the bits and sleeps; a later mark of the same range is its wake-up).
\<close>

datatype mirror_event =
    WriteReady wr
  | ReadReady "int + byte list" u64
  | ClientsJoined u64 exit_calls
  | TimeoutFired
  | AbandonReadable
  | LimitFired u64
  | BeginFired
  | ClientStore nat "byte list"
  | ClientMark u64 u64

definition then_Ret :: "(mirror_ctrl, 'a) outcome \<Rightarrow> (mirror_ctrl, byte list) outcome" where
  "then_Ret r = and_then r (\<lambda>_. Ret [])"

fun mirror_dispatch :: "mirror_event \<Rightarrow> mirror_ctrl \<Rightarrow> (mirror_ctrl, byte list) outcome" where
  "mirror_dispatch (ClientStore at bs) c =
     (case mem_write at bs (file_map (mserve c)) of
        None \<Rightarrow> Ret [] c
      | Some m \<Rightarrow> Ret [] (c\<lparr>mserve := (mserve c)\<lparr>file_map := m\<rparr>\<rparr>))"
| "mirror_dispatch (ClientMark from len) c =
     (case bitset_set_range (mmap c) from len of
        Done bs \<Rightarrow> Ret [] (put_mmap bs c)
      | Blocked bs \<Rightarrow> Ret [] (put_mmap bs c)
      | OutOfBounds \<Rightarrow> Fault)"
| "mirror_dispatch (ClientsJoined now ok) c =
     (if joining c \<noteq> None then then_Ret (mirror_joined now ok c) else Ret [] c)"
| "mirror_dispatch (WriteReady r) c =
     (if joining c = None \<and> write_watcher c then mirror_write_cb r c else Ret [] c)"
| "mirror_dispatch (ReadReady r now) c =
     (if joining c = None \<and> read_watcher c
      then (case mirror_read_reply r c of (xfer_done, c1) \<Rightarrow>
              Ret [] (if xfer_done then mirror_xfer_done now c1 else c1))
      else Ret [] c)"
| "mirror_dispatch TimeoutFired c =
     Ret [] (if joining c = None \<and> timeout_watcher c then mirror_timeout_cb c else c)"
| "mirror_dispatch AbandonReadable c =
     Ret [] (if joining c = None \<and> abandon_watcher c then mirror_abandon_cb c else c)"
| "mirror_dispatch (LimitFired now) c =
     Ret [] (if joining c = None \<and> limit_watcher c then mirror_limit_cb now c else c)"
| "mirror_dispatch BeginFired c =
     (if joining c = None \<and> begin_watcher c then then_Ret (mirror_begin_cb c) else Ret [] c)"

fun mirror_loop :: "mirror_event list \<Rightarrow> mirror_ctrl \<Rightarrow> (mirror_ctrl, byte list) outcome" where
  "mirror_loop [] c = (if loop_broken c then Ret [] c else Asleep c)"
| "mirror_loop (ev # evs) c =
     (if loop_broken c then Ret [] c
      else and_then (mirror_dispatch ev c) (\<lambda>w c1. and_then (mirror_loop evs c1) (\<lambda>w' c2. Ret (w @ w') c2)))"

record attempt =
  conn :: hello_outcome
  slow :: bool
  started :: u64
  events :: "mirror_event list"
  bye_ok :: exit_calls

definition mirror_run :: "attempt \<Rightarrow> mirror_ctrl \<Rightarrow> (mirror_ctrl, byte list) outcome" where
  "mirror_run a c =
     and_then (mirror_run_begin (started a) (bye_ok a) c) (\<lambda>looping c1.
       if \<not> looping then Ret [] c1
       else and_then (mirror_loop (events a) c1) (\<lambda>w c2. and_then (mirror_run_end c2) (\<lambda>_. Ret w)))"

definition mirror_cleanup :: "mirror_ctrl \<Rightarrow> mirror_ctrl" where
  "mirror_cleanup c = c\<lparr>mirror := (mirror c)\<lparr>mapped := False\<rparr>\<rparr>"

definition mirror_runner :: "attempt \<Rightarrow> mirror_ctrl \<Rightarrow> mirror_state \<times> (mirror_ctrl, byte list) outcome" where
  "mirror_runner a c =
     (case mirror_connect (conn a) (serve_size (mserve c)) (mirror c) of (connected, m) \<Rightarrow>
        (let c1 = mirror_ctrl_zero (mserve c) m (abandon_signal c)
         in (commit_state m,
             if \<not> connected then Ret [] c1
             else if slow a then Ret [] (set_state MS_FAIL_CONNECT c1)
             else mirror_run a c1)))"

fun mirror_thread_end :: "(mirror_ctrl, 'a) outcome \<Rightarrow> (mirror_ctrl, unit) outcome" where
  "mirror_thread_end (Ret a c) = Ret () c"
| "mirror_thread_end (Error c) = Ret () (mirror_cleanup c)"
| "mirror_thread_end (Fatal c) = Fatal c"
| "mirror_thread_end (Asleep c) = Asleep c"
| "mirror_thread_end Spins = Spins"
| "mirror_thread_end Fault = Fault"

definition mirror_super_pass :: "bool \<Rightarrow> mirror_ctrl \<Rightarrow> bool \<times> bool \<times> mirror_ctrl" where
  "mirror_super_pass should_retry c =
     (let abandoned = (commit_state (mirror c) = MS_ABANDONED \<or> abandon_signal c);
          c1 = (if commit_state (mirror c) = MS_ABANDONED then c else c\<lparr>abandon_signal := False\<rparr>);
          succeeded = (commit_state (mirror c) = MS_DONE);
          retry = (if \<not> succeeded \<and> abandoned then False else should_retry);
          c2 = (if retry then c1\<lparr>mirror := mirror_reset (mirror c1)\<rparr> else c1)
      in (retry, succeeded, c2))"

fun mirror_super_runner ::
  "bool \<Rightarrow> bool \<Rightarrow> attempt list \<Rightarrow> mirror_ctrl \<Rightarrow> mirror_state list \<Rightarrow> (mirror_ctrl, mirror_state list \<times> bool) outcome"
where
  "mirror_super_runner first_pass should_retry [] c posted = Asleep c"
| "mirror_super_runner first_pass should_retry (a # as) c posted =
     (case mirror_runner a c of (committed, thread) \<Rightarrow>
        (let should_retry1 = (if first_pass then committed = MS_GO else should_retry);
             posted1 = (if first_pass then posted @ [committed] else posted)
         in and_then (mirror_thread_end thread) (\<lambda>_ c1.
              case mirror_super_pass should_retry1 c1 of (retry, succeeded, c2) \<Rightarrow>
                if retry \<and> \<not> succeeded then mirror_super_runner False retry as c2 posted1
                else Ret (posted1, succeeded) c2)))"

subsection \<open>Choosing the next transfer\<close>

definition set_ok :: "u64 \<Rightarrow> bitset_stream_entry \<Rightarrow> bool" where
  "set_ok sz e \<longleftrightarrow> 0 < unat (entry_len e) \<and> unat (entry_len e) < 2 ^ 32
     \<and> unat (entry_from e) + unat (entry_len e) \<le> unat sz"

abbreviation queued :: "mirror_ctrl \<Rightarrow> bitset_stream_entry list" where
  "queued c \<equiv> stream_list (stream (mmap c))"

definition ctrl_ok :: "mirror_ctrl \<Rightarrow> bool" where
  "ctrl_ok c \<longleftrightarrow>
     wf_bitset (mmap c) \<and> bs_size (mmap c) = serve_size (mserve c) \<and> unat (serve_size (mserve c)) < 2 ^ 63
     \<and> offset (mirror c) \<le> serve_size (mserve c) \<and> length (file_map (mserve c)) = unat (serve_size (mserve c))
     \<and> (\<forall>e\<in>set (queued c). event e = BITSET_STREAM_SET \<longrightarrow> set_ok (serve_size (mserve c)) e)"

lemma put_mmap_frame [simp]:
  "mmap (put_mmap bs c) = bs" "mirror (put_mmap bs c) = mirror c" "xfer (put_mmap bs c) = xfer c"
  "serve_size (mserve (put_mmap bs c)) = serve_size (mserve c)"
  "file_map (mserve (put_mmap bs c)) = file_map (mserve c)" "clear_events (put_mmap bs c) = clear_events c"
  "joining (put_mmap bs c) = joining c" "clients_closed (put_mmap bs c) = clients_closed c"
  "write_watcher (put_mmap bs c) = write_watcher c" "limit_watcher (put_mmap bs c) = limit_watcher c"
  "begin_watcher (put_mmap bs c) = begin_watcher c" "loop_broken (put_mmap bs c) = loop_broken c"
  "read_watcher (put_mmap bs c) = read_watcher c"
  by (simp_all add: put_mmap_def mmap_def)

lemma mmap_upd [simp]:
  "mmap (c\<lparr>clear_events := b\<rparr>) = mmap c" "mmap (c\<lparr>mirror := m\<rparr>) = mmap c" "mmap (c\<lparr>xfer := x\<rparr>) = mmap c"
  "mmap (c\<lparr>timeout_watcher := b\<rparr>) = mmap c" "mmap (c\<lparr>read_watcher := b\<rparr>) = mmap c"
  "mmap (c\<lparr>write_watcher := b\<rparr>) = mmap c" "mmap (c\<lparr>limit_watcher := b\<rparr>) = mmap c"
  "mmap (c\<lparr>begin_watcher := b\<rparr>) = mmap c" "mmap (c\<lparr>loop_broken := b\<rparr>) = mmap c"
  "mmap (c\<lparr>clients_closed := b\<rparr>) = mmap c" "mmap (c\<lparr>joining := j\<rparr>) = mmap c"
  "mmap (c\<lparr>abandon_watcher := b\<rparr>) = mmap c" "mmap (c\<lparr>abandon_signal := b\<rparr>) = mmap c"
  "mmap (c\<lparr>unlinked := b\<rparr>) = mmap c" "mmap (c\<lparr>disconnect_sent := b\<rparr>) = mmap c"
  by (simp_all add: mmap_def)

lemma put_mmap_same [simp]: "put_mmap (mmap c) c = c"
  by (simp add: put_mmap_def mmap_def)

lemma bitset_stream_dequeue_spec:
  assumes "wf_bitset bs" "bitset_stream_size bs \<noteq> 0"
  shows "\<exists>e st. bitset_stream_dequeue bs = Some (e, bs\<lparr>stream := st\<rparr>)
     \<and> stream_list (stream bs) = e # stream_list st \<and> stream_inv st"
proof -
  from assms(2) obtain e es where l: "stream_list (stream bs) = e # es"
    by (cases "stream_list (stream bs)") (auto simp: bitset_stream_size_def dest: arg_cong [of _ _ length])
  with assms(1) strm.deq_front [of "stream bs" e es] obtain st where
    "stream_take (stream bs) = Some (e, st)" "stream_inv st" "stream_list st = es" by (auto simp: wf_bitset_def)
  with l show ?thesis by (auto simp: bitset_stream_dequeue_def)
qed

lemma dequeue_events_spec:
  assumes "stream_inv (stream (mmap c))" "wf_bitset (mmap c)" "event e \<noteq> BITSET_STREAM_SET"
  shows "\<exists>e' st ce. dequeue_events c e = (e', (put_mmap ((mmap c)\<lparr>stream := st\<rparr>) c)\<lparr>clear_events := ce\<rparr>)
     \<and> stream_inv st \<and> set (stream_list st) \<subseteq> set (queued c)
     \<and> (\<forall>x\<in>set (queued c). event x = BITSET_STREAM_SET \<longrightarrow> x \<in> set (stream_list st) \<or> x = e')
     \<and> (event e' = BITSET_STREAM_SET \<longrightarrow> e' \<in> set (queued c))
     \<and> (event e' \<noteq> BITSET_STREAM_SET \<and> offset (mirror c) = serve_size (mserve c) \<longrightarrow> stream_list st = [])"
  using assms
proof (induction c e rule: dequeue_events.induct)
  case (1 c e)
  show ?case
  proof (cases "(offset (mirror c) = serve_size (mserve c) \<or> clear_events c) \<and> bitset_stream_size (mmap c) \<noteq> 0")
    case False
    then have "dequeue_events c e = (e, c)" using 1 by (auto simp: dequeue_events.simps [of c e] Let_def)
    moreover have "stream_list (stream (mmap c)) = []" if "bitset_stream_size (mmap c) = 0"
      using that by (simp add: bitset_stream_size_def stream_list_def)
    ultimately show ?thesis using 1 False
      by (intro exI [of _ e] exI [of _ "stream (mmap c)"] exI [of _ "clear_events c"]) auto
  next
    case True
    from bitset_stream_dequeue_spec [OF 1(3)] True obtain x st1 where
      x: "bitset_stream_dequeue (mmap c) = Some (x, (mmap c)\<lparr>stream := st1\<rparr>)"
        "queued c = x # stream_list st1" "stream_inv st1" by blast
    define c1 where "c1 = (put_mmap ((mmap c)\<lparr>stream := st1\<rparr>) c)\<lparr>clear_events :=
        (if bitset_stream_size (mmap c) < BITSET_STREAM_SIZE div 4 then False else clear_events c)\<rparr>"
    have step: "dequeue_events c e = dequeue_events c1 x"
      using True 1(4) x(1) by (subst dequeue_events.simps) (simp add: c1_def Let_def)
    have wf: "wf_bitset (mmap c1)" "stream_inv (stream (mmap c1))" using 1(3) x(3) by (auto simp: c1_def wf_bitset_def)
    have same: "offset (mirror c1) = offset (mirror c)" "serve_size (mserve c1) = serve_size (mserve c)"
      "mmap c1 = (mmap c)\<lparr>stream := st1\<rparr>" by (simp_all add: c1_def)
    have frame: "(put_mmap ((mmap c1)\<lparr>stream := st\<rparr>) c1)\<lparr>clear_events := ce\<rparr>
       = (put_mmap ((mmap c)\<lparr>stream := st\<rparr>) c)\<lparr>clear_events := ce\<rparr>" for st ce
      by (simp add: c1_def put_mmap_def mmap_def)
    have frame': "(put_mmap ((mmap c)\<lparr>stream := st\<rparr>) c1)\<lparr>clear_events := ce\<rparr>
       = (put_mmap ((mmap c)\<lparr>stream := st\<rparr>) c)\<lparr>clear_events := ce\<rparr>" for st ce
      by (simp add: c1_def put_mmap_def mmap_def)
    show ?thesis
    proof (cases "event x = BITSET_STREAM_SET")
      case True
      then have "dequeue_events c1 x = (x, c1)" by (subst dequeue_events.simps) simp
      with True step x show ?thesis
        by (intro exI [of _ x] exI [of _ st1] exI [of _ "clear_events c1"]) (auto simp: c1_def)
    next
      case False
      have cond: "(offset (mirror c) = serve_size (mserve c) \<or> clear_events c) \<and> event e \<noteq> BITSET_STREAM_SET"
        "bitset_stream_size (mmap c) \<noteq> 0" using True 1(4) by simp_all
      from 1(1) [OF cond(1) refl cond(2) x(1) refl, folded c1_def, OF wf(2,1) False]
      obtain e' st ce where "dequeue_events c1 x = (e', (put_mmap ((mmap c1)\<lparr>stream := st\<rparr>) c1)\<lparr>clear_events := ce\<rparr>)"
         "stream_inv st" "set (stream_list st) \<subseteq> set (queued c1)"
         "\<forall>x\<in>set (queued c1). event x = BITSET_STREAM_SET \<longrightarrow> x \<in> set (stream_list st) \<or> x = e'"
         "event e' = BITSET_STREAM_SET \<longrightarrow> e' \<in> set (queued c1)"
         "event e' \<noteq> BITSET_STREAM_SET \<and> offset (mirror c) = serve_size (mserve c) \<longrightarrow> stream_list st = []"
        unfolding same by auto
      with step x(2) False show ?thesis
        unfolding frame same by (intro exI [of _ e'] exI [of _ st] exI [of _ ce]) (auto simp: frame')
    qed
  qed
qed

definition new_xfer :: "u64 \<Rightarrow> u64 \<Rightarrow> xfer" where
  "new_xfer current run =
     \<lparr>hdr = request_raw_bytes (nbd_h2r_request (mirror_request current run)),
      xfer_from = current, xfer_len = run, xfer_written = 0, xfer_read = 0\<rparr>"

definition next_range :: "mirror_ctrl \<Rightarrow> u64 \<Rightarrow> bitset_stream_entry list \<Rightarrow> u64 \<Rightarrow> u64 \<Rightarrow> bool" where
  "next_range c o' q f l \<longleftrightarrow>
     offset (mirror c) \<le> o' \<and> o' \<le> serve_size (mserve c)
     \<and> 0 < unat l \<and> unat l < 2 ^ 32 \<and> unat f + unat l \<le> unat (serve_size (mserve c))
     \<and> (\<forall>p. unat (offset (mirror c)) \<le> p \<and> p < unat o' \<longrightarrow> unat f \<le> p \<and> p < unat f + unat l)
     \<and> (\<forall>e\<in>set (queued c). event e = BITSET_STREAM_SET \<longrightarrow> e \<in> set q \<or> entry_from e = f \<and> entry_len e = l)"

lemma next_offset:
  fixes off sz :: u64
  assumes "off < sz" "unat sz < 2 ^ 63"
  defines "run \<equiv> (if off + mirror_longest_write > sz then sz - off else mirror_longest_write)"
  shows "unat (off + run) = unat off + unat run" "unat off + unat run \<le> unat sz" "0 < unat run" "unat run < 2 ^ 32"
proof -
  have w: "unat (mirror_longest_write) = 8388608" by (simp add: mirror_longest_write_def push_bit_eq_mult)
  have lt: "unat off < unat sz" using assms(1) by (simp add: word_less_nat_alt)
  have a: "unat (off + mirror_longest_write) = unat off + 8388608"
    using lt assms(2) w by (subst unat_add_u64) simp_all
  have d: "unat (sz - off) = unat sz - unat off" using lt by (subst unat_sub_u64) (simp_all add: word_le_nat_alt)
  show r: "unat off + unat run \<le> unat sz" "0 < unat run" "unat run < 2 ^ 32"
    using a d lt w by (auto simp: run_def word_less_nat_alt)
  show "unat (off + run) = unat off + unat run" using r(1) assms(2) by (subst unat_add_u64) simp_all
qed

lemma mirror_setup_dequeues:
  assumes ok: "ctrl_ok c"
  obtains c1 e st ce where
    "c1 = (if offset (mirror c) < serve_size (mserve c) \<and> bitset_stream_size (mmap c) > BITSET_STREAM_SIZE div 2
           then c\<lparr>clear_events := True\<rparr> else c)"
    "dequeue_events c1 zero_entry = (e, (put_mmap ((mmap c)\<lparr>stream := st\<rparr>) c)\<lparr>clear_events := ce\<rparr>)"
    "stream_inv st" "set (stream_list st) \<subseteq> set (queued c)"
    "\<forall>x\<in>set (queued c). event x = BITSET_STREAM_SET \<longrightarrow> x \<in> set (stream_list st) \<or> x = e"
    "event e = BITSET_STREAM_SET \<longrightarrow> e \<in> set (queued c)"
    "event e \<noteq> BITSET_STREAM_SET \<and> offset (mirror c) = serve_size (mserve c) \<longrightarrow> stream_list st = []"
proof -
  define c1 where "c1 = (if offset (mirror c) < serve_size (mserve c) \<and> bitset_stream_size (mmap c) > BITSET_STREAM_SIZE div 2
                then c\<lparr>clear_events := True\<rparr> else c)"
  have same: "mmap c1 = mmap c" "mirror c1 = mirror c" "mserve c1 = mserve c" by (simp_all add: c1_def)
  have frame: "(put_mmap bs c1)\<lparr>clear_events := ce\<rparr> = (put_mmap bs c)\<lparr>clear_events := ce\<rparr>" for bs ce
    by (simp add: c1_def put_mmap_def)
  have "stream_inv (stream (mmap c1))" "wf_bitset (mmap c1)" "event zero_entry \<noteq> BITSET_STREAM_SET"
    using ok unfolding same by (auto simp: ctrl_ok_def wf_bitset_def zero_entry_def)
  from dequeue_events_spec [OF this, unfolded same frame] that [OF c1_def] show ?thesis by blast
qed

lemma mirror_setup_next_xfer_spec:
  assumes ok: "ctrl_ok c"
  shows "\<exists>st ce. stream_inv st \<and> set (stream_list st) \<subseteq> set (queued c)
     \<and> ((\<exists>f l o'. mirror_setup_next_xfer c =
            (True, (put_mmap ((mmap c)\<lparr>stream := st\<rparr>) c)\<lparr>clear_events := ce,
                      mirror := (mirror c)\<lparr>offset := o'\<rparr>, xfer := new_xfer f l\<rparr>)
          \<and> next_range c o' (stream_list st) f l)
        \<or> mirror_setup_next_xfer c =
            (False, (put_mmap ((mmap c)\<lparr>stream := st\<rparr>) c)\<lparr>clear_events := ce\<rparr>)
          \<and> offset (mirror c) = serve_size (mserve c)
          \<and> (\<forall>e\<in>set (queued c). event e \<noteq> BITSET_STREAM_SET) \<and> stream_list st = [])"
proof -
  obtain c1 e st ce where c1: "c1 = (if offset (mirror c) < serve_size (mserve c)
           \<and> bitset_stream_size (mmap c) > BITSET_STREAM_SIZE div 2 then c\<lparr>clear_events := True\<rparr> else c)"
    and d: "dequeue_events c1 zero_entry = (e, (put_mmap ((mmap c)\<lparr>stream := st\<rparr>) c)\<lparr>clear_events := ce\<rparr>)"
    and st: "stream_inv st" "set (stream_list st) \<subseteq> set (queued c)"
     "\<forall>x\<in>set (queued c). event x = BITSET_STREAM_SET \<longrightarrow> x \<in> set (stream_list st) \<or> x = e"
     "event e = BITSET_STREAM_SET \<longrightarrow> e \<in> set (queued c)"
     "event e \<noteq> BITSET_STREAM_SET \<and> offset (mirror c) = serve_size (mserve c) \<longrightarrow> stream_list st = []"
    by (rule mirror_setup_dequeues [OF ok])
  let ?c2 = "(put_mmap ((mmap c)\<lparr>stream := st\<rparr>) c)\<lparr>clear_events := ce\<rparr>"
  note nx = mirror_setup_next_xfer_def [of c, unfolded Let_def, folded c1, unfolded d]
  have off: "offset (mirror c) \<le> serve_size (mserve c)" "unat (serve_size (mserve c)) < 2 ^ 63"
    using ok by (simp_all add: ctrl_ok_def)
  consider "event e = BITSET_STREAM_SET" | "event e \<noteq> BITSET_STREAM_SET" "offset (mirror c) < serve_size (mserve c)"
    | "event e \<noteq> BITSET_STREAM_SET" "offset (mirror c) = serve_size (mserve c)" using off by fastforce
  then show ?thesis
  proof cases
    case 1
    then have "set_ok (serve_size (mserve c)) e" using ok st(4) by (simp add: ctrl_ok_def)
    then have "next_range c (offset (mirror c)) (stream_list st) (entry_from e) (entry_len e)"
      using st(3) off by (auto simp: next_range_def set_ok_def)
    moreover have "mirror_setup_next_xfer c = (True, ?c2\<lparr>mirror := (mirror c)\<lparr>offset := offset (mirror c)\<rparr>,
        xfer := new_xfer (entry_from e) (entry_len e)\<rparr>)"
      using 1 by (simp add: nx start_xfer_def new_xfer_def put_mmap_def)
    ultimately show ?thesis using st(1,2) by blast
  next
    case 2
    define run where "run = (if offset (mirror c) + mirror_longest_write > serve_size (mserve c)
       then serve_size (mserve c) - offset (mirror c) else mirror_longest_write)"
    note n = next_offset [OF 2(2) off(2), folded run_def]
    have "next_range c (offset (mirror c) + run) (stream_list st) (offset (mirror c)) run"
      using st(3) 2(1) n by (auto simp: next_range_def word_le_nat_alt)
    moreover have "mirror_setup_next_xfer c = (True, ?c2\<lparr>mirror := (mirror c)\<lparr>offset := offset (mirror c) + run\<rparr>,
        xfer := new_xfer (offset (mirror c)) run\<rparr>)"
      using 2 by (simp add: nx start_xfer_def new_xfer_def run_def)
    ultimately show ?thesis using st(1,2) by blast
  next
    case 3
    then have "mirror_setup_next_xfer c = (False, ?c2)" by (simp add: nx)
    moreover have "\<forall>e\<in>set (queued c). event e \<noteq> BITSET_STREAM_SET" using st(3,5) 3 by auto
    ultimately show ?thesis using st 3 by blast
  qed
qed

subsection \<open>Every step keeps the mirror well formed\<close>

fun mirror_event_ok :: "u64 \<Rightarrow> mirror_event \<Rightarrow> bool" where
  "mirror_event_ok sz (ClientMark from len) =
     (0 < unat len \<and> unat len < 2 ^ 32 \<and> unat from + unat len \<le> unat sz)"
| "mirror_event_ok sz _ = True"

lemma ctrl_ok_cong:
  assumes "mserve c' = mserve c" "offset (mirror c') = offset (mirror c)"
  shows "ctrl_ok c' = ctrl_ok c"
  using assms by (simp add: ctrl_ok_def mmap_def)

lemma ctrl_ok_stream:
  assumes "ctrl_ok c" "stream_inv st" "offset (mirror c') \<le> serve_size (mserve c)"
    "\<forall>e\<in>set (stream_list st). event e = BITSET_STREAM_SET \<longrightarrow> set_ok (serve_size (mserve c)) e"
    "mserve c' = (mserve c)\<lparr>allocation_map := (mmap c)\<lparr>stream := st\<rparr>\<rparr>"
  shows "ctrl_ok c'"
  using assms by (auto simp: ctrl_ok_def mmap_def wf_bitset_def)

lemma setup_ctrl_ok:
  assumes "ctrl_ok c" "mirror_setup_next_xfer c = (b, c')"
  shows "ctrl_ok c' \<and> serve_size (mserve c') = serve_size (mserve c)
     \<and> commit_state (mirror c') = commit_state (mirror c) \<and> mapped (mirror c') = mapped (mirror c)
     \<and> read_watcher c' = read_watcher c \<and> joining c' = joining c
     \<and> (b \<longrightarrow> xfer_written (xfer c') = 0 \<and> 0 < unat (xfer_len (xfer c')))"
proof -
  from mirror_setup_next_xfer_spec [OF assms(1)] obtain st ce where st: "stream_inv st"
      "set (stream_list st) \<subseteq> set (queued c)"
    and "(\<exists>f l o'. mirror_setup_next_xfer c =
            (True, (put_mmap ((mmap c)\<lparr>stream := st\<rparr>) c)\<lparr>clear_events := ce,
                      mirror := (mirror c)\<lparr>offset := o'\<rparr>, xfer := new_xfer f l\<rparr>)
          \<and> next_range c o' (stream_list st) f l)
        \<or> mirror_setup_next_xfer c = (False, (put_mmap ((mmap c)\<lparr>stream := st\<rparr>) c)\<lparr>clear_events := ce\<rparr>)"
    by blast
  with assms(2) have alt: "(\<exists>f l o'. b \<and> c' = (put_mmap ((mmap c)\<lparr>stream := st\<rparr>) c)\<lparr>clear_events := ce,
                      mirror := (mirror c)\<lparr>offset := o'\<rparr>, xfer := new_xfer f l\<rparr>
          \<and> next_range c o' (stream_list st) f l)
        \<or> \<not> b \<and> c' = (put_mmap ((mmap c)\<lparr>stream := st\<rparr>) c)\<lparr>clear_events := ce\<rparr>"
    by auto
  have ev: "\<forall>e\<in>set (stream_list st). event e = BITSET_STREAM_SET \<longrightarrow> set_ok (serve_size (mserve c)) e"
    using st(2) assms(1) by (auto simp: ctrl_ok_def)
  from alt have "ctrl_ok c'"
  proof (elim disjE exE conjE)
    fix f l o' assume c': "c' = (put_mmap ((mmap c)\<lparr>stream := st\<rparr>) c)\<lparr>clear_events := ce,
                      mirror := (mirror c)\<lparr>offset := o'\<rparr>, xfer := new_xfer f l\<rparr>"
      and "next_range c o' (stream_list st) f l"
    then show ?thesis using ctrl_ok_stream [OF assms(1) st(1) _ ev, of c']
      by (simp add: next_range_def put_mmap_def)
  next
    assume c': "c' = (put_mmap ((mmap c)\<lparr>stream := st\<rparr>) c)\<lparr>clear_events := ce\<rparr>"
    then show ?thesis using ctrl_ok_stream [OF assms(1) st(1) _ ev, of c'] assms(1)
      by (simp add: put_mmap_def ctrl_ok_def)
  qed
  with alt show ?thesis by (auto simp: new_xfer_def next_range_def put_mmap_def)
qed

lemma enqueue_ctrl_ok:
  assumes "ctrl_ok c" "bitset_stream_enqueue ((mmap c)\<lparr>stream_enabled := en\<rparr>) ev from len = r"
    "r = Done bs \<or> r = Blocked bs" "ev \<noteq> BITSET_STREAM_SET"
    "mserve c' = (mserve c)\<lparr>allocation_map := bs\<lparr>stream_enabled := en'\<rparr>\<rparr>" "offset (mirror c') = offset (mirror c)"
  shows "ctrl_ok c'"
proof -
  have wf: "wf_bitset ((mmap c)\<lparr>stream_enabled := en\<rparr>)" using assms(1) by (auto simp: ctrl_ok_def wf_bitset_def)
  from enqueue_spec [OF wf, of ev "from" len] assms(2,3)
  have "bits bs = bits (mmap c) \<and> wf_bitset bs \<and> bs_size bs = bs_size (mmap c) \<and> set (stream_list (stream bs))
       \<subseteq> insert \<lparr>event = ev, entry_from = from, entry_len = len\<rparr> (set (queued c))"
    by (auto simp: same_shape_def split: if_splits)
  with assms show ?thesis
    by (auto simp: ctrl_ok_def mmap_def wf_bitset_def)
qed

lemma enable_stream_ok:
  assumes "ctrl_ok c" "enable_stream c = Ret u c'"
  shows "ctrl_ok c' \<and> (\<exists>bs. c' = put_mmap bs c \<and> stream_enabled bs)"
proof -
  from assms(2) obtain bs where bs: "bitset_enable_stream (mmap c) = Done bs" "c' = put_mmap bs c"
    by (auto simp: enable_stream_def split: cresult.splits)
  then have e: "stream_enabled bs"
    by (auto simp: bitset_enable_stream_def bitset_stream_enqueue_def split: option.splits)
  have "bs = bs\<lparr>stream_enabled := True\<rparr>" using e by simp
  with enqueue_ctrl_ok [OF assms(1), of True BITSET_STREAM_ON 0 "bs_size (mmap c)" "Done bs" bs c' True] bs e
  show ?thesis by (auto simp: bitset_enable_stream_def put_mmap_def)
qed

lemma mark_ctrl_ok:
  assumes "ctrl_ok c" "mirror_event_ok (serve_size (mserve c)) (ClientMark from len)"
    "bitset_set_range (mmap c) from len = Done bs \<or> bitset_set_range (mmap c) from len = Blocked bs"
  shows "ctrl_ok (put_mmap bs c)"
proof -
  have wf: "wf_bitset (mmap c)" "bs_size (mmap c) = serve_size (mserve c)" using assms(1) by (simp_all add: ctrl_ok_def)
  from bitset_set_range_spec [of "mmap c" len "from"] wf assms(2,3)
  have "range_effect True BITSET_STREAM_SET (mmap c) from len bs" by (auto split: if_splits)
  then have "wf_bitset bs" "bs_size bs = bs_size (mmap c)" "set (stream_list (stream bs))
       \<subseteq> insert \<lparr>event = BITSET_STREAM_SET, entry_from = from, entry_len = len\<rparr> (set (queued c))"
    by (auto simp: range_effect_def same_shape_def split: if_splits)
  with assms(1,2) show ?thesis by (auto simp: ctrl_ok_def set_ok_def)
qed

lemma mirror_complete_ok:
  "mirror_complete ok c = Ret u c' \<Longrightarrow>
     mmap c' = mmap c \<and> file_map (mserve c') = file_map (mserve c) \<and> serve_size (mserve c') = serve_size (mserve c)
     \<and> mirror c' = mirror_set_state_f (mirror c) MS_DONE \<and> xfer c' = xfer c \<and> joining c' = joining c
     \<and> clients_closed c' = clients_closed c \<and> write_watcher c' = write_watcher c \<and> limit_watcher c' = limit_watcher c
     \<and> begin_watcher c' = begin_watcher c"
  by (auto simp: mirror_complete_def mirror_on_exit_def server_unlink_def set_state_def Let_def mmap_def split: if_splits)

lemma ctrl_ok_same:
  "ctrl_ok c \<Longrightarrow> mmap c' = mmap c \<Longrightarrow> file_map (mserve c') = file_map (mserve c) \<Longrightarrow>
     serve_size (mserve c') = serve_size (mserve c) \<Longrightarrow> offset (mirror c') = offset (mirror c) \<Longrightarrow> ctrl_ok c'"
  by (simp add: ctrl_ok_def)

definition same_srv :: "mirror_ctrl \<Rightarrow> mirror_ctrl \<Rightarrow> bool" where
  "same_srv c c' \<longleftrightarrow> (ctrl_ok c \<longrightarrow> ctrl_ok c') \<and> serve_size (mserve c') = serve_size (mserve c)
     \<and> mapped (mirror c') = mapped (mirror c)"

lemma same_srv_refl [simp]: "same_srv c c"
  by (simp add: same_srv_def)

lemma same_srv_trans: "same_srv a b \<Longrightarrow> same_srv b c \<Longrightarrow> same_srv a c"
  by (simp add: same_srv_def)

lemma same_srv_upd:
  assumes "mmap c' = mmap c" "file_map (mserve c') = file_map (mserve c)"
    "serve_size (mserve c') = serve_size (mserve c)" "offset (mirror c') = offset (mirror c)"
    "mapped (mirror c') = mapped (mirror c)"
  shows "same_srv c c'"
  unfolding same_srv_def using assms by (intro conjI impI ctrl_ok_same [of c c'])

lemma mirror_wrote_frame [simp]:
  "mserve (mirror_wrote n c) = mserve c" "mirror (mirror_wrote n c) = mirror c" "mmap (mirror_wrote n c) = mmap c"
  "joining (mirror_wrote n c) = joining c" "clients_closed (mirror_wrote n c) = clients_closed c"
  "limit_watcher (mirror_wrote n c) = limit_watcher c" "begin_watcher (mirror_wrote n c) = begin_watcher c"
  "loop_broken (mirror_wrote n c) = loop_broken c" "hdr (xfer (mirror_wrote n c)) = hdr (xfer c)"
  "xfer_from (xfer (mirror_wrote n c)) = xfer_from (xfer c)" "xfer_len (xfer (mirror_wrote n c)) = xfer_len (xfer c)"
  "xfer_read (xfer (mirror_wrote n c)) = xfer_read (xfer c)"
  "xfer_written (xfer (mirror_wrote n c)) = xfer_written (xfer c) + n"
  by (simp_all add: mirror_wrote_def Let_def mmap_def)

lemma mirror_write_cb_cases:
  assumes "mirror_write_cb r c = Ret w c'"
  obtains "w = []" "c' = c" | "w = []" "c' = c\<lparr>loop_broken := True\<rparr>"
    | n where "n \<le> mirror_to_write c" "mirror_to_write c \<le> length (mirror_data_loc c)" "w = take n (mirror_data_loc c)"
        "c' = mirror_wrote n c" "xfer_written (xfer c) < NBD_REQUEST_SIZE \<or> mapped (mirror c)"
proof (cases "if xfer_written (xfer c) \<ge> NBD_REQUEST_SIZE \<and> \<not> mapped (mirror c) then WrFail EFAULT else r")
  case (Accept k)
  with assms have "w = take (min k (mirror_to_write c)) (mirror_data_loc c)" "c' = mirror_wrote (min k (mirror_to_write c)) c"
      "mirror_to_write c \<le> length (mirror_data_loc c)"
    by (simp_all add: mirror_write_cb_def Let_def split: if_split_asm)
  moreover have "xfer_written (xfer c) < NBD_REQUEST_SIZE \<or> mapped (mirror c)"
    using Accept by (auto split: if_splits)
  ultimately show ?thesis using that(3) [of "min k (mirror_to_write c)"] by simp
next
  case (WrFail e)
  with assms have "w = []" "c' = (if io_errno_permanent e then c\<lparr>loop_broken := True\<rparr> else c)"
    by (simp_all add: mirror_write_cb_def)
  then show ?thesis using that(1,2) by presburger
qed

lemma write_cb_same: "mirror_write_cb r c = Ret w c' \<Longrightarrow> same_srv c c'"
  by (erule mirror_write_cb_cases) (auto intro!: same_srv_upd)

lemma read_reply_same: "mirror_read_reply r c = (b, c') \<Longrightarrow> same_srv c c' \<and> joining c' = joining c"
  by (intro conjI same_srv_upd) (auto simp: mirror_read_reply_def Let_def mmap_def split: sum.splits if_splits)

lemma setup_same: "ctrl_ok c \<Longrightarrow> mirror_setup_next_xfer c = (b, c') \<Longrightarrow> same_srv c c'"
  using setup_ctrl_ok [of c b c'] by (simp add: same_srv_def)

lemma xfer_done_same:
  assumes "ctrl_ok c"
  shows "same_srv c (mirror_xfer_done now c)"
proof -
  define c1 where "c1 = c\<lparr>xfer := (xfer c)\<lparr>xfer_read := 0, xfer_written := 0\<rparr>\<rparr>"
  define c2 where "c2 = (if \<not> clear_events c1
                then c1\<lparr>mirror := (mirror c1)\<lparr>all_dirty := all_dirty (mirror c1) + xfer_len (xfer c1)\<rparr>\<rparr> else c1)"
  obtain b c4 where s: "mirror_setup_next_xfer (c2\<lparr>timeout_watcher := False\<rparr>) = (b, c4)" by fastforce
  have a: "same_srv c (c2\<lparr>timeout_watcher := False\<rparr>)" by (rule same_srv_upd) (simp_all add: c1_def c2_def)
  with assms setup_same [OF _ s] have "same_srv c c4" by (auto simp: same_srv_def)
  moreover have "same_srv c4 (mirror_xfer_done now c)"
    unfolding mirror_xfer_done_def Let_def c1_def [symmetric] c2_def [symmetric] s
    by (rule same_srv_upd) (simp_all add: mmap_def)
  ultimately show ?thesis by (rule same_srv_trans)
qed

lemma mirror_proceed_cases:
  assumes "mirror_proceed now ok nx c = Ret b c'"
  obtains c3 where "\<not> nx" "\<not> b" "clients_closed c" "mirror_complete ok c = Ret () c3" "c' = c3\<lparr>loop_broken := True\<rparr>"
    | "nx" "b" "c' = c\<lparr>read_watcher := False, limit_watcher := True\<rparr>"
    | "nx" "b" "c' = c\<lparr>read_watcher := False, timeout_watcher := True, write_watcher := True\<rparr>"
proof (cases nx)
  case True
  with assms have "b" "c' = c\<lparr>read_watcher := False, limit_watcher := True\<rparr>
      \<or> c' = c\<lparr>read_watcher := False, timeout_watcher := True, write_watcher := True\<rparr>"
    by (auto simp: mirror_proceed_def Let_def split: if_split_asm)
  with True that(2,3) show ?thesis by blast
next
  case False
  with assms that(1) show ?thesis by (auto simp: mirror_proceed_def split: if_split_asm)
qed

lemma close_done_same:
  assumes "ctrl_ok c" "mirror_close_done nx cl c = (b, c')"
  shows "same_srv c c'"
proof -
  have a: "same_srv c (c\<lparr>clients_closed := True\<rparr>)" by (rule same_srv_upd) simp_all
  with assms(1) have "ctrl_ok (c\<lparr>clients_closed := True\<rparr>)" by (simp add: same_srv_def)
  from setup_same [OF this, of b c'] same_srv_trans [OF a, of c'] a assms(2) show ?thesis
    by (auto simp: mirror_close_done_def split: if_split_asm)
qed

lemma proceed_same: "mirror_proceed now ok nx c = Ret b c' \<Longrightarrow> same_srv c c'"
proof (erule mirror_proceed_cases, goal_cases)
  case (1 c3)
  with mirror_complete_ok [OF 1(4)] show ?case
    by (intro same_srv_upd) (simp_all add: mirror_set_state_f_def)
qed (auto intro: same_srv_upd)

lemma joined_same:
  assumes "ctrl_ok c" "mirror_joined now ok c = Ret b c'"
  shows "same_srv c c'"
proof (cases "joining c")
  case None
  with assms(2) show ?thesis by (simp add: mirror_joined_def)
next
  case (Some p)
  then obtain nx cl where j: "joining c = Some (nx, cl)" by (cases p) simp
  obtain b1 c1 where s: "mirror_close_done nx cl c = (b1, c1)" by fastforce
  have "same_srv c1 (c1\<lparr>joining := None\<rparr>)" by (rule same_srv_upd) simp_all
  moreover have "same_srv (c1\<lparr>joining := None\<rparr>) c'"
    using assms(2) j s proceed_same by (simp add: mirror_joined_def)
  ultimately show ?thesis using close_done_same [OF assms(1) s] by (blast intro: same_srv_trans)
qed

lemma begin_cb_same:
  assumes "mirror_begin_cb c = Ret u c'"
  shows "same_srv c c'"
proof (cases "allocation_map_built (mserve c) \<or> allocation_map_not_built (mserve c)")
  case True
  let ?c = "c\<lparr>begin_watcher := False, write_watcher := True, timeout_watcher := True\<rparr>"
  have "ctrl_ok ?c = ctrl_ok c" by (rule ctrl_ok_cong) simp_all
  with True assms enable_stream_ok [of ?c u c'] show ?thesis
    by (auto simp: mirror_begin_cb_def same_srv_def enable_stream_def split: cresult.splits)
next
  case False
  with assms show ?thesis by (intro same_srv_upd) (auto simp: mirror_begin_cb_def)
qed

lemma limit_cb_same: "same_srv c (mirror_limit_cb now c)"
  by (rule same_srv_upd) (simp_all add: mirror_limit_cb_def)

lemma abandon_cb_same: "same_srv c (mirror_abandon_cb c)"
  by (rule same_srv_upd) (simp_all add: mirror_abandon_cb_def set_state_def mirror_set_state_f_def)

lemma timeout_cb_same: "same_srv c (mirror_timeout_cb c)"
  by (rule same_srv_upd) (simp_all add: mirror_timeout_cb_def)

lemma mirror_dispatch_ok:
  assumes "ctrl_ok c" "mirror_event_ok (serve_size (mserve c)) ev" "mirror_dispatch ev c = Ret w c'"
  shows "same_srv c c'"
proof (cases ev)
  case (ClientStore at bs)
  have "length m' = length (file_map (mserve c))" if "mem_write at bs (file_map (mserve c)) = Some m'" for m'
    using that by (auto simp: mem_write.simps split: if_splits)
  with ClientStore assms show ?thesis
    by (auto simp: same_srv_def ctrl_ok_def mmap_def split: option.splits)
next
  case (ClientMark "from" len)
  with assms mark_ctrl_ok [OF assms(1), of "from" len] show ?thesis
    by (auto simp: same_srv_def split: cresult.splits)
next
  case (ReadReady r now)
  then show ?thesis
  proof (cases "joining c = None \<and> read_watcher c")
    case True
    obtain b c1 where r: "mirror_read_reply r c = (b, c1)" by fastforce
    with read_reply_same [OF r] assms(1) have "same_srv c c1" "ctrl_ok c1" by (auto simp: same_srv_def)
    with True r ReadReady assms(3) xfer_done_same [of c1 now] show ?thesis
      by (auto intro: same_srv_trans)
  qed (use assms ReadReady in auto)
next
  case (ClientsJoined now ok)
  with assms joined_same [OF assms(1), of now ok] show ?thesis
    by (auto simp: then_Ret_def and_then.simps split: if_splits outcome.splits)
next
  case BeginFired
  with assms begin_cb_same [of c] show ?thesis
    by (auto simp: then_Ret_def and_then.simps split: if_splits outcome.splits)
qed (use assms write_cb_same timeout_cb_same abandon_cb_same limit_cb_same in \<open>auto split: if_splits\<close>)

lemma mirror_loop_same:
  "ctrl_ok c \<Longrightarrow> list_all (mirror_event_ok (serve_size (mserve c))) evs \<Longrightarrow> mirror_loop evs c = Ret w c' \<Longrightarrow>
     same_srv c c'"
proof (induction evs arbitrary: c w)
  case (Cons ev evs)
  show ?case
  proof (cases "loop_broken c")
    case False
    with Cons.prems(3) obtain w1 c1 w2 where d: "mirror_dispatch ev c = Ret w1 c1" "mirror_loop evs c1 = Ret w2 c'"
      by auto
    with mirror_dispatch_ok [OF Cons.prems(1) _ d(1)] Cons.prems(2) have s: "same_srv c c1" by simp
    then have "same_srv c1 c'"
      using Cons.prems Cons.IH [OF _ _ d(2)] by (simp add: same_srv_def)
    with s show ?thesis by (rule same_srv_trans)
  qed (use Cons.prems in simp)
qed (auto split: if_splits)

subsection \<open>A mirror without its mapping\<close>

definition unmapped_loop :: "mirror_ctrl \<Rightarrow> bool" where
  "unmapped_loop c \<longleftrightarrow>
     \<not> mapped (mirror c) \<and> commit_state (mirror c) \<noteq> MS_DONE \<and> \<not> read_watcher c \<and> joining c = None
     \<and> xfer_written (xfer c) \<le> NBD_REQUEST_SIZE \<and> 0 < unat (xfer_len (xfer c))"

lemma unmapped_wrote:
  assumes "unmapped_loop c" "n \<le> mirror_to_write c" "xfer_written (xfer c) < NBD_REQUEST_SIZE"
  shows "unmapped_loop (mirror_wrote n c)"
proof -
  have le: "xfer_written (xfer c) + n \<le> NBD_REQUEST_SIZE" using assms(2,3) by (simp add: mirror_to_write_def Let_def)
  then have "xfer_written (xfer c) + n \<noteq> unat (xfer_len (xfer c)) + NBD_REQUEST_SIZE"
    using assms(1) by (simp add: unmapped_loop_def)
  then have "read_watcher (mirror_wrote n c) = read_watcher c" by (simp add: mirror_wrote_def)
  with assms(1) le show ?thesis by (simp add: unmapped_loop_def)
qed

lemma unmapped_dispatch:
  assumes u: "unmapped_loop c"
  shows "mirror_dispatch ev c = Ret w c' \<Longrightarrow> unmapped_loop c'"
    and "mirror_dispatch ev c \<noteq> Error c'"
proof -
  have j: "joining c = None" "\<not> read_watcher c" using u by (simp_all add: unmapped_loop_def)
  have b: "mirror_begin_cb c \<noteq> Error c'" "mirror_begin_cb c = Ret () c' \<Longrightarrow> unmapped_loop c'"
    using u by (auto simp: mirror_begin_cb_def enable_stream_def unmapped_loop_def split: if_split_asm cresult.splits)
  have w: "mirror_write_cb r c = Ret w c' \<Longrightarrow> unmapped_loop c'" for r
    by (erule mirror_write_cb_cases) (use u unmapped_wrote in \<open>auto simp: unmapped_loop_def\<close>)
  have we: "mirror_write_cb r c \<noteq> Error c'" for r
    by (simp add: mirror_write_cb_def Let_def split: wr.splits if_splits)
  show "mirror_dispatch ev c = Ret w c' \<Longrightarrow> unmapped_loop c'"
    using j u w b(2)
    by (cases ev) (auto simp: then_Ret_def unmapped_loop_def mirror_timeout_cb_def mirror_abandon_cb_def
        mirror_limit_cb_def set_state_def mirror_set_state_f_def split: if_split_asm option.splits cresult.splits)
  show "mirror_dispatch ev c \<noteq> Error c'"
    using j b(1) we by (cases ev; cases "mirror_begin_cb c") (auto simp: then_Ret_def split: option.splits cresult.splits)
qed

lemma unmapped_mirror_loop:
  assumes "unmapped_loop c"
  shows "mirror_loop evs c = Ret w c' \<Longrightarrow> unmapped_loop c'" and "mirror_loop evs c \<noteq> Error c'"
proof -
  have "(\<forall>w. mirror_loop evs c = Ret w c' \<longrightarrow> unmapped_loop c') \<and> mirror_loop evs c \<noteq> Error c'"
    using assms
  proof (induction evs arbitrary: c)
    case (Cons ev evs)
    show ?case
    proof (cases "mirror_dispatch ev c")
      case (Ret w1 c1)
      from unmapped_dispatch(1) [OF Cons.prems Ret] have "unmapped_loop c1" .
      from Cons.IH [OF this] Ret Cons.prems show ?thesis by (cases "mirror_loop evs c1") auto
    qed (use unmapped_dispatch(2) [OF Cons.prems] Cons.prems in auto)
  qed auto
  then show "mirror_loop evs c = Ret w c' \<Longrightarrow> unmapped_loop c'" "mirror_loop evs c \<noteq> Error c'" by auto
qed

definition hopeless :: "u64 \<Rightarrow> mirror_ctrl \<Rightarrow> bool" where
  "hopeless sz c \<longleftrightarrow> ctrl_ok c \<and> \<not> mapped (mirror c) \<and> serve_size (mserve c) = sz \<and> sz \<noteq> 0"

lemma hopeless_cong:
  "hopeless sz c \<Longrightarrow> mserve c' = mserve c \<Longrightarrow> offset (mirror c') = offset (mirror c) \<Longrightarrow>
     mapped (mirror c') = mapped (mirror c) \<Longrightarrow> hopeless sz c'"
  using ctrl_ok_cong [of c' c] by (simp add: hopeless_def)

lemma hopeless_same: "hopeless sz c \<Longrightarrow> same_srv c c' \<Longrightarrow> hopeless sz c'"
  by (auto simp: hopeless_def same_srv_def)

lemma hopeless_begin:
  assumes "hopeless sz c" "commit_state (mirror c) \<noteq> MS_DONE" "\<not> read_watcher c" "joining c = None"
  shows "mirror_run_begin now ok c = Ret b c' \<Longrightarrow> b \<and> same_srv c c' \<and> unmapped_loop c'"
    and "mirror_run_begin now ok c = Error c' \<Longrightarrow> hopeless sz c' \<and> commit_state (mirror c') \<noteq> MS_DONE"
proof -
  define c1 where "c1 = c\<lparr>mirror := (mirror c)\<lparr>migration_started := now\<rparr>, abandon_watcher := True\<rparr>"
  obtain nx c2 where s: "mirror_setup_next_xfer c1 = (nx, c2)" by fastforce
  have "same_srv c c1" by (rule same_srv_upd) (simp_all add: c1_def)
  moreover have ok1: "ctrl_ok c1" using assms(1) calculation by (simp add: hopeless_def same_srv_def)
  note k = setup_ctrl_ok [OF ok1 s]
  ultimately have s2: "same_srv c c2" using setup_same [OF ok1 s] by (blast intro: same_srv_trans)
  have run: "mirror_run_begin now ok c =
     (if \<not> nx then Error c2
      else if allocation_map_built (mserve c2)
      then and_then (enable_stream (c2\<lparr>write_watcher := True, timeout_watcher := True\<rparr>)) (\<lambda>_. Ret True)
      else Ret True (c2\<lparr>begin_watcher := True\<rparr>))"
    using assms(1) s by (simp add: mirror_run_begin_def c1_def hopeless_def Let_def)
  have st: "\<not> mapped (mirror c2)" "commit_state (mirror c2) \<noteq> MS_DONE" "\<not> read_watcher c2" "joining c2 = None"
    using k assms by (auto simp: c1_def hopeless_def)
  show "mirror_run_begin now ok c = Error c' \<Longrightarrow> hopeless sz c' \<and> commit_state (mirror c') \<noteq> MS_DONE"
    using run st hopeless_same [OF assms(1) s2]
    by (cases "enable_stream (c2\<lparr>write_watcher := True, timeout_watcher := True\<rparr>)")
      (auto simp: enable_stream_def split: if_split_asm cresult.splits)
  assume r: "mirror_run_begin now ok c = Ret b c'"
  then have nx: "nx" using run by (auto split: if_split_asm)
  let ?c3 = "c2\<lparr>write_watcher := True, timeout_watcher := True\<rparr>"
  have c3: "ctrl_ok ?c3" using k by (subst ctrl_ok_cong [of _ c2]) simp_all
  show "b \<and> same_srv c c' \<and> unmapped_loop c'"
  proof (cases "allocation_map_built (mserve c2)")
    case True
    with r run nx obtain u where e: "enable_stream ?c3 = Ret u c'" "b" by auto
    from enable_stream_ok [OF c3 e(1)] e(2) st k nx s2 show ?thesis
      by (auto simp: same_srv_def unmapped_loop_def)
  next
    case False
    with r run nx have c': "b" "c' = c2\<lparr>begin_watcher := True\<rparr>" by auto
    have "same_srv c2 c'" by (rule same_srv_upd) (simp_all add: c')
    with c' st k nx s2 show ?thesis by (auto simp: unmapped_loop_def intro: same_srv_trans)
  qed
qed

lemma and_then_Error:
  "and_then m k = Error s' \<longleftrightarrow> m = Error s' \<or> (\<exists>a s. m = Ret a s \<and> k a s = Error s')"
  by (cases m) auto

lemma joined_error_same:
  assumes "ctrl_ok c" "mirror_joined now ok c = Error c'"
  shows "same_srv c c'"
proof -
  from assms(2) obtain nx cl where j: "joining c = Some (nx, cl)" by (auto simp: mirror_joined_def split: option.splits)
  obtain b1 c1 where s: "mirror_close_done nx cl c = (b1, c1)" by fastforce
  have "mirror_complete ok x \<noteq> Error y" for x y
    by (simp add: mirror_complete_def mirror_on_exit_def server_unlink_def Let_def)
  then have "c' = c1\<lparr>joining := None\<rparr>"
    using assms(2) j s by (auto simp: mirror_joined_def mirror_proceed_def and_then_Error Let_def split: if_split_asm)
  moreover have "same_srv c1 (c1\<lparr>joining := None\<rparr>)" by (rule same_srv_upd) simp_all
  ultimately show ?thesis using close_done_same [OF assms(1) s] by (auto intro: same_srv_trans)
qed

lemma dispatch_error_same:
  assumes "ctrl_ok c" "mirror_dispatch ev c = Error c'"
  shows "same_srv c c'"
  using assms joined_error_same [OF assms(1), of _ _ c']
  by (cases ev)
    (auto simp: then_Ret_def and_then_Error mirror_begin_cb_def enable_stream_def mirror_write_cb_def Let_def
      split: if_split_asm cresult.splits option.splits wr.splits prod.splits)

lemma mirror_loop_error_same:
  "ctrl_ok c \<Longrightarrow> list_all (mirror_event_ok (serve_size (mserve c))) evs \<Longrightarrow> mirror_loop evs c = Error c' \<Longrightarrow>
     same_srv c c'"
proof (induction evs arbitrary: c)
  case (Cons ev evs)
  then have nb: "\<not> loop_broken c" by auto
  show ?case
  proof (cases "mirror_dispatch ev c")
    case (Ret w1 c1)
    with mirror_dispatch_ok [OF Cons.prems(1) _ Ret] Cons.prems(2) have s: "same_srv c c1" by simp
    moreover have "mirror_loop evs c1 = Error c'" using Ret nb Cons.prems(3) by (auto simp: and_then_Error)
    ultimately have "same_srv c1 c'" using Cons.prems Cons.IH [of c1] by (simp add: same_srv_def)
    with s show ?thesis by (rule same_srv_trans)
  next
    case (Error c1)
    with nb Cons.prems dispatch_error_same [OF Cons.prems(1), of ev c'] show ?thesis by simp
  qed (use nb Cons.prems in auto)
qed (auto split: if_splits)

lemma mirror_run_end_same:
  assumes "mirror_run_end c = Error c'"
  shows "same_srv c c' \<and> commit_state (mirror c') = commit_state (mirror c) \<and> commit_state (mirror c) \<noteq> MS_DONE"
proof -
  define c1 where "c1 = (if action_at_finish (mirror c) = ACTION_NOTHING \<or> commit_state (mirror c) \<noteq> MS_DONE
                then c\<lparr>mserve := (mserve c)\<lparr>allow_new_clients := True\<rparr>\<rparr> else c)"
  have s1: "same_srv c c1" by (rule same_srv_upd) (simp_all add: c1_def mmap_def)
  have run: "mirror_run_end c = (if commit_state (mirror c1) \<noteq> MS_DONE
         then (case bitset_disable_stream (mmap c1) of
                 Done bs \<Rightarrow> Error (put_mmap bs c1) | Blocked bs \<Rightarrow> Asleep (put_mmap bs c1) | OutOfBounds \<Rightarrow> Fault)
         else Ret () c1)"
    unfolding mirror_run_end_def c1_def Let_def ..
  with assms obtain bs where bs: "bitset_disable_stream (mmap c1) = Done bs" "c' = put_mmap bs c1"
      "commit_state (mirror c1) \<noteq> MS_DONE"
    by (auto split: if_split_asm cresult.splits)
  then obtain bs0 where bs0: "bitset_stream_enqueue ((mmap c1)\<lparr>stream_enabled := stream_enabled (mmap c1)\<rparr>)
      BITSET_STREAM_OFF 0 (bs_size (mmap c1)) = Done bs0" "bs = bs0\<lparr>stream_enabled := False\<rparr>"
    by (auto simp: bitset_disable_stream_def split: cresult.splits)
  have "same_srv c1 c'"
    unfolding same_srv_def
    using enqueue_ctrl_ok [OF _ bs0(1) disjI1 [OF refl], of c' False] bs bs0(2) by (auto simp: put_mmap_def)
  with s1 bs show ?thesis by (auto intro: same_srv_trans simp: c1_def split: if_splits)
qed

lemma hopeless_run:
  assumes h: "hopeless sz c" "commit_state (mirror c) \<noteq> MS_DONE" "\<not> read_watcher c" "joining c = None"
    and ev: "list_all (mirror_event_ok (serve_size (mserve c))) (events a)"
  shows "mirror_run a c \<noteq> Ret w c'"
    and "mirror_run a c = Error c' \<Longrightarrow> hopeless sz c' \<and> commit_state (mirror c') \<noteq> MS_DONE"
proof -
  note start = hopeless_begin [OF h, of "started a" "bye_ok a"]
  have loop: "unmapped_loop c2 \<and> hopeless sz c2"
    if "mirror_run_begin (started a) (bye_ok a) c = Ret b c1" "mirror_loop (events a) c1 = Ret w' c2" for b c1 w' c2
  proof -
    from start(1) [OF that(1)] have u: "unmapped_loop c1" "same_srv c c1" by auto
    moreover from this h(1) have "ctrl_ok c1" "serve_size (mserve c1) = serve_size (mserve c)"
      by (auto simp: same_srv_def hopeless_def)
    with ev that(2) mirror_loop_same [of c1 "events a" w' c2] have "same_srv c1 c2" by simp
    ultimately show ?thesis using unmapped_mirror_loop(1) [OF u(1) that(2)] h(1)
      by (blast intro: hopeless_same same_srv_trans)
  qed
  have fin: "mirror_run_end c2 \<noteq> Ret () x" if "unmapped_loop c2" for c2 x
    using that by (auto simp: mirror_run_end_def Let_def unmapped_loop_def split: cresult.splits if_split_asm)
  have "\<not> mirror_loop (events a) c1 = Error x" if "mirror_run_begin (started a) (bye_ok a) c = Ret b c1" for b c1 x
    using unmapped_mirror_loop(2) start(1) [OF that] by blast
  note noerr = this
  show "mirror_run a c \<noteq> Ret w c'"
    using start(1) loop fin by (auto simp: mirror_run_def split: if_split_asm)
  assume "mirror_run a c = Error c'"
  then consider "mirror_run_begin (started a) (bye_ok a) c = Error c'"
    | b c1 w' c2 where "mirror_run_begin (started a) (bye_ok a) c = Ret b c1" "mirror_loop (events a) c1 = Ret w' c2"
        "mirror_run_end c2 = Error c'"
    using noerr by (auto simp: mirror_run_def and_then_Error split: if_split_asm)
  then show "hopeless sz c' \<and> commit_state (mirror c') \<noteq> MS_DONE"
  proof cases
    case 1
    then show ?thesis by (rule start(2))
  next
    case (2 b c1 w' c2)
    with loop [OF 2(1,2)] mirror_run_end_same [OF 2(3)] show ?thesis by (auto intro: hopeless_same)
  qed
qed

lemma mirror_connect_frame:
  "mirror_connect out sz m = (b, m') \<Longrightarrow> offset m' = offset m \<and> mapped m' = mapped m \<and> commit_state m' \<noteq> MS_DONE"
  by (auto simp: mirror_connect_def mirror_set_state_f_def split: hello_outcome.splits if_split_asm)

lemma hopeless_runner:
  assumes h: "hopeless sz c" "list_all (mirror_event_ok (serve_size (mserve c))) (events a)"
    and r: "mirror_runner a c = (st, thread)"
    and end': "thread = Ret w c' \<or> thread = Error c'"
  shows "hopeless sz c' \<and> commit_state (mirror c') \<noteq> MS_DONE"
proof -
  obtain b m where m: "mirror_connect (conn a) (serve_size (mserve c)) (mirror c) = (b, m)" by fastforce
  let ?c1 = "mirror_ctrl_zero (mserve c) m (abandon_signal c)"
  have th: "thread = (if \<not> b then Ret [] ?c1 else if slow a then Ret [] (set_state MS_FAIL_CONNECT ?c1) else mirror_run a ?c1)"
    using r m by (simp add: mirror_runner_def Let_def)
  note f = mirror_connect_frame [OF m]
  have h1: "hopeless sz ?c1" by (rule hopeless_cong [OF h(1)]) (simp_all add: mirror_ctrl_zero_def f)
  have z: "commit_state (mirror ?c1) \<noteq> MS_DONE" "\<not> read_watcher ?c1" "joining ?c1 = None" "mserve ?c1 = mserve c"
    using f by (simp_all add: mirror_ctrl_zero_def)
  have h2: "hopeless sz (set_state MS_FAIL_CONNECT ?c1)"
    by (rule hopeless_cong [OF h1]) (simp_all add: set_state_def mirror_set_state_f_def)
  note run = hopeless_run [OF h1 z(1-3), of a, unfolded z(4), OF h(2)]
  show ?thesis
    using th end' h1 h2 z(1) run by (auto simp: set_state_def mirror_set_state_f_def split: if_split_asm)
qed

lemma reset_frame [simp]:
  "offset (mirror_reset m) = 0" "mapped (mirror_reset m) = mapped m" "commit_state (mirror_reset m) = MS_INIT"
  by (simp_all add: mirror_reset_def mirror_set_state_f_def)

lemma hopeless_reset: "hopeless sz c \<Longrightarrow> hopeless sz (c\<lparr>mirror := mirror_reset (mirror c)\<rparr>)"
  by (auto simp: hopeless_def ctrl_ok_def)

lemma hopeless_pass:
  assumes "hopeless sz c" "commit_state (mirror c) \<noteq> MS_DONE" "mirror_super_pass r c = (r', ok, c')"
  shows "\<not> ok \<and> hopeless sz c'"
proof -
  define c1 where "c1 = (if commit_state (mirror c) = MS_ABANDONED then c else c\<lparr>abandon_signal := False\<rparr>)"
  have c1: "hopeless sz c1"
    using assms(1) hopeless_cong [of sz c "c\<lparr>abandon_signal := False\<rparr>"] by (simp add: c1_def)
  have "mirror_super_pass r c =
      (let retry = (if commit_state (mirror c) = MS_ABANDONED \<or> abandon_signal c then False else r)
       in (retry, False, if retry then c1\<lparr>mirror := mirror_reset (mirror c1)\<rparr> else c1))"
    unfolding mirror_super_pass_def Let_def c1_def [symmetric] using assms(2) by simp
  with assms(3) have "\<not> ok" "c' = c1 \<or> c' = c1\<lparr>mirror := mirror_reset (mirror c1)\<rparr>"
    by (simp_all add: Let_def split: if_split_asm)
  with c1 hopeless_reset [OF c1] show ?thesis by auto
qed

lemma cleanup_frame [simp]:
  "mserve (mirror_cleanup c) = mserve c" "commit_state (mirror (mirror_cleanup c)) = commit_state (mirror c)"
  "offset (mirror (mirror_cleanup c)) = offset (mirror c)" "\<not> mapped (mirror (mirror_cleanup c))"
  by (simp_all add: mirror_cleanup_def)

lemma hopeless_super:
  assumes "hopeless sz c" "\<forall>a\<in>set as. list_all (mirror_event_ok sz) (events a)"
  shows "mirror_super_runner first r as c posted \<noteq> Ret (ps, True) c'"
  using assms
proof (induction as arbitrary: c first r posted)
  case (Cons a as)
  obtain st thread where rn: "mirror_runner a c = (st, thread)" by fastforce
  define r1 where "r1 = (if first then st = MS_GO else r)"
  show ?case
  proof (cases "mirror_thread_end thread")
    case (Ret u c1)
    then obtain w c0 where t: "thread = Ret w c0 \<or> thread = Error c0" "c1 = c0 \<or> c1 = mirror_cleanup c0"
      by (cases thread) auto
    have "serve_size (mserve c) = sz" using Cons.prems(1) by (simp add: hopeless_def)
    with hopeless_runner [OF Cons.prems(1) _ rn t(1)] Cons.prems(2)
    have h: "hopeless sz c0" "commit_state (mirror c0) \<noteq> MS_DONE" by auto
    then have "hopeless sz (mirror_cleanup c0)" by (intro hopeless_cong [OF h(1)]) (simp_all add: hopeless_def)
    with t(2) h have "hopeless sz c1" "commit_state (mirror c1) \<noteq> MS_DONE" by auto
    from hopeless_pass [OF this, of r1] obtain r2 c2 where p: "mirror_super_pass r1 c1 = (r2, False, c2)" "hopeless sz c2"
      by (cases "mirror_super_pass r1 c1") auto
    from Cons.IH [OF p(2)] Cons.prems(2) p(1) rn Ret show ?thesis
      by (auto simp: Let_def r1_def split: if_split_asm)
  qed (use rn in \<open>auto simp: Let_def\<close>)
qed simp

lemma super_retry_posts:
  "mirror_super_runner False r as c posted = Ret (ps, ok) c' \<Longrightarrow> r \<Longrightarrow>
     ps = posted \<and> (ok \<longrightarrow> commit_state (mirror c') = MS_INIT)"
proof (induction as arbitrary: c r)
  case (Cons a as)
  obtain st thread where rn: "mirror_runner a c = (st, thread)" by fastforce
  from Cons.prems(1) rn obtain u c1 where t: "mirror_thread_end thread = Ret u c1" by (auto simp: Let_def)
  obtain r2 ok2 c2 where p: "mirror_super_pass r c1 = (r2, ok2, c2)" by (metis prod_cases3)
  have ok: "ok2 \<longrightarrow> r2 \<and> commit_state (mirror c2) = MS_INIT"
    using p Cons.prems(2) by (auto simp: mirror_super_pass_def Let_def)
  from Cons.prems(1) rn t p have
    "(if r2 \<and> \<not> ok2 then mirror_super_runner False r2 as c2 posted else Ret (posted, ok2) c2) = Ret (ps, ok) c'"
    by simp
  with Cons.IH [of r2 c2] ok show ?case by (auto split: if_split_asm)
qed simp

subsection \<open>Properties\<close>


definition ex_mirror :: mirror where
  "ex_mirror = mirror_create 1000000 ACTION_EXIT"

definition ex_ctrl :: mirror_ctrl where
  "ex_ctrl = mirror_ctrl_zero ex_server ex_mirror False"

lemma ex_ctrl_ok: "ctrl_ok ex_ctrl"
proof -
  have "wf_bitset (allocation_map ex_server)" "queued ex_ctrl = []" using ex_server_ok(1)
    by (simp_all add: srv_ok_def ex_ctrl_def mmap_def mirror_ctrl_zero_def ex_server_def bitset_alloc_def)
  then show ?thesis
    using ex_server_ok(1)
    by (simp add: ctrl_ok_def srv_ok_def ex_ctrl_def mmap_def mirror_ctrl_zero_def ex_mirror_def mirror_create_def)
       (simp add: ex_server_def)
qed


text \<open>The supervisor of a migration reports one state to whoever asked for it, the state of the
  first attempt's connection.  It tries again only if that connection was made; a migration that
  succeeds leaves the mirror's state reset to \<open>MS_INIT\<close>.\<close>

theorem mirror_supervisor_posts_once:
  assumes "mirror_super_runner True r as c [] = Ret (posted, ok) c'"
  shows "\<exists>a as'. as = a # as' \<and> posted = [fst (mirror_runner a c)]
     \<and> (posted \<noteq> [MS_GO] \<longrightarrow> mirror_super_runner True r [a] c [] = Ret (posted, ok) c')
     \<and> (posted = [MS_GO] \<and> ok \<longrightarrow> commit_state (mirror c') = MS_INIT)"
proof (cases as)
  case Nil
  with assms show ?thesis by simp
next
  case (Cons a as')
  obtain st thread where rn: "mirror_runner a c = (st, thread)" by fastforce
  from assms Cons rn obtain u c1 where t: "mirror_thread_end thread = Ret u c1" by (auto simp: Let_def)
  obtain r2 ok2 c2 where p: "mirror_super_pass (st = MS_GO) c1 = (r2, ok2, c2)" by (metis prod_cases3)
  have r: "r2 \<longrightarrow> st = MS_GO" "st = MS_GO \<and> ok2 \<longrightarrow> commit_state (mirror c2) = MS_INIT"
    using p by (auto simp: mirror_super_pass_def Let_def split: if_split_asm)
  from assms Cons rn t p have e:
    "(if r2 \<and> \<not> ok2 then mirror_super_runner False r2 as' c2 [st] else Ret ([st], ok2) c2) = Ret (posted, ok) c'"
    by (simp add: Let_def)
  have "posted = [st] \<and> (st = MS_GO \<and> ok \<longrightarrow> commit_state (mirror c') = MS_INIT)"
    using e r super_retry_posts [of r2 as' c2 "[st]" posted ok c'] by (auto split: if_split_asm)
  moreover have "mirror_super_runner True r [a] c [] = Ret (posted, ok) c'" if "st \<noteq> MS_GO"
    using that e r rn t p by (auto simp: Let_def)
  ultimately show ?thesis using Cons rn by auto
qed

theorem mirror_supervisor_posts_once_witness:
  "\<exists>c'. mirror_super_runner True False [\<lparr>conn = NoConnection, slow = False, started = 0, events = [], bye_ok = calls_work\<rparr>]
     ex_ctrl [] = Ret ([MS_FAIL_CONNECT], False) c' \<and> [MS_FAIL_CONNECT] \<noteq> [MS_GO]"
proof -
  let ?a = "\<lparr>conn = NoConnection, slow = False, started = 0, events = [], bye_ok = calls_work\<rparr>"
  have "\<exists>posted c'. mirror_super_runner True False [?a] ex_ctrl [] = Ret (posted, False) c'"
    by (simp add: mirror_runner_def mirror_connect_def mirror_super_pass_def mirror_ctrl_zero_def ex_ctrl_def
        mirror_set_state_f_def Let_def)
  then obtain posted c' where r: "mirror_super_runner True False [?a] ex_ctrl [] = Ret (posted, False) c'" by blast
  moreover have "fst (mirror_runner ?a ex_ctrl) = MS_FAIL_CONNECT"
    by (simp add: mirror_runner_def mirror_connect_def mirror_set_state_f_def Let_def)
  ultimately show ?thesis using mirror_supervisor_posts_once [OF r] by auto
qed



text \<open>The file is unlinked before the listener is told to take over.  If that fails, the source has closed its socket and the process
  ends, although the copy is complete; the listener waits for a source that is gone.\<close>

theorem failed_unlink_strands_listener:
  assumes "action_at_finish (mirror c) = ACTION_UNLINK" "\<not> unlink_ok calls"
  shows "\<exists>c'. mirror_complete calls c = Fatal c' \<and> server_closed (mserve c') \<and> disconnect_sent c' = disconnect_sent c
    \<and> commit_state (mirror c') = commit_state (mirror c)"
  using assms by (simp add: mirror_complete_def mirror_should_quit_def mirror_on_exit_def server_unlink_def Let_def)

end
