(* ===== verification/Migration.thy ===== *)
theory Migration
  imports Mirror
begin

text \<open>
  The migration as a whole: the mirror's event loop (\<^verbatim>\<open>src/src/server/mirror.c\<close>), the listener at the
  other end and the clients still writing to the source, interleaved step by step.  \<open>wire\<close> holds the
  bytes of the current transfer sent so far, \<open>replies\<close> the listener's bytes not yet read, \<open>remote\<close> the
  listener's file.  A client writes in the order of \<^verbatim>\<open>client.c\<close>: it stores bytes in the mapping first
  and marks the range in the allocation map after that, so \<open>pending\<close> are the ranges between the two;
  \<open>torn\<close> are ranges whose client was cut off before it could mark them.  The invariant says where
  every byte of the file stands, and shows that a migration that reaches \<open>MS_DONE\<close> has copied the file
  exactly, up to torn writes.
\<close>

datatype mig_phase = Sending | Applied | Refused | Idle

record mig =
  ctrl :: mirror_ctrl
  wire :: "byte list"
  replies :: "byte list"
  remote :: "byte list"
  pending :: "(u64 \<times> u64) list"
  torn :: "(u64 \<times> u64) list"
  phase :: mig_phase

abbreviation in_range :: "u64 \<times> u64 \<Rightarrow> nat \<Rightarrow> bool" where
  "in_range r p \<equiv> unat (fst r) \<le> p \<and> p < unat (fst r) + unat (snd r)"

abbreviation xfer_range :: "mirror_ctrl \<Rightarrow> u64 \<times> u64" where
  "xfer_range c \<equiv> (xfer_from (xfer c), xfer_len (xfer c))"

definition range_ok :: "u64 \<Rightarrow> u64 \<times> u64 \<Rightarrow> bool" where
  "range_ok sz r \<longleftrightarrow> 0 < unat (snd r) \<and> unat (snd r) < 2 ^ 32 \<and> unat (fst r) + unat (snd r) \<le> unat sz"

definition same_outside :: "u64 \<times> u64 \<Rightarrow> byte list \<Rightarrow> byte list \<Rightarrow> bool" where
  "same_outside r xs ys \<longleftrightarrow> length ys = length xs \<and> (\<forall>p. \<not> in_range r p \<longrightarrow> ys ! p = xs ! p)"

definition listener_apply :: "byte list \<Rightarrow> byte list \<Rightarrow> (byte list \<times> byte list) option" where
  "listener_apply w file =
     (if length w < NBD_REQUEST_SIZE then None
      else let rq = nbd_r2h_request (request_raw_of (take NBD_REQUEST_SIZE w)) in
           if rq_magic rq = REQUEST_MAGIC \<and> rq_type rq = REQUEST_WRITE
              \<and> length w = NBD_REQUEST_SIZE + unat (rq_len rq)
           then map_option (\<lambda>m. (m, reply_bytes (rq_handle rq) 0))
                  (mem_write (unat (rq_from rq)) (drop NBD_REQUEST_SIZE w) file)
           else None)"

definition put_store :: "byte list \<Rightarrow> mig \<Rightarrow> mig" where
  "put_store m s = s\<lparr>ctrl := (ctrl s)\<lparr>mserve := (mserve (ctrl s))\<lparr>file_map := m\<rparr>\<rparr>\<rparr>"

definition next_phase :: "bool \<Rightarrow> mig \<Rightarrow> mig" where
  "next_phase next_xfer s = s\<lparr>wire := [], phase := (if next_xfer then Sending else Idle)\<rparr>"

abbreviation loop_runs :: "mig \<Rightarrow> bool" where
  "loop_runs s \<equiv> joining (ctrl s) = None \<and> \<not> loop_broken (ctrl s)"

inductive mig_step :: "mig \<Rightarrow> mig \<Rightarrow> bool" where
  writes: "loop_runs s \<Longrightarrow> write_watcher (ctrl s) \<Longrightarrow> mirror_write_cb r (ctrl s) = Ret bs c \<Longrightarrow>
    mig_step s (s\<lparr>ctrl := c, wire := wire s @ bs\<rparr>)"
| listener_stores: "phase s = Sending \<Longrightarrow> same_outside (xfer_range (ctrl s)) (remote s) m \<Longrightarrow>
    mig_step s (s\<lparr>remote := m\<rparr>)"
| listener_done: "phase s = Sending \<Longrightarrow> listener_apply (wire s) (remote s) = Some (m, reply) \<Longrightarrow>
    mig_step s (s\<lparr>remote := m, replies := reply, phase := Applied\<rparr>)"
| listener_refuses: "phase s = Sending \<Longrightarrow> length (wire s) = NBD_REQUEST_SIZE + unat (xfer_len (xfer (ctrl s))) \<Longrightarrow>
    (word_of_int e :: u32) \<noteq> 0 \<Longrightarrow> mig_step s (s\<lparr>replies := reply_bytes h e, phase := Refused\<rparr>)"
| read_fails: "loop_runs s \<Longrightarrow> read_watcher (ctrl s) \<Longrightarrow> r = Inl e \<or> r = Inr [] \<Longrightarrow>
    mirror_read_reply r (ctrl s) = (b, c) \<Longrightarrow> mig_step s (s\<lparr>ctrl := c\<rparr>)"
| read_part: "loop_runs s \<Longrightarrow> read_watcher (ctrl s) \<Longrightarrow> replies s = bs @ rest \<Longrightarrow> bs \<noteq> [] \<Longrightarrow>
    length bs \<le> NBD_REPLY_SIZE - xfer_read (xfer (ctrl s)) \<Longrightarrow> mirror_read_reply (Inr bs) (ctrl s) = (False, c) \<Longrightarrow>
    mig_step s (s\<lparr>ctrl := c, replies := rest\<rparr>)"
| read_done: "loop_runs s \<Longrightarrow> read_watcher (ctrl s) \<Longrightarrow> replies s = bs @ rest \<Longrightarrow> bs \<noteq> [] \<Longrightarrow>
    length bs \<le> NBD_REPLY_SIZE - xfer_read (xfer (ctrl s)) \<Longrightarrow> mirror_read_reply (Inr bs) (ctrl s) = (True, c) \<Longrightarrow>
    mirror_xfer_done now c = c' \<Longrightarrow> joining c' = Some (next_xfer, closing) \<Longrightarrow>
    mig_step s (next_phase next_xfer (s\<lparr>replies := rest, ctrl := c'\<rparr>))"
| joined: "\<not> loop_broken (ctrl s) \<Longrightarrow> joining (ctrl s) = Some (nx, closing) \<Longrightarrow> (closing \<Longrightarrow> pending s = []) \<Longrightarrow>
    mirror_joined now ok (ctrl s) = Ret next_xfer c \<Longrightarrow> mig_step s (next_phase next_xfer (s\<lparr>ctrl := c\<rparr>))"
| timeout: "loop_runs s \<Longrightarrow> timeout_watcher (ctrl s) \<Longrightarrow> mig_step s (s\<lparr>ctrl := mirror_timeout_cb (ctrl s)\<rparr>)"
| abandon: "joining (ctrl s) = None \<Longrightarrow> abandon_watcher (ctrl s) \<Longrightarrow>
    mig_step s (s\<lparr>ctrl := mirror_abandon_cb (ctrl s)\<rparr>)"
| limit: "loop_runs s \<Longrightarrow> limit_watcher (ctrl s) \<Longrightarrow> mig_step s (s\<lparr>ctrl := mirror_limit_cb now (ctrl s)\<rparr>)"
| begins: "loop_runs s \<Longrightarrow> begin_watcher (ctrl s) \<Longrightarrow> mirror_begin_cb (ctrl s) = Ret () c \<Longrightarrow>
    mig_step s (s\<lparr>ctrl := c\<rparr>)"
| client_begins: "\<not> clients_closed (ctrl s) \<Longrightarrow> range_ok (serve_size (mserve (ctrl s))) r \<Longrightarrow>
    mig_step s (s\<lparr>pending := r # pending s\<rparr>)"
| client_stores: "r \<in> set (pending s) \<Longrightarrow> same_outside r (file_map (mserve (ctrl s))) m \<Longrightarrow>
    mig_step s (put_store m s)"
| client_marks: "r \<in> set (pending s) \<Longrightarrow> bitset_set_range (mmap (ctrl s)) (fst r) (snd r) = Done bs \<Longrightarrow>
    mig_step s (s\<lparr>ctrl := put_mmap bs (ctrl s), pending := remove1 r (pending s)\<rparr>)"
| client_cut_off: "r \<in> set (pending s) \<Longrightarrow>
    mig_step s (s\<lparr>pending := remove1 r (pending s), torn := r # torn s\<rparr>)"

definition mig_init :: "mig \<Rightarrow> bool" where
  "mig_init s \<longleftrightarrow>
     (\<exists>c now ok. ctrl_ok c \<and> \<not> stream_enabled (mmap c) \<and> offset (mirror c) = 0
        \<and> commit_state (mirror c) = MS_GO \<and> c = mirror_ctrl_zero (mserve c) (mirror c) (abandon_signal c)
        \<and> serve_size (mserve c) \<noteq> 0
        \<and> mirror_run_begin now ok c = Ret True (ctrl s))
     \<and> length (remote s) = length (file_map (mserve (ctrl s))) \<and> wire s = [] \<and> replies s = []
     \<and> phase s = Sending \<and> list_all (range_ok (serve_size (mserve (ctrl s)))) (pending s) \<and> torn s = []"

subsection \<open>The invariant\<close>

definition copied :: "mig \<Rightarrow> nat \<Rightarrow> byte" where
  "copied s p =
     (if phase s = Sending \<and> in_range (xfer_range (ctrl s)) p
      then (let i = NBD_REQUEST_SIZE + (p - unat (xfer_from (xfer (ctrl s)))) in
            if i < length (wire s) then wire s ! i else file_map (mserve (ctrl s)) ! p)
      else remote s ! p)"

definition accounted :: "mig \<Rightarrow> nat \<Rightarrow> bool" where
  "accounted s p \<longleftrightarrow>
     copied s p = file_map (mserve (ctrl s)) ! p
     \<or> (\<exists>e\<in>set (queued (ctrl s)). event e = BITSET_STREAM_SET \<and> covers e p)
     \<or> (\<exists>r\<in>set (pending s). in_range r p) \<or> (\<exists>r\<in>set (torn s). in_range r p)
     \<or> unat (offset (mirror (ctrl s))) \<le> p"

definition xfer_hdr_ok :: "mirror_ctrl \<Rightarrow> bool" where
  "xfer_hdr_ok c \<longleftrightarrow>
     hdr (xfer c) = request_raw_bytes (nbd_h2r_request (mirror_request (xfer_from (xfer c)) (xfer_len (xfer c))))"

definition phase_inv :: "mig \<Rightarrow> bool" where
  "phase_inv s \<longleftrightarrow> (let c = ctrl s; x = xfer c in
     (phase s \<noteq> Idle \<longrightarrow> range_ok (serve_size (mserve c)) (xfer_range c))
     \<and> (phase s = Sending \<longrightarrow> xfer_hdr_ok c \<and> length (wire s) = xfer_written x
          \<and> xfer_written x \<le> NBD_REQUEST_SIZE + unat (xfer_len x)
          \<and> take NBD_REQUEST_SIZE (wire s) = take (xfer_written x) (hdr x) \<and> xfer_read x = 0 \<and> replies s = [])
     \<and> (phase s = Applied \<longrightarrow> length (hdr x) = NBD_REQUEST_SIZE
          \<and> take (xfer_read x) (hdr x) @ replies s = reply_bytes mirror_handle 0)
     \<and> (phase s = Refused \<longrightarrow> length (hdr x) = NBD_REQUEST_SIZE
          \<and> (\<exists>h e. (word_of_int e :: u32) \<noteq> 0 \<and> take (xfer_read x) (hdr x) @ replies s = reply_bytes h e))
     \<and> (phase s = Idle \<longrightarrow> replies s = []))"

definition watch_inv :: "mig \<Rightarrow> bool" where
  "watch_inv s \<longleftrightarrow> (let c = ctrl s in
     (write_watcher c \<longrightarrow> \<not> limit_watcher c \<and> \<not> begin_watcher c) \<and> (limit_watcher c \<longrightarrow> \<not> begin_watcher c)
     \<and> (limit_watcher c \<or> begin_watcher c \<longrightarrow> phase s = Sending \<and> xfer_written (xfer c) = 0)
     \<and> (write_watcher c \<longrightarrow> phase s = Sending \<and> xfer_written (xfer c) < NBD_REQUEST_SIZE + unat (xfer_len (xfer c)))
     \<and> (\<forall>nx closing. joining c = Some (nx, closing) \<longrightarrow>
          phase s = (if nx then Sending else Idle) \<and> \<not> write_watcher c \<and> \<not> limit_watcher c \<and> \<not> begin_watcher c
          \<and> xfer_written (xfer c) = 0)
     \<and> (phase s = Idle \<longrightarrow> joining c \<noteq> None \<or> loop_broken c))"

definition stream_off_inv :: "mig \<Rightarrow> bool" where
  "stream_off_inv s \<longleftrightarrow> (\<not> stream_enabled (mmap (ctrl s)) \<longrightarrow>
     phase s = Sending \<and> xfer_written (xfer (ctrl s)) = 0 \<and> \<not> write_watcher (ctrl s) \<and> \<not> limit_watcher (ctrl s)
     \<and> joining (ctrl s) = None
     \<and> (\<forall>p < unat (offset (mirror (ctrl s))). in_range (xfer_range (ctrl s)) p))"

definition client_inv :: "mig \<Rightarrow> bool" where
  "client_inv s \<longleftrightarrow>
     list_all (range_ok (serve_size (mserve (ctrl s)))) (pending s) \<and> (clients_closed (ctrl s) \<longrightarrow> pending s = [])"

definition drained :: "mirror_ctrl \<Rightarrow> bool" where
  "drained c \<longleftrightarrow> clients_closed c \<and> offset (mirror c) = serve_size (mserve c)
     \<and> (\<forall>e\<in>set (queued c). event e \<noteq> BITSET_STREAM_SET)"

definition done_inv :: "mig \<Rightarrow> bool" where
  "done_inv s \<longleftrightarrow>
     (phase s = Idle \<and> joining (ctrl s) \<noteq> Some (False, True) \<longrightarrow> drained (ctrl s))
     \<and> (commit_state (mirror (ctrl s)) = MS_DONE \<longrightarrow> phase s = Idle \<and> loop_broken (ctrl s) \<and> joining (ctrl s) = None)"

definition byte_inv :: "mig \<Rightarrow> bool" where
  "byte_inv s \<longleftrightarrow> (phase s \<noteq> Refused \<longrightarrow> (\<forall>p < unat (serve_size (mserve (ctrl s))). accounted s p))"

definition mig_inv :: "mig \<Rightarrow> bool" where
  "mig_inv s \<longleftrightarrow> ctrl_ok (ctrl s) \<and> length (remote s) = length (file_map (mserve (ctrl s)))
     \<and> phase_inv s \<and> watch_inv s \<and> stream_off_inv s \<and> client_inv s \<and> done_inv s \<and> byte_inv s"

lemma inv_clients [simp]:
  "phase_inv (s\<lparr>pending := ps, torn := ts\<rparr>) = phase_inv s" "watch_inv (s\<lparr>pending := ps, torn := ts\<rparr>) = watch_inv s"
  "stream_off_inv (s\<lparr>pending := ps, torn := ts\<rparr>) = stream_off_inv s" "done_inv (s\<lparr>pending := ps, torn := ts\<rparr>) = done_inv s"
  "phase_inv (s\<lparr>pending := ps\<rparr>) = phase_inv s" "watch_inv (s\<lparr>pending := ps\<rparr>) = watch_inv s"
  "stream_off_inv (s\<lparr>pending := ps\<rparr>) = stream_off_inv s" "done_inv (s\<lparr>pending := ps\<rparr>) = done_inv s"
  "copied (s\<lparr>pending := ps\<rparr>) p = copied s p" "copied (s\<lparr>pending := ps, torn := ts\<rparr>) p = copied s p"
  by (simp_all add: phase_inv_def watch_inv_def stream_off_inv_def done_inv_def copied_def Let_def)

lemma mig_invD:
  assumes "mig_inv s"
  shows "ctrl_ok (ctrl s)" "length (remote s) = length (file_map (mserve (ctrl s)))" "phase_inv s" "watch_inv s"
    "stream_off_inv s" "client_inv s" "done_inv s" "byte_inv s"
  using assms by (simp_all add: mig_inv_def)

lemma accounted_mono:
  assumes "copied s' p = copied s p" "file_map (mserve (ctrl s')) = file_map (mserve (ctrl s))"
    "set (queued (ctrl s)) \<subseteq> set (queued (ctrl s'))" "set (pending s) \<subseteq> set (pending s')" "set (torn s) \<subseteq> set (torn s')"
    "offset (mirror (ctrl s')) = offset (mirror (ctrl s))" "accounted s p"
  shows "accounted s' p"
  using assms unfolding accounted_def by auto

lemma mig_inv_ctrl:
  assumes inv: "mig_inv s"
    and same: "mserve c = mserve (ctrl s)" "offset (mirror c) = offset (mirror (ctrl s))" "xfer c = xfer (ctrl s)"
      "clients_closed c = clients_closed (ctrl s)" "joining c = joining (ctrl s)"
    and watch: "watch_inv (s\<lparr>ctrl := c\<rparr>)" "stream_off_inv (s\<lparr>ctrl := c\<rparr>)"
    and state: "commit_state (mirror c) = MS_DONE \<longrightarrow> commit_state (mirror (ctrl s)) = MS_DONE" "loop_broken (ctrl s) \<longrightarrow> loop_broken c"
  shows "mig_inv (s\<lparr>ctrl := c\<rparr>)"
proof -
  note i = mig_invD [OF inv]
  have m: "mmap c = mmap (ctrl s)" using same(1) by (simp add: mmap_def)
  have "ctrl_ok c" using i(1) same(1,2) by (simp add: ctrl_ok_cong [of c "ctrl s"])
  moreover have "phase_inv (s\<lparr>ctrl := c\<rparr>)" using i(3) same by (simp add: phase_inv_def xfer_hdr_ok_def Let_def)
  moreover have "client_inv (s\<lparr>ctrl := c\<rparr>)" using i(6) same by (simp add: client_inv_def)
  moreover have "done_inv (s\<lparr>ctrl := c\<rparr>)" using i(7) same m state by (auto simp: done_inv_def drained_def)
  moreover have "accounted (s\<lparr>ctrl := c\<rparr>) p" if "accounted s p" for p
    using that same m by (intro accounted_mono [OF _ _ _ _ _ _ that]) (simp_all add: copied_def Let_def)
  then have "byte_inv (s\<lparr>ctrl := c\<rparr>)" using i(8) same(1) by (simp add: byte_inv_def)
  ultimately show ?thesis using watch i(2) same(1) by (simp add: mig_inv_def)
qed

lemma mirror_handle_request [simp]:
  "rq_handle (mirror_request f l) = mirror_handle" "rq_magic (mirror_request f l) = REQUEST_MAGIC"
  "rq_type (mirror_request f l) = REQUEST_WRITE" "rq_from (mirror_request f l) = f" "rq_len (mirror_request f l) = ucast l"
  by (simp_all add: mirror_request_def)

lemma unat_ucast_len: "unat l < 2 ^ 32 \<Longrightarrow> unat (ucast (l :: u64) :: u32) = unat l"
  by (simp add: unsigned_ucast_eq take_bit_nat_eq_self_iff)

lemma length_hdr: "xfer_hdr_ok c \<Longrightarrow> length (hdr (xfer c)) = NBD_REQUEST_SIZE"
  by (simp add: xfer_hdr_ok_def)

lemma mem_slice_nth: "i + n \<le> length xs \<Longrightarrow> k < n \<Longrightarrow> mem_slice i n xs ! k = xs ! (i + k)"
  by (simp add: mem_slice_def)

subsection \<open>Sending\<close>

lemma payload_byte:
  assumes "xfer_range c = (f, l)" "NBD_REQUEST_SIZE \<le> w" "w = xfer_written (xfer c)"
    "unat f + unat l \<le> length (file_map (mserve c))" "w \<le> NBD_REQUEST_SIZE + unat l" "k < mirror_to_write c"
  shows "mirror_data_loc c ! k = file_map (mserve c) ! (unat f + (w - NBD_REQUEST_SIZE) + k)"
  using assms by (auto simp: mirror_data_loc_def mirror_to_write_def Let_def mem_slice_def)

lemma wire_after_write:
  assumes "phase_inv s" "ctrl_ok (ctrl s)" "phase s = Sending" "n \<le> mirror_to_write (ctrl s)"
    "mirror_to_write (ctrl s) \<le> length (mirror_data_loc (ctrl s))"
  shows "phase_inv (s\<lparr>ctrl := mirror_wrote n (ctrl s), wire := wire s @ take n (mirror_data_loc (ctrl s))\<rparr>)"
    and "copied (s\<lparr>ctrl := mirror_wrote n (ctrl s), wire := wire s @ take n (mirror_data_loc (ctrl s))\<rparr>) p = copied s p"
proof -
  let ?c = "ctrl s" and ?x = "xfer (ctrl s)"
  let ?s = "s\<lparr>ctrl := mirror_wrote n ?c, wire := wire s @ take n (mirror_data_loc ?c)\<rparr>"
  define w where "w = xfer_written ?x"
  have i: "range_ok (serve_size (mserve ?c)) (xfer_range ?c)" "xfer_hdr_ok ?c" "length (wire s) = w"
      "w \<le> NBD_REQUEST_SIZE + unat (xfer_len ?x)" "take NBD_REQUEST_SIZE (wire s) = take w (hdr ?x)"
      "xfer_read ?x = 0" "replies s = []"
    using assms(1,3) by (simp_all add: phase_inv_def w_def Let_def)
  have len: "length (take n (mirror_data_loc ?c)) = n" using assms(4,5) by simp
  have hl: "length (hdr ?x) = NBD_REQUEST_SIZE" using i(2) by (rule length_hdr)
  have bound: "w + n \<le> NBD_REQUEST_SIZE + unat (xfer_len ?x)"
    using assms(4) i(4) by (auto simp: mirror_to_write_def w_def [symmetric] Let_def split: if_splits)
  have head: "take NBD_REQUEST_SIZE (wire s @ take n (mirror_data_loc ?c)) = take (w + n) (hdr ?x)"
  proof (cases "w < NBD_REQUEST_SIZE")
    case True
    then have n: "n \<le> NBD_REQUEST_SIZE - w" "mirror_data_loc ?c = drop w (hdr ?x)"
      using assms(4) hl by (simp_all add: mirror_to_write_def mirror_data_loc_def w_def [symmetric] Let_def mem_slice_end)
    with True i(3,5) show ?thesis by (simp add: take_add)
  next
    case False
    with i(3,5) hl show ?thesis by simp
  qed
  show "phase_inv ?s"
    using i len bound head assms(3) by (simp add: phase_inv_def xfer_hdr_ok_def Let_def w_def [symmetric])
  have fits: "unat (xfer_from ?x) + unat (xfer_len ?x) \<le> length (file_map (mserve ?c))"
    using i(1) assms(2) by (simp add: range_ok_def ctrl_ok_def)
  show "copied ?s p = copied s p"
  proof (cases "in_range (xfer_range ?c) p \<and> w \<le> NBD_REQUEST_SIZE + (p - unat (xfer_from ?x))
      \<and> NBD_REQUEST_SIZE + (p - unat (xfer_from ?x)) < w + n")
    case False
    then show ?thesis using i(3) len assms(3) by (auto simp: copied_def nth_append Let_def)
  next
    case True
    define k where "k = NBD_REQUEST_SIZE + (p - unat (xfer_from ?x)) - w"
    have k: "k < n" "k < mirror_to_write ?c" using True assms(4) by (auto simp: k_def)
    have "NBD_REQUEST_SIZE \<le> w"
    proof (rule ccontr)
      assume "\<not> NBD_REQUEST_SIZE \<le> w"
      then have "w + n \<le> NBD_REQUEST_SIZE" using assms(4) by (simp add: mirror_to_write_def w_def [symmetric] Let_def)
      with True show False by simp
    qed
    with payload_byte [OF refl this w_def fits i(4) k(2)]
    have "mirror_data_loc ?c ! k = file_map (mserve ?c) ! p" using True by (simp add: k_def)
    with True i(3) len assms(3) k(1) show ?thesis by (simp add: copied_def nth_append Let_def k_def)
  qed
qed

lemma writes_inv:
  assumes inv: "mig_inv s" and st: "loop_runs s" "write_watcher (ctrl s)" "mirror_write_cb r (ctrl s) = Ret bs c"
  shows "mig_inv (s\<lparr>ctrl := c, wire := wire s @ bs\<rparr>)"
  using st(3)
proof (cases rule: mirror_write_cb_cases)
  case 1
  with inv show ?thesis by simp
next
  case 2
  note i = mig_invD [OF inv]
  have "mig_inv (s\<lparr>ctrl := c\<rparr>)"
    by (rule mig_inv_ctrl [OF inv]) (use 2 i in \<open>simp_all add: watch_inv_def stream_off_inv_def Let_def\<close>)
  with 2 show ?thesis by simp
next
  case (3 n)
  note i = mig_invD [OF inv]
  let ?s = "s\<lparr>ctrl := c, wire := wire s @ bs\<rparr>"
  have ph: "phase s = Sending" "xfer_written (xfer (ctrl s)) < NBD_REQUEST_SIZE + unat (xfer_len (xfer (ctrl s)))"
    "\<not> limit_watcher (ctrl s)" "\<not> begin_watcher (ctrl s)" using i(4) st(2) by (simp_all add: watch_inv_def Let_def)
  note w = wire_after_write [OF i(3,1) ph(1) 3(1,2), folded 3(3,4)]
  have "write_watcher c \<longrightarrow> xfer_written (xfer c) \<noteq> unat (xfer_len (xfer (ctrl s))) + NBD_REQUEST_SIZE"
    using 3(4) by (simp add: mirror_wrote_def Let_def)
  then have "watch_inv ?s"
    using st ph w(1) 3(4) by (auto simp: watch_inv_def phase_inv_def Let_def)
  moreover have "ctrl_ok c" using i(1) 3(4) by (subst ctrl_ok_cong [of _ "ctrl s"]) simp_all
  moreover have "stream_off_inv ?s" using i(5) st(2) 3(4) by (simp add: stream_off_inv_def)
  moreover have "client_inv ?s" "done_inv ?s" using i(6,7) ph(1) st(1) 3(4) by (simp_all add: client_inv_def done_inv_def)
  moreover have "accounted ?s p" if "accounted s p" for p
    using w(2) 3(4) by (intro accounted_mono [OF _ _ _ _ _ _ that]) simp_all
  then have "byte_inv ?s" using i(8) 3(4) by (simp add: byte_inv_def)
  ultimately show ?thesis using w(1) i(2) 3(4) by (simp add: mig_inv_def)
qed

subsection \<open>The listener\<close>

lemma listener_stores_inv:
  assumes inv: "mig_inv s" and st: "phase s = Sending" "same_outside (xfer_range (ctrl s)) (remote s) m"
  shows "mig_inv (s\<lparr>remote := m\<rparr>)"
proof -
  note i = mig_invD [OF inv]
  have c: "copied (s\<lparr>remote := m\<rparr>) p = copied s p" for p
    using st by (auto simp: copied_def same_outside_def Let_def)
  have "accounted (s\<lparr>remote := m\<rparr>) p" if "accounted s p" for p
    by (intro accounted_mono [OF _ _ _ _ _ _ that]) (simp_all add: c)
  then have "byte_inv (s\<lparr>remote := m\<rparr>)" using i(8) by (simp add: byte_inv_def)
  moreover have "length m = length (remote s)" using st(2) by (simp add: same_outside_def)
  moreover have "phase_inv (s\<lparr>remote := m\<rparr>) = phase_inv s" "watch_inv (s\<lparr>remote := m\<rparr>) = watch_inv s"
    "stream_off_inv (s\<lparr>remote := m\<rparr>) = stream_off_inv s" "done_inv (s\<lparr>remote := m\<rparr>) = done_inv s"
    "client_inv (s\<lparr>remote := m\<rparr>) = client_inv s"
    by (simp_all add: phase_inv_def watch_inv_def stream_off_inv_def done_inv_def client_inv_def Let_def)
  ultimately show ?thesis using i by (simp add: mig_inv_def)
qed

lemma complete_wire:
  assumes "phase_inv s" "phase s = Sending" "length (wire s) = NBD_REQUEST_SIZE + unat (xfer_len (xfer (ctrl s)))"
  shows "take NBD_REQUEST_SIZE (wire s) = hdr (xfer (ctrl s))"
    "xfer_written (xfer (ctrl s)) = NBD_REQUEST_SIZE + unat (xfer_len (xfer (ctrl s)))"
  using assms length_hdr [of "ctrl s"] by (simp_all add: phase_inv_def Let_def)

lemma listener_apply_eq:
  assumes p: "phase_inv s" "phase s = Sending" and a: "listener_apply (wire s) (remote s) = Some (m, reply)"
  shows "length (wire s) = NBD_REQUEST_SIZE + unat (xfer_len (xfer (ctrl s)))" "reply = reply_bytes mirror_handle 0"
    "mem_write (unat (xfer_from (xfer (ctrl s)))) (drop NBD_REQUEST_SIZE (wire s)) (remote s) = Some m"
proof -
  let ?x = "xfer (ctrl s)"
  from a have l: "NBD_REQUEST_SIZE \<le> length (wire s)" by (auto simp: listener_apply_def split: if_split_asm)
  have "take NBD_REQUEST_SIZE (wire s) = hdr ?x" "unat (xfer_len ?x) < 2 ^ 32"
    using p l length_hdr [of "ctrl s"] by (simp_all add: phase_inv_def range_ok_def Let_def)
  moreover have "hdr ?x = request_raw_bytes (nbd_h2r_request (mirror_request (xfer_from ?x) (xfer_len ?x)))"
    using p by (simp add: phase_inv_def xfer_hdr_ok_def Let_def)
  ultimately show "length (wire s) = NBD_REQUEST_SIZE + unat (xfer_len ?x)" "reply = reply_bytes mirror_handle 0"
    "mem_write (unat (xfer_from ?x)) (drop NBD_REQUEST_SIZE (wire s)) (remote s) = Some m"
    using a l by (auto simp: listener_apply_def unat_ucast_len Let_def split: if_split_asm)
qed

lemma after_complete_wire:
  assumes inv: "mig_inv s" and st: "phase s = Sending" "length (wire s) = NBD_REQUEST_SIZE + unat (xfer_len (xfer (ctrl s)))"
    and ph: "ph = Applied \<or> ph = Refused"
  shows "watch_inv (s\<lparr>remote := m, replies := r, phase := ph\<rparr>)" "stream_off_inv (s\<lparr>remote := m, replies := r, phase := ph\<rparr>)"
    "client_inv (s\<lparr>remote := m, replies := r, phase := ph\<rparr>)" "done_inv (s\<lparr>remote := m, replies := r, phase := ph\<rparr>)"
proof -
  note i = mig_invD [OF inv]
  have w: "xfer_written (xfer (ctrl s)) = NBD_REQUEST_SIZE + unat (xfer_len (xfer (ctrl s)))" "0 < xfer_written (xfer (ctrl s))"
    using complete_wire(2) [OF i(3) st] by (simp_all add: NBD_REQUEST_SIZE_def)
  have j: "joining (ctrl s) = None"
  proof (rule ccontr)
    assume "joining (ctrl s) \<noteq> None"
    then obtain nx cl where "joining (ctrl s) = Some (nx, cl)" by auto
    with i(4) w show False by (auto simp: watch_inv_def Let_def)
  qed
  then show "watch_inv (s\<lparr>remote := m, replies := r, phase := ph\<rparr>)"
    using i(4) w ph by (auto simp: watch_inv_def Let_def)
  show "stream_off_inv (s\<lparr>remote := m, replies := r, phase := ph\<rparr>)" using i(5) w by (auto simp: stream_off_inv_def)
  show "client_inv (s\<lparr>remote := m, replies := r, phase := ph\<rparr>)" using i(6) by (simp add: client_inv_def)
  show "done_inv (s\<lparr>remote := m, replies := r, phase := ph\<rparr>)" using i(7) st(1) ph by (auto simp: done_inv_def)
qed

lemma listener_done_inv:
  assumes inv: "mig_inv s" and st: "phase s = Sending" "listener_apply (wire s) (remote s) = Some (m, reply)"
  shows "mig_inv (s\<lparr>remote := m, replies := reply, phase := Applied\<rparr>)"
proof -
  note i = mig_invD [OF inv]
  let ?s = "s\<lparr>remote := m, replies := reply, phase := Applied\<rparr>" and ?x = "xfer (ctrl s)"
  note a = listener_apply_eq [OF i(3) st]
  have len: "length m = length (remote s)" using a(3) by (auto simp: mem_write.simps split: if_splits)
  have payload: "length (drop NBD_REQUEST_SIZE (wire s)) = unat (xfer_len ?x)" using a(1) by simp
  have c: "copied ?s p = copied s p" if "p < length (remote s)" for p
    using mem_write_nth [OF a(3) that] payload a(1) st(1) by (auto simp: copied_def Let_def add.commute)
  have "accounted ?s p" if "accounted s p" "p < unat (serve_size (mserve (ctrl s)))" for p
  proof (rule accounted_mono [OF _ _ _ _ _ _ that(1)])
    show "copied ?s p = copied s p" using c [of p] that(2) i(1,2) by (simp add: ctrl_ok_def)
  qed simp_all
  then have "byte_inv ?s" using i(8) st(1) by (simp add: byte_inv_def)
  moreover have "phase_inv ?s"
    using i(3) st(1) a(2) length_hdr [of "ctrl s"] by (simp add: phase_inv_def Let_def)
  ultimately show ?thesis using i(1,2) len after_complete_wire [OF inv st(1) a(1)] by (simp add: mig_inv_def)
qed

lemma listener_refuses_inv:
  assumes inv: "mig_inv s" and st: "phase s = Sending" "length (wire s) = NBD_REQUEST_SIZE + unat (xfer_len (xfer (ctrl s)))"
    "(word_of_int e :: u32) \<noteq> 0"
  shows "mig_inv (s\<lparr>replies := reply_bytes h e, phase := Refused\<rparr>)"
proof -
  note i = mig_invD [OF inv]
  let ?s = "s\<lparr>replies := reply_bytes h e, phase := Refused\<rparr>"
  have "s\<lparr>remote := remote s, replies := reply_bytes h e, phase := Refused\<rparr> = ?s" by simp
  note f = after_complete_wire [OF inv st(1,2) disjI2 [OF refl], where m = "remote s" and r = "reply_bytes h e", unfolded this]
  have "phase_inv ?s" using i(3) st length_hdr [of "ctrl s"] by (auto simp: phase_inv_def Let_def)
  moreover have "byte_inv ?s" by (simp add: byte_inv_def)
  ultimately show ?thesis using i(1,2) f by (simp add: mig_inv_def)
qed

subsection \<open>Reading the reply\<close>

lemma reply_raw_of_prefix:
  "take NBD_REPLY_SIZE h = reply_raw_bytes r \<Longrightarrow> reply_raw_of h = r"
proof -
  assume a: "take NBD_REPLY_SIZE h = reply_raw_bytes r"
  have "length (reply_raw_bytes r) = NBD_REPLY_SIZE" by simp
  then have "reply_raw_of h = reply_raw_of (take NBD_REPLY_SIZE h)"
    by (simp add: reply_raw_of_def mem_slice_def drop_take NBD_REPLY_SIZE_def min_def)
  with a show ?thesis by simp
qed

definition after_read :: "byte list \<Rightarrow> mirror_ctrl \<Rightarrow> mirror_ctrl" where
  "after_read bs c =
     c\<lparr>timeout_watcher := True,
       xfer := (xfer c)\<lparr>hdr := take (xfer_read (xfer c)) (hdr (xfer c)) @ bs
                               @ drop (xfer_read (xfer c) + length bs) (hdr (xfer c)),
                         xfer_read := xfer_read (xfer c) + length bs\<rparr>\<rparr>"

lemma after_read_frame [simp]:
  "mserve (after_read bs c) = mserve c" "mirror (after_read bs c) = mirror c" "mmap (after_read bs c) = mmap c"
  "clients_closed (after_read bs c) = clients_closed c" "joining (after_read bs c) = joining c"
  "write_watcher (after_read bs c) = write_watcher c" "limit_watcher (after_read bs c) = limit_watcher c"
  "begin_watcher (after_read bs c) = begin_watcher c" "loop_broken (after_read bs c) = loop_broken c"
  "xfer_from (xfer (after_read bs c)) = xfer_from (xfer c)" "xfer_len (xfer (after_read bs c)) = xfer_len (xfer c)"
  "xfer_written (xfer (after_read bs c)) = xfer_written (xfer c)"
  "xfer_read (xfer (after_read bs c)) = xfer_read (xfer c) + length bs"
  by (simp_all add: after_read_def mmap_def)

lemma after_read_hdr:
  assumes "xfer_read (xfer c) + length bs \<le> length (hdr (xfer c))"
  shows "take (xfer_read (xfer c) + length bs) (hdr (xfer (after_read bs c))) = take (xfer_read (xfer c)) (hdr (xfer c)) @ bs"
    "length (hdr (xfer (after_read bs c))) = length (hdr (xfer c))"
  using assms by (cases bs; simp add: after_read_def min_def)+

lemma mirror_read_reply_cases:
  assumes "mirror_read_reply (Inr bs) c = (b, c')" "bs \<noteq> []" "length bs \<le> NBD_REPLY_SIZE - xfer_read (xfer c)"
  shows "(c' = after_read bs c \<or> c' = (after_read bs c)\<lparr>loop_broken := True\<rparr>)
     \<and> (b \<longrightarrow> c' = after_read bs c \<and> NBD_REPLY_SIZE \<le> xfer_read (xfer c) + length bs
          \<and> rp_error (nbd_r2h_reply (reply_raw_of (hdr (xfer c')))) = 0)"
  using assms unfolding mirror_read_reply_def sum.case take_all [OF assms(3)] Let_def
  by (auto simp: after_read_def split: if_split_asm)

lemma refused_not_done:
  assumes "phase_inv s" "phase s = Refused" "replies s = bs @ rest" "bs \<noteq> []"
    "length bs \<le> NBD_REPLY_SIZE - xfer_read (xfer (ctrl s))"
  shows "mirror_read_reply (Inr bs) (ctrl s) \<noteq> (True, c)"
proof
  let ?x = "xfer (ctrl s)"
  assume "mirror_read_reply (Inr bs) (ctrl s) = (True, c)"
  from mirror_read_reply_cases [OF this assms(4,5)] have c: "c = after_read bs (ctrl s)"
    "xfer_read ?x + length bs = NBD_REPLY_SIZE" "rp_error (nbd_r2h_reply (reply_raw_of (hdr (xfer c)))) = 0"
    using assms(4,5) by (auto simp: neq_Nil_conv)
  from assms(1,2) obtain h e where e: "(word_of_int e :: u32) \<noteq> 0" "length (hdr ?x) = NBD_REQUEST_SIZE"
      "take (xfer_read ?x) (hdr ?x) @ replies s = reply_bytes h e"
    by (auto simp: phase_inv_def Let_def)
  have fit: "xfer_read ?x + length bs \<le> length (hdr ?x)"
    using c(2) e(2) by (simp add: NBD_REPLY_SIZE_def NBD_REQUEST_SIZE_def)
  have "length (reply_bytes h e) = NBD_REPLY_SIZE" by (simp add: reply_bytes_def)
  with arg_cong [OF e(3), of length] assms(3) fit have "xfer_read ?x + (length bs + length rest) = NBD_REPLY_SIZE" by simp
  with c(2) have "length rest = 0" by linarith
  then have "rest = []" by simp
  with e(3) assms(3) after_read_hdr(1) [OF fit] c have "take NBD_REPLY_SIZE (hdr (xfer c)) = reply_bytes h e" by simp
  from reply_raw_of_prefix [OF this [unfolded reply_bytes_def]] c(3) e(1) show False by simp
qed

lemma read_part_inv:
  assumes inv: "mig_inv s" and st: "replies s = bs @ rest" "bs \<noteq> []"
    "length bs \<le> NBD_REPLY_SIZE - xfer_read (xfer (ctrl s))" "mirror_read_reply (Inr bs) (ctrl s) = (b, c)"
  shows "mig_inv (s\<lparr>ctrl := c, replies := rest\<rparr>)" and "phase s = Applied \<or> phase s = Refused"
proof -
  note i = mig_invD [OF inv]
  let ?x = "xfer (ctrl s)" and ?s = "s\<lparr>ctrl := c, replies := rest\<rparr>"
  note c = mirror_read_reply_cases [OF st(4,2,3), THEN conjunct1]
  show ph: "phase s = Applied \<or> phase s = Refused"
    using i(3) st(1,2) by (cases "phase s") (auto simp: phase_inv_def Let_def)
  have same: "mserve c = mserve (ctrl s)" "mirror c = mirror (ctrl s)" "mmap c = mmap (ctrl s)" "joining c = joining (ctrl s)"
    "clients_closed c = clients_closed (ctrl s)" "write_watcher c = write_watcher (ctrl s)"
    "limit_watcher c = limit_watcher (ctrl s)" "begin_watcher c = begin_watcher (ctrl s)" "xfer_range c = xfer_range (ctrl s)"
    "loop_broken (ctrl s) \<longrightarrow> loop_broken c" "xfer_written (xfer c) = xfer_written ?x"
    "xfer_read (xfer c) = xfer_read ?x + length bs" "hdr (xfer c) = hdr (xfer (after_read bs (ctrl s)))"
    using c by (auto simp: mmap_def)
  have hl: "length (hdr ?x) = NBD_REQUEST_SIZE" using i(3) ph by (auto simp: phase_inv_def Let_def)
  have fit: "xfer_read ?x + length bs \<le> length (hdr ?x)"
    using st(2,3) hl by (cases "xfer_read ?x \<le> NBD_REPLY_SIZE") (auto simp: NBD_REPLY_SIZE_def NBD_REQUEST_SIZE_def)
  note h = after_read_hdr [OF fit]
  have t: "take (xfer_read (xfer c)) (hdr (xfer c)) @ rest = take (xfer_read ?x) (hdr ?x) @ replies s"
    "length (hdr (xfer c)) = NBD_REQUEST_SIZE" using same(12,13) h hl st(1) by simp_all
  have "phase_inv ?s"
    using ph
  proof
    assume "phase s = Applied"
    with i(3) t same(1,9) show ?thesis by (simp add: phase_inv_def Let_def)
  next
    assume "phase s = Refused"
    with i(3) t same(1,9) show ?thesis by (simp add: phase_inv_def Let_def)
  qed
  moreover have "ctrl_ok c" using i(1) same(1,2) by (subst ctrl_ok_cong [of _ "ctrl s"]) simp_all
  moreover have "watch_inv ?s" using i(4) ph same by (auto simp: watch_inv_def Let_def)
  moreover have "stream_off_inv ?s" using i(5) ph same by (auto simp: stream_off_inv_def)
  moreover have "client_inv ?s" "done_inv ?s" using i(6,7) ph same by (auto simp: client_inv_def done_inv_def)
  moreover have "accounted ?s p" if "accounted s p" for p
    using same ph by (intro accounted_mono [OF _ _ _ _ _ _ that]) (auto simp: copied_def)
  then have "byte_inv ?s" using i(8) same(1) by (simp add: byte_inv_def)
  ultimately show "mig_inv ?s" using i(2) same(1) by (simp add: mig_inv_def)
qed

subsection \<open>Moving on to the next transfer\<close>

definition fresh_xfer :: "mirror_ctrl \<Rightarrow> bool" where
  "fresh_xfer c \<longleftrightarrow> range_ok (serve_size (mserve c)) (xfer_range c) \<and> xfer_hdr_ok c
     \<and> xfer_written (xfer c) = 0 \<and> xfer_read (xfer c) = 0"

definition ctrl_frame :: "mirror_ctrl \<Rightarrow> mirror_ctrl \<Rightarrow> bool" where
  "ctrl_frame c c' \<longleftrightarrow> serve_size (mserve c') = serve_size (mserve c) \<and> file_map (mserve c') = file_map (mserve c)
     \<and> stream_enabled (mmap c') = stream_enabled (mmap c) \<and> commit_state (mirror c') = commit_state (mirror c)
     \<and> clients_closed c' = clients_closed c \<and> write_watcher c' = write_watcher c \<and> limit_watcher c' = limit_watcher c
     \<and> begin_watcher c' = begin_watcher c \<and> loop_broken c' = loop_broken c \<and> joining c' = joining c"

lemma setup_step:
  assumes ok: "ctrl_ok c" and su: "mirror_setup_next_xfer c = (b, c')"
  shows "ctrl_frame c c'" and "b \<Longrightarrow> fresh_xfer c'"
    and "\<not> b \<Longrightarrow> offset (mirror c') = serve_size (mserve c') \<and> queued c' = [] \<and> xfer c' = xfer c"
    and "(\<exists>e\<in>set (queued c). event e = BITSET_STREAM_SET \<and> covers e p) \<or> unat (offset (mirror c)) \<le> p \<Longrightarrow>
      p < unat (serve_size (mserve c)) \<Longrightarrow>
      b \<and> in_range (xfer_range c') p \<or> (\<exists>e\<in>set (queued c'). event e = BITSET_STREAM_SET \<and> covers e p)
        \<or> unat (offset (mirror c')) \<le> p"
    and "b \<Longrightarrow> unat (offset (mirror c)) \<le> p \<Longrightarrow> p < unat (offset (mirror c')) \<Longrightarrow> in_range (xfer_range c') p"
proof -
  from mirror_setup_next_xfer_spec [OF ok] obtain st ce where
    "(\<exists>f l o'. mirror_setup_next_xfer c =
            (True, (put_mmap ((mmap c)\<lparr>stream := st\<rparr>) c)\<lparr>clear_events := ce,
                      mirror := (mirror c)\<lparr>offset := o'\<rparr>, xfer := new_xfer f l\<rparr>)
          \<and> next_range c o' (stream_list st) f l)
        \<or> mirror_setup_next_xfer c =
            (False, (put_mmap ((mmap c)\<lparr>stream := st\<rparr>) c)\<lparr>clear_events := ce\<rparr>)
          \<and> offset (mirror c) = serve_size (mserve c)
          \<and> (\<forall>e\<in>set (queued c). event e \<noteq> BITSET_STREAM_SET) \<and> stream_list st = []" by blast
  then consider (more) f l o' where "b" "c' = (put_mmap ((mmap c)\<lparr>stream := st\<rparr>) c)\<lparr>clear_events := ce,
                      mirror := (mirror c)\<lparr>offset := o'\<rparr>, xfer := new_xfer f l\<rparr>" "next_range c o' (stream_list st) f l"
    | (none) "\<not> b" "c' = (put_mmap ((mmap c)\<lparr>stream := st\<rparr>) c)\<lparr>clear_events := ce\<rparr>"
        "offset (mirror c) = serve_size (mserve c)" "\<forall>e\<in>set (queued c). event e \<noteq> BITSET_STREAM_SET" "stream_list st = []"
    using su by fastforce
  note alts = this
  show "ctrl_frame c c'" by (cases rule: alts) (simp_all add: ctrl_frame_def)
  show "b \<Longrightarrow> fresh_xfer c'"
    by (cases rule: alts) (simp_all add: fresh_xfer_def new_xfer_def range_ok_def next_range_def xfer_hdr_ok_def)
  show "\<not> b \<Longrightarrow> offset (mirror c') = serve_size (mserve c') \<and> queued c' = [] \<and> xfer c' = xfer c"
    by (cases rule: alts) simp_all
  show "b \<Longrightarrow> unat (offset (mirror c)) \<le> p \<Longrightarrow> p < unat (offset (mirror c')) \<Longrightarrow> in_range (xfer_range c') p"
    by (cases rule: alts) (auto simp: new_xfer_def next_range_def)
  assume old: "(\<exists>e\<in>set (queued c). event e = BITSET_STREAM_SET \<and> covers e p) \<or> unat (offset (mirror c)) \<le> p"
    and p: "p < unat (serve_size (mserve c))"
  show "b \<and> in_range (xfer_range c') p \<or> (\<exists>e\<in>set (queued c'). event e = BITSET_STREAM_SET \<and> covers e p)
        \<or> unat (offset (mirror c')) \<le> p"
  proof (cases rule: alts)
    case (more f l o')
    from old show ?thesis
    proof
      assume "\<exists>e\<in>set (queued c). event e = BITSET_STREAM_SET \<and> covers e p"
      then obtain e where "e \<in> set (queued c)" "event e = BITSET_STREAM_SET" "covers e p" by blast
      with more show ?thesis by (auto simp: next_range_def new_xfer_def covers_def)
    next
      assume "unat (offset (mirror c)) \<le> p"
      with more show ?thesis by (cases "p < unat o'") (auto simp: next_range_def new_xfer_def)
    qed
  next
    case none
    with old p show ?thesis by auto
  qed
qed

lemma next_accounted:
  assumes su: "ctrl_ok c" "mirror_setup_next_xfer c = (b, c')"
    and c: "queued c = queued (ctrl s)" "offset (mirror c) = offset (mirror (ctrl s))" "mserve c = mserve (ctrl s)"
    and c'': "mmap c'' = mmap c'" "offset (mirror c'') = offset (mirror c')" "xfer c'' = xfer c'"
      "file_map (mserve c'') = file_map (mserve c')"
    and p: "phase s \<noteq> Sending" "accounted s p" "p < unat (serve_size (mserve (ctrl s)))"
  shows "accounted (next_phase b (s\<lparr>ctrl := c''\<rparr>)) p"
proof -
  let ?s = "next_phase b (s\<lparr>ctrl := c''\<rparr>)"
  note st = setup_step [OF su]
  have f: "file_map (mserve c'') = file_map (mserve (ctrl s))" using st(1) c'' c by (simp add: ctrl_frame_def)
  have eq: "b \<and> in_range (xfer_range c') p \<Longrightarrow> copied ?s p = file_map (mserve c'') ! p"
      "\<not> (b \<and> in_range (xfer_range c') p) \<Longrightarrow> copied ?s p = copied s p"
    using p(1) c'' by (auto simp: copied_def next_phase_def Let_def)
  show ?thesis
  proof (cases "b \<and> in_range (xfer_range c') p")
    case True
    with eq(1) show ?thesis by (simp add: accounted_def next_phase_def)
  next
    case False
    from p(2) st(4) [of p] False p(3) c c'' eq(2) f show ?thesis
      by (auto simp: accounted_def next_phase_def)
  qed
qed

lemma xfer_done_eq:
  assumes "joining (mirror_xfer_done now c) = Some (b, closing)"
  shows "\<exists>c3 c4. mserve c3 = mserve c \<and> offset (mirror c3) = offset (mirror c) \<and> ctrl_frame c c3 \<and> xfer_written (xfer c3) = 0
     \<and> mirror_setup_next_xfer c3 = (b, c4)
     \<and> ctrl_frame c4 ((mirror_xfer_done now c)\<lparr>joining := joining c4\<rparr>)
     \<and> mmap (mirror_xfer_done now c) = mmap c4 \<and> mirror (mirror_xfer_done now c) = mirror c4
     \<and> xfer (mirror_xfer_done now c) = xfer c4 \<and> (\<not> b \<and> \<not> closing \<longrightarrow> clients_closed c4)"
proof -
  define c1 where "c1 = c\<lparr>xfer := (xfer c)\<lparr>xfer_read := 0, xfer_written := 0\<rparr>\<rparr>"
  define c2 where "c2 = (if \<not> clear_events c1
                then c1\<lparr>mirror := (mirror c1)\<lparr>all_dirty := all_dirty (mirror c1) + xfer_len (xfer c1)\<rparr>\<rparr> else c1)"
  define c3 where "c3 = c2\<lparr>timeout_watcher := False\<rparr>"
  obtain b' c4 where s: "mirror_setup_next_xfer c3 = (b', c4)" by fastforce
  define cl where "cl \<longleftrightarrow> \<not> clients_closed c4 \<and> (\<not> b' \<or> server_mirror_eta now c4 < MS_CONVERGE_TIME_SECS)"
  have e: "mirror_xfer_done now c = (if cl
       then c4\<lparr>mserve := (mserve c4)\<lparr>allow_new_clients := False\<rparr>, joining := Some (b', True)\<rparr>
       else c4\<lparr>joining := Some (b', False)\<rparr>)"
    unfolding mirror_xfer_done_def Let_def c1_def [symmetric] c2_def [symmetric] c3_def [symmetric] s cl_def by simp
  then have b: "b' = b" "closing = cl" using assms by (auto split: if_split_asm)
  have "mserve c3 = mserve c" "offset (mirror c3) = offset (mirror c)" "ctrl_frame c c3" "xfer_written (xfer c3) = 0"
    by (simp_all add: c3_def c2_def c1_def ctrl_frame_def mmap_def)
  moreover have "ctrl_frame c4 ((mirror_xfer_done now c)\<lparr>joining := joining c4\<rparr>)"
    by (simp add: e ctrl_frame_def mmap_def)
  ultimately show ?thesis
    using s b by (intro exI [of _ c3] exI [of _ c4]) (auto simp: e cl_def mmap_def)
qed

lemma ctrl_frame_trans: "ctrl_frame a b \<Longrightarrow> ctrl_frame b c \<Longrightarrow> ctrl_frame a c"
  by (simp add: ctrl_frame_def)

lemma next_phase_sel [simp]:
  "ctrl (next_phase b s) = ctrl s" "remote (next_phase b s) = remote s" "pending (next_phase b s) = pending s"
  "torn (next_phase b s) = torn s" "replies (next_phase b s) = replies s" "wire (next_phase b s) = []"
  "phase (next_phase b s) = (if b then Sending else Idle)"
  by (simp_all add: next_phase_def)

lemma next_phase_inv:
  assumes "b \<Longrightarrow> fresh_xfer (ctrl s)" "replies s = []"
  shows "phase_inv (next_phase b s)"
  using assms by (auto simp: phase_inv_def fresh_xfer_def Let_def)

lemma xfer_done_inv:
  assumes inv: "mig_inv s" and st: "phase s = Applied" "replies s = []" "loop_runs s"
    and j: "joining (mirror_xfer_done now (ctrl s)) = Some (b, closing)"
  shows "mig_inv (next_phase b (s\<lparr>ctrl := mirror_xfer_done now (ctrl s)\<rparr>))"
proof -
  note i = mig_invD [OF inv]
  let ?c = "mirror_xfer_done now (ctrl s)" and ?s = "next_phase b (s\<lparr>ctrl := mirror_xfer_done now (ctrl s)\<rparr>)"
  from xfer_done_eq [OF j] obtain c3 c4 where
    c3: "mserve c3 = mserve (ctrl s)" "offset (mirror c3) = offset (mirror (ctrl s))" "ctrl_frame (ctrl s) c3"
      "mirror_setup_next_xfer c3 = (b, c4)" "xfer_written (xfer c3) = 0"
    and c: "ctrl_frame c4 (?c\<lparr>joining := joining c4\<rparr>)" "mmap ?c = mmap c4" "mirror ?c = mirror c4" "xfer ?c = xfer c4"
      "\<not> b \<and> \<not> closing \<longrightarrow> clients_closed c4" by blast
  have ok3: "ctrl_ok c3" using i(1) c3(1,2) by (subst ctrl_ok_cong [of _ "ctrl s"]) simp_all
  note su = setup_step [OF ok3 c3(4)]
  have fr: "ctrl_frame (ctrl s) c4" using c3(3) su(1) by (rule ctrl_frame_trans)
  have same: "serve_size (mserve ?c) = serve_size (mserve (ctrl s))" "file_map (mserve ?c) = file_map (mserve (ctrl s))"
    "stream_enabled (mmap ?c) = stream_enabled (mmap (ctrl s))" "commit_state (mirror ?c) = commit_state (mirror (ctrl s))"
    "clients_closed ?c = clients_closed (ctrl s)" "write_watcher ?c = write_watcher (ctrl s)" "limit_watcher ?c = limit_watcher (ctrl s)"
    "begin_watcher ?c = begin_watcher (ctrl s)" "loop_broken ?c = loop_broken (ctrl s)" "clients_closed c4 = clients_closed (ctrl s)"
    using fr c(1,2) by (simp_all add: ctrl_frame_def)
  have s4: "serve_size (mserve ?c) = serve_size (mserve c4)" using same(1) fr by (simp add: ctrl_frame_def)
  have f4: "file_map (mserve ?c) = file_map (mserve c4)" using c(1) by (simp add: ctrl_frame_def)
  have w: "\<not> write_watcher (ctrl s)" "\<not> limit_watcher (ctrl s)" "\<not> begin_watcher (ctrl s)" "stream_enabled (mmap (ctrl s))"
    "commit_state (mirror (ctrl s)) \<noteq> MS_DONE"
    using i(4,5,7) st by (auto simp: watch_inv_def stream_off_inv_def done_inv_def Let_def)
  have fx: "b \<Longrightarrow> fresh_xfer ?c" using su(2) c(4) s4 by (simp add: fresh_xfer_def xfer_hdr_ok_def)
  have w0: "xfer_written (xfer ?c) = 0"
    using fx su(3) c(4) c3(5) by (cases b) (simp_all add: fresh_xfer_def)
  have "phase_inv ?s" using fx st(2) by (intro next_phase_inv) simp_all
  moreover have "ctrl_ok ?c"
    using ctrl_ok_same [OF setup_ctrl_ok [OF ok3 c3(4), THEN conjunct1] c(2) f4 s4] c(3) by simp
  moreover have "watch_inv ?s" using w same j w0 by (auto simp: watch_inv_def Let_def)
  moreover have "stream_off_inv ?s" using w(4) same by (simp add: stream_off_inv_def)
  moreover have "client_inv ?s" using i(6) same by (simp add: client_inv_def)
  moreover have "done_inv ?s" using w(5) same j su(3) c s4 by (auto simp: done_inv_def drained_def)
  moreover have "accounted ?s p" if "accounted s p" "p < unat (serve_size (mserve (ctrl s)))" for p
    using c c3 same st(1) that
    by (intro next_accounted [OF ok3 c3(4)]) (auto simp: mmap_def fr [unfolded ctrl_frame_def])
  then have "byte_inv ?s" using i(8) same(1) st(1) by (simp add: byte_inv_def)
  ultimately show ?thesis using i(2) same(2) by (simp add: mig_inv_def)
qed

lemma read_done_inv:
  assumes inv: "mig_inv s" and st: "loop_runs s" "replies s = bs @ rest" "bs \<noteq> []"
    "length bs \<le> NBD_REPLY_SIZE - xfer_read (xfer (ctrl s))" "mirror_read_reply (Inr bs) (ctrl s) = (True, c)"
    "joining (mirror_xfer_done now c) = Some (b, closing)"
  shows "mig_inv (next_phase b (s\<lparr>replies := rest, ctrl := mirror_xfer_done now c\<rparr>))"
proof -
  let ?s = "s\<lparr>ctrl := c, replies := rest\<rparr>"
  note r = read_part_inv [OF inv st(2-5)]
  have ph: "phase s = Applied"
    using r(2) refused_not_done [OF mig_invD(3) [OF inv] _ st(2-4), of c] st(5) by auto
  note c = mirror_read_reply_cases [OF st(5,3,4), THEN conjunct2, rule_format, OF TrueI]
  have "take (xfer_read (xfer c)) (hdr (xfer c)) @ rest = reply_bytes mirror_handle 0" "length (hdr (xfer c)) = NBD_REQUEST_SIZE"
    using mig_invD(3) [OF r(1)] ph by (simp_all add: phase_inv_def Let_def)
  moreover have "length (reply_bytes mirror_handle 0) = NBD_REPLY_SIZE" by (simp add: reply_bytes_def)
  moreover have "xfer_read (xfer c) = NBD_REPLY_SIZE" using c st(3,4) by (cases bs) auto
  ultimately have "length rest = 0"
    by (auto simp: NBD_REPLY_SIZE_def NBD_REQUEST_SIZE_def dest!: arg_cong [where f = length])
  then have "replies ?s = []" by simp
  moreover have "loop_runs ?s" using st(1) c by simp
  ultimately show ?thesis
    using xfer_done_inv [OF r(1), of now b closing] ph st(6) by simp
qed

subsection \<open>After the clients have gone\<close>

lemma close_done_step:
  assumes inv: "mig_inv s" and st: "\<not> loop_broken (ctrl s)" "joining (ctrl s) = Some (nx, closing)"
    "mirror_close_done nx closing (ctrl s) = (b, c)"
  shows "ctrl_ok c" "replies s = []" "b \<Longrightarrow> fresh_xfer c" "clients_closed c \<longleftrightarrow> clients_closed (ctrl s) \<or> closing"
    "\<not> write_watcher c" "\<not> limit_watcher c" "\<not> begin_watcher c" "\<not> loop_broken c" "stream_enabled (mmap c)"
    "commit_state (mirror c) \<noteq> MS_DONE" "file_map (mserve c) = file_map (mserve (ctrl s))"
    "serve_size (mserve c) = serve_size (mserve (ctrl s))" "\<not> b \<Longrightarrow> drained c"
    "\<And>p. p < unat (serve_size (mserve c)) \<Longrightarrow> accounted (next_phase b (s\<lparr>ctrl := c\<rparr>)) p"
proof -
  note i = mig_invD [OF inv]
  have ph: "phase s = (if nx then Sending else Idle)" "\<not> write_watcher (ctrl s)" "\<not> limit_watcher (ctrl s)"
    "\<not> begin_watcher (ctrl s)" "xfer_written (xfer (ctrl s)) = 0"
    using i(4) st(2) by (auto simp: watch_inv_def Let_def)
  have nd: "commit_state (mirror (ctrl s)) \<noteq> MS_DONE" "stream_enabled (mmap (ctrl s))"
    using i(5,7) st(1,2) by (auto simp: done_inv_def stream_off_inv_def)
  have acc: "p < unat (serve_size (mserve (ctrl s))) \<Longrightarrow> accounted s p" for p
    using i(8) ph(1) by (simp add: byte_inv_def split: if_split_asm)
  show "replies s = []" using i(3) ph(1) by (auto simp: phase_inv_def Let_def split: if_split_asm)
  let ?c0 = "(ctrl s)\<lparr>clients_closed := clients_closed (ctrl s) \<or> closing\<rparr>"
  have ok0: "ctrl_ok ?c0" using i(1) by (subst ctrl_ok_cong [of _ "ctrl s"]) simp_all
  consider (again) "closing" "\<not> nx" "mirror_setup_next_xfer ?c0 = (b, c)" | (go) "nx" "b" "c = ?c0"
    | (idle) "\<not> nx" "\<not> closing" "\<not> b" "c = ctrl s"
    using st(3) by (auto simp: mirror_close_done_def split: if_split_asm)
  note alts = this
  have main: "ctrl_ok c \<and> (b \<longrightarrow> fresh_xfer c) \<and> (clients_closed c \<longleftrightarrow> clients_closed (ctrl s) \<or> closing)
    \<and> ctrl_frame (ctrl s) (c\<lparr>clients_closed := clients_closed (ctrl s)\<rparr>) \<and> (\<not> b \<longrightarrow> drained c)
    \<and> (\<forall>p < unat (serve_size (mserve (ctrl s))). accounted (next_phase b (s\<lparr>ctrl := c\<rparr>)) p)"
  proof (cases rule: alts)
    case again
    note su = setup_step [OF ok0 again(3)]
    have "accounted (next_phase b (s\<lparr>ctrl := c\<rparr>)) p" if "p < unat (serve_size (mserve (ctrl s)))" for p
      using again(2) ph(1) acc [OF that] that by (intro next_accounted [OF ok0 again(3)]) (simp_all)
    then show ?thesis
      using su setup_ctrl_ok [OF ok0 again(3)] again(1) by (auto simp: ctrl_frame_def drained_def)
  next
    case go
    have wire: "wire s = []" "fresh_xfer (ctrl s)" using i(3) ph(1,5) go(1) by (auto simp: phase_inv_def fresh_xfer_def Let_def)
    then have "fresh_xfer c" using go(3) by (simp add: fresh_xfer_def xfer_hdr_ok_def)
    moreover have "copied (next_phase b (s\<lparr>ctrl := c\<rparr>)) p = copied s p" for p
      using go wire(1) ph(1) by (auto simp: copied_def Let_def)
    then have "accounted (next_phase b (s\<lparr>ctrl := c\<rparr>)) p" if "p < unat (serve_size (mserve (ctrl s)))" for p
      using go by (intro accounted_mono [OF _ _ _ _ _ _ acc [OF that]]) simp_all
    ultimately show ?thesis using ok0 go by (simp add: ctrl_frame_def)
  next
    case idle
    have "drained (ctrl s)" using i(7) ph(1) st(2) idle by (simp add: done_inv_def)
    moreover have "copied (next_phase b (s\<lparr>ctrl := c\<rparr>)) p = copied s p" for p
      using idle ph(1) by (simp add: copied_def)
    then have "accounted (next_phase b (s\<lparr>ctrl := c\<rparr>)) p" if "p < unat (serve_size (mserve (ctrl s)))" for p
      using idle by (intro accounted_mono [OF _ _ _ _ _ _ acc [OF that]]) simp_all
    ultimately show ?thesis using i(1) idle by (simp add: ctrl_frame_def)
  qed
  then show "ctrl_ok c" "b \<Longrightarrow> fresh_xfer c" "clients_closed c \<longleftrightarrow> clients_closed (ctrl s) \<or> closing"
    "\<not> write_watcher c" "\<not> limit_watcher c" "\<not> begin_watcher c" "\<not> loop_broken c" "stream_enabled (mmap c)"
    "commit_state (mirror c) \<noteq> MS_DONE" "file_map (mserve c) = file_map (mserve (ctrl s))"
    "serve_size (mserve c) = serve_size (mserve (ctrl s))" "\<not> b \<Longrightarrow> drained c"
    "\<And>p. p < unat (serve_size (mserve c)) \<Longrightarrow> accounted (next_phase b (s\<lparr>ctrl := c\<rparr>)) p"
    using ph nd st(1) by (simp_all add: ctrl_frame_def)
qed

lemma accounted_ctrl:
  assumes "mmap c' = mmap c" "file_map (mserve c') = file_map (mserve c)" "xfer c' = xfer c" "offset (mirror c') = offset (mirror c)"
    "accounted (next_phase b (s\<lparr>ctrl := c\<rparr>)) p"
  shows "accounted (next_phase b (s\<lparr>ctrl := c'\<rparr>)) p"
  using assms(1-4) by (intro accounted_mono [OF _ _ _ _ _ _ assms(5)]) (simp_all add: copied_def Let_def)

lemma joined_inv:
  assumes inv: "mig_inv s" and st: "\<not> loop_broken (ctrl s)" "joining (ctrl s) = Some (nx, closing)" "closing \<Longrightarrow> pending s = []"
    "mirror_joined now ok (ctrl s) = Ret b c"
  shows "mig_inv (next_phase b (s\<lparr>ctrl := c\<rparr>))"
proof -
  note i = mig_invD [OF inv]
  let ?s = "next_phase b (s\<lparr>ctrl := c\<rparr>)"
  obtain b1 c1 where cd: "mirror_close_done nx closing (ctrl s) = (b1, c1)" by fastforce
  note d = close_done_step [OF inv st(1,2) cd]
  have pr: "mirror_proceed now ok b1 (c1\<lparr>joining := None\<rparr>) = Ret b c" using st(2,4) cd by (simp add: mirror_joined_def)
  have cl: "clients_closed c1 \<longrightarrow> pending s = []" using i(6) st(3) d(4) by (auto simp: client_inv_def)
  have same: "mmap c = mmap c1" "file_map (mserve c) = file_map (mserve c1)" "serve_size (mserve c) = serve_size (mserve c1)"
    "xfer c = xfer c1" "offset (mirror c) = offset (mirror c1)" "clients_closed c = clients_closed c1" "joining c = None"
    "begin_watcher c = begin_watcher c1" "b = b1"
    using pr by (cases rule: mirror_proceed_cases; auto dest!: mirror_complete_ok simp: mirror_set_state_f_def)+
  have w: "b \<longrightarrow> (write_watcher c \<longrightarrow> \<not> limit_watcher c) \<and> commit_state (mirror c) \<noteq> MS_DONE"
    "\<not> b \<longrightarrow> clients_closed c \<and> loop_broken c \<and> \<not> write_watcher c \<and> \<not> limit_watcher c"
    using pr d(5-8,10) by (cases rule: mirror_proceed_cases; auto dest!: mirror_complete_ok simp: mirror_set_state_f_def)+
  have "phase_inv ?s"
    using d(2,3) same by (intro next_phase_inv) (simp_all add: fresh_xfer_def xfer_hdr_ok_def)
  moreover have "ctrl_ok c" using same by (intro ctrl_ok_same [OF d(1)]) simp_all
  moreover have "xfer_written (xfer c) = 0 \<and> 0 < NBD_REQUEST_SIZE" if b
    using d(3) same that by (simp add: fresh_xfer_def NBD_REQUEST_SIZE_def)
  then have "watch_inv ?s" using w same d(7) by (auto simp: watch_inv_def Let_def)
  moreover have "stream_off_inv ?s" using d(9) same by (simp add: stream_off_inv_def)
  moreover have "client_inv ?s" using i(6) d(12) same cl by (simp add: client_inv_def)
  moreover have "done_inv ?s" using w same d(13) by (auto simp: done_inv_def drained_def)
  moreover have "byte_inv ?s"
    using accounted_ctrl [OF same(1,2,4,5) d(14)] same by (simp add: byte_inv_def)
  ultimately show ?thesis using i(2) d(11) same by (simp add: mig_inv_def)
qed

subsection \<open>Timers and signals\<close>

lemma read_fails_inv:
  assumes inv: "mig_inv s" and st: "r = Inl e \<or> r = Inr []" "mirror_read_reply r (ctrl s) = (b, c)"
  shows "mig_inv (s\<lparr>ctrl := c\<rparr>)"
proof -
  have "c = ctrl s \<or> c = (ctrl s)\<lparr>loop_broken := True\<rparr>"
    using st by (auto simp: mirror_read_reply_def Let_def split: if_split_asm)
  then show ?thesis
  proof
    assume c: "c = (ctrl s)\<lparr>loop_broken := True\<rparr>"
    show ?thesis
      by (rule mig_inv_ctrl [OF inv])
        (use mig_invD(4,5) [OF inv] c in \<open>simp_all add: watch_inv_def stream_off_inv_def Let_def\<close>)
  qed (use inv in simp)
qed

lemma timeout_inv: "mig_inv s \<Longrightarrow> mig_inv (s\<lparr>ctrl := mirror_timeout_cb (ctrl s)\<rparr>)"
  by (rule mig_inv_ctrl)
    (use mig_invD(4,5) [of s] in \<open>simp_all add: mirror_timeout_cb_def watch_inv_def stream_off_inv_def Let_def\<close>)

lemma abandon_inv: "mig_inv s \<Longrightarrow> mig_inv (s\<lparr>ctrl := mirror_abandon_cb (ctrl s)\<rparr>)"
  by (rule mig_inv_ctrl)
    (use mig_invD(4,5) [of s] in \<open>simp_all add: mirror_abandon_cb_def set_state_def mirror_set_state_f_def
        watch_inv_def stream_off_inv_def Let_def\<close>)

lemma limit_inv:
  assumes inv: "mig_inv s" and st: "limit_watcher (ctrl s)" "joining (ctrl s) = None"
  shows "mig_inv (s\<lparr>ctrl := mirror_limit_cb now (ctrl s)\<rparr>)"
proof -
  note i = mig_invD [OF inv]
  have f: "phase s = Sending" "xfer_written (xfer (ctrl s)) = 0" "\<not> begin_watcher (ctrl s)"
    "stream_enabled (mmap (ctrl s))"
    using i(4,5) st by (auto simp: watch_inv_def stream_off_inv_def Let_def)
  show ?thesis
    by (rule mig_inv_ctrl [OF inv])
      (use f st i(4) in \<open>auto simp: mirror_limit_cb_def watch_inv_def stream_off_inv_def NBD_REQUEST_SIZE_def Let_def\<close>)
qed

lemma enable_stream_queue:
  assumes "ctrl_ok c" "enable_stream c = Ret u c'"
  shows "\<exists>bs. c' = put_mmap bs c \<and> stream_enabled bs
     \<and> stream_list (stream bs) = queued c @ [\<lparr>event = BITSET_STREAM_ON, entry_from = 0, entry_len = bs_size (mmap c)\<rparr>]"
proof -
  have wf: "wf_bitset ((mmap c)\<lparr>stream_enabled := True\<rparr>)" using assms(1) by (auto simp: ctrl_ok_def wf_bitset_def)
  from enqueue_spec [OF wf, of BITSET_STREAM_ON 0 "bs_size (mmap c)"] assms(2) show ?thesis
    by (auto simp: enable_stream_def bitset_enable_stream_def bitset_stream_size_def same_shape_def
        split: cresult.splits if_split_asm)
qed

lemma begins_inv:
  assumes inv: "mig_inv s" and st: "loop_runs s" "begin_watcher (ctrl s)" "mirror_begin_cb (ctrl s) = Ret () c"
  shows "mig_inv (s\<lparr>ctrl := c\<rparr>)"
proof (cases "allocation_map_built (mserve (ctrl s)) \<or> allocation_map_not_built (mserve (ctrl s))")
  case False
  then have c: "c = (ctrl s)\<lparr>begin_watcher := True\<rparr>" using st(3) by (simp add: mirror_begin_cb_def)
  show ?thesis
    by (rule mig_inv_ctrl [OF inv])
      (use mig_invD(4,5) [OF inv] st(2) c in \<open>simp_all add: watch_inv_def stream_off_inv_def Let_def\<close>)
next
  case True
  note i = mig_invD [OF inv]
  let ?c0 = "(ctrl s)\<lparr>begin_watcher := False, write_watcher := True, timeout_watcher := True\<rparr>" and ?s = "s\<lparr>ctrl := c\<rparr>"
  have en: "enable_stream ?c0 = Ret () c" using True st(3) by (simp add: mirror_begin_cb_def)
  have ok0: "ctrl_ok ?c0" using i(1) by (subst ctrl_ok_cong [of _ "ctrl s"]) simp_all
  from enable_stream_queue [OF ok0 en] obtain bs where c: "c = put_mmap bs ?c0" "stream_enabled bs"
    "set (stream_list (stream bs)) = insert \<lparr>event = BITSET_STREAM_ON, entry_from = 0, entry_len = bs_size (mmap (ctrl s))\<rparr>
       (set (queued (ctrl s)))" by auto
  have f: "phase s = Sending" "xfer_written (xfer (ctrl s)) = 0" "\<not> limit_watcher (ctrl s)"
    using i(4) st(2) by (auto simp: watch_inv_def Let_def)
  note g = enable_stream_ok [OF ok0 en, THEN conjunct1]
  have "phase_inv ?s" using i(3) c(1) by (simp add: phase_inv_def xfer_hdr_ok_def Let_def)
  moreover have "accounted ?s p" if "accounted s p" for p
    using c by (intro accounted_mono [OF _ _ _ _ _ _ that]) (auto simp: copied_def Let_def)
  then have "byte_inv ?s" using i(8) c(1) by (simp add: byte_inv_def)
  moreover have "client_inv ?s" "done_inv ?s" "stream_off_inv ?s"
    using i(6,7) f(1) c(1,2) by (auto simp: client_inv_def done_inv_def stream_off_inv_def)
  moreover have "watch_inv ?s"
    using f c(1) st by (auto simp: watch_inv_def NBD_REQUEST_SIZE_def Let_def)
  ultimately show ?thesis using g i(2) c(1) by (simp add: mig_inv_def)
qed

subsection \<open>Clients\<close>

lemma client_begins_inv:
  assumes inv: "mig_inv s" and st: "\<not> clients_closed (ctrl s)" "range_ok (serve_size (mserve (ctrl s))) r"
  shows "mig_inv (s\<lparr>pending := r # pending s\<rparr>)"
proof -
  note i = mig_invD [OF inv]
  let ?s = "s\<lparr>pending := r # pending s\<rparr>"
  have "accounted ?s p" if "accounted s p" for p
    by (rule accounted_mono [OF _ _ _ _ _ _ that]) auto
  then have "byte_inv ?s" using i(8) by (simp add: byte_inv_def)
  moreover have "client_inv ?s" using i(6) st by (simp add: client_inv_def)
  ultimately show ?thesis using i(1-5,7) by (simp add: mig_inv_def)
qed

lemma client_stores_inv:
  assumes inv: "mig_inv s" and st: "r \<in> set (pending s)" "same_outside r (file_map (mserve (ctrl s))) m"
  shows "mig_inv (put_store m s)"
proof -
  note i = mig_invD [OF inv]
  have m: "mmap (ctrl (put_store m s)) = mmap (ctrl s)" by (simp add: put_store_def mmap_def)
  have len: "length m = length (file_map (mserve (ctrl s)))" using st(2) by (simp add: same_outside_def)
  have "accounted (put_store m s) p" if a: "accounted s p" for p
  proof (cases "in_range r p")
    case True
    with st(1) show ?thesis by (auto simp: accounted_def put_store_def)
  next
    case False
    then have eq: "m ! p = file_map (mserve (ctrl s)) ! p" using st(2) by (simp add: same_outside_def)
    then have "copied (put_store m s) p = copied s p" by (simp add: copied_def put_store_def Let_def)
    with a eq m show ?thesis by (simp add: accounted_def put_store_def)
  qed
  then have "byte_inv (put_store m s)" using i(8) by (simp add: byte_inv_def put_store_def)
  moreover have "ctrl_ok (ctrl (put_store m s))" using i(1) len m by (simp add: ctrl_ok_def put_store_def)
  moreover have "phase_inv (put_store m s) = phase_inv s" "watch_inv (put_store m s) = watch_inv s"
      "stream_off_inv (put_store m s) = stream_off_inv s" "client_inv (put_store m s) = client_inv s"
      "done_inv (put_store m s) = done_inv s"
    by (simp_all add: phase_inv_def watch_inv_def stream_off_inv_def client_inv_def done_inv_def drained_def xfer_hdr_ok_def
        m Let_def) (simp_all add: put_store_def)
  ultimately show ?thesis using i len by (simp add: mig_inv_def put_store_def)
qed

lemma pending_other:
  assumes "q \<in> set ps" "in_range q p" "\<not> in_range r p"
  shows "\<exists>q\<in>set (remove1 r ps). in_range q p"
proof -
  have "q \<noteq> r" using assms(2,3) by auto
  with assms(1,2) show ?thesis by (intro bexI [of _ q]) (simp_all add: in_set_remove1)
qed

lemma client_marks_inv:
  assumes inv: "mig_inv s" and st: "r \<in> set (pending s)" "bitset_set_range (mmap (ctrl s)) (fst r) (snd r) = Done bs"
  shows "mig_inv (s\<lparr>ctrl := put_mmap bs (ctrl s), pending := remove1 r (pending s)\<rparr>)"
proof -
  note i = mig_invD [OF inv]
  let ?c = "ctrl s" and ?s = "s\<lparr>ctrl := put_mmap bs (ctrl s), pending := remove1 r (pending s)\<rparr>"
  have ro: "range_ok (serve_size (mserve ?c)) r" and cl: "\<not> clients_closed ?c"
    using i(6) st(1) by (auto simp: client_inv_def list_all_iff)
  have wf: "wf_bitset (mmap ?c)" "bs_size (mmap ?c) = serve_size (mserve ?c)" using i(1) by (simp_all add: ctrl_ok_def)
  have size: "bitset_stream_size (mmap ?c) \<le> BITSET_STREAM_SIZE"
    using wf(1) by (simp add: wf_bitset_def stream_inv_def bitset_stream_size_def)
  from bitset_set_range_spec [of "mmap ?c" "snd r" "fst r"] wf ro st(2) size
  have e: "stream_enabled bs = stream_enabled (mmap ?c)"
    "stream_list (stream bs) = queued ?c @ (if stream_enabled (mmap ?c) then
        [\<lparr>event = BITSET_STREAM_SET, entry_from = fst r, entry_len = snd r\<rparr>] else [])"
    by (auto simp: range_effect_def same_shape_def range_ok_def split: if_split_asm)
  have ok: "ctrl_ok (put_mmap bs ?c)"
    using mark_ctrl_ok [OF i(1), of "fst r" "snd r" bs] ro st(2) by (simp add: range_ok_def)
  have off: "copied s p = file_map (mserve ?c) ! p \<or> unat (offset (mirror ?c)) \<le> p" if "\<not> stream_enabled (mmap ?c)" for p
    using i(3,5) that by (auto simp: stream_off_inv_def copied_def phase_inv_def Let_def not_le)
  have cp: "copied ?s p = copied s p" for p by (simp add: copied_def Let_def)
  have "accounted ?s p" if a: "accounted s p" for p
  proof (cases "in_range r p")
    case True
    with e(2) off [of p] cp [of p] show ?thesis
      by (cases "stream_enabled (mmap ?c)") (auto simp: accounted_def covers_def)
  next
    case False
    note other = pending_other [OF _ _ False, of _ "pending s"]
    with a e(2) cp [of p] show ?thesis by (auto simp: accounted_def dest!: other)
  qed
  then have "byte_inv ?s" using i(8) by (simp add: byte_inv_def)
  moreover have "set (remove1 r (pending s)) \<subseteq> set (pending s)" by (rule set_remove1_subset)
  then have "client_inv ?s" using i(6) cl by (auto simp: client_inv_def list_all_iff)
  moreover have "phase_inv ?s = phase_inv s" "watch_inv ?s = watch_inv s" "stream_off_inv ?s = stream_off_inv s"
    using e(1) by (simp_all add: phase_inv_def watch_inv_def stream_off_inv_def xfer_hdr_ok_def Let_def)
  moreover have "done_inv ?s" using i(7) cl by (auto simp: done_inv_def drained_def)
  ultimately show ?thesis using ok i(2-5) by (simp add: mig_inv_def)
qed

lemma client_cut_off_inv:
  assumes inv: "mig_inv s" and st: "r \<in> set (pending s)"
  shows "mig_inv (s\<lparr>pending := remove1 r (pending s), torn := r # torn s\<rparr>)"
proof -
  note i = mig_invD [OF inv]
  let ?s = "s\<lparr>pending := remove1 r (pending s), torn := r # torn s\<rparr>"
  have "accounted ?s p" if a: "accounted s p" for p
  proof (cases "in_range r p")
    case False
    note other = pending_other [OF _ _ False, of _ "pending s"]
    with a show ?thesis by (auto simp: accounted_def dest!: other)
  qed (auto simp: accounted_def)
  then have "byte_inv ?s" using i(8) by (simp add: byte_inv_def)
  moreover have "set (remove1 r (pending s)) \<subseteq> set (pending s)" by (rule set_remove1_subset)
  then have "client_inv ?s" using i(6) st by (auto simp: client_inv_def list_all_iff)
  ultimately show ?thesis using i(1-5,7) by (simp add: mig_inv_def)
qed

subsection \<open>The start of a run\<close>

lemma mig_init_inv:
  assumes init: "mig_init s"
  shows "mig_inv s"
proof -
  from init obtain c now ok where c: "ctrl_ok c" "\<not> stream_enabled (mmap c)" "offset (mirror c) = 0"
      "commit_state (mirror c) = MS_GO" "c = mirror_ctrl_zero (mserve c) (mirror c) (abandon_signal c)"
      "serve_size (mserve c) \<noteq> 0" "mirror_run_begin now ok c = Ret True (ctrl s)"
    and s: "length (remote s) = length (file_map (mserve (ctrl s)))" "wire s = []" "replies s = []" "phase s = Sending"
      "list_all (range_ok (serve_size (mserve (ctrl s)))) (pending s)" "torn s = []"
    unfolding mig_init_def by blast
  define c1 where "c1 = c\<lparr>mirror := (mirror c)\<lparr>migration_started := now\<rparr>, abandon_watcher := True\<rparr>"
  have c1: "\<not> write_watcher c1" "\<not> limit_watcher c1" "\<not> begin_watcher c1" "\<not> loop_broken c1" "joining c1 = None"
      "\<not> clients_closed c1" "mserve c1 = mserve c" "offset (mirror c1) = 0" "commit_state (mirror c1) = MS_GO" "mmap c1 = mmap c"
    using c(3,4) by (simp_all add: c1_def, (subst c(5), simp add: mirror_ctrl_zero_def)+)
  obtain nx c2 where su: "mirror_setup_next_xfer c1 = (nx, c2)" by fastforce
  have ok1: "ctrl_ok c1" using c(1,3) c1 by (subst ctrl_ok_cong [of _ c]) simp_all
  note st = setup_step [OF ok1 su] and ok2 = setup_ctrl_ok [OF ok1 su, THEN conjunct1]
  let ?c3 = "c2\<lparr>write_watcher := True, timeout_watcher := True\<rparr>"
  have run: "mirror_run_begin now ok c =
     (if \<not> nx then Error c2
      else if allocation_map_built (mserve c2) then and_then (enable_stream ?c3) (\<lambda>_. Ret True)
      else Ret True (c2\<lparr>begin_watcher := True\<rparr>))"
    using c(6) su by (simp add: mirror_run_begin_def c1_def Let_def)
  with c(7) have nx: "nx" by (auto split: if_split_asm)
  have fx: "fresh_xfer c2" using st(2) nx by simp
  have fr: "ctrl_frame c1 c2" by (rule st(1))
  have off: "in_range (xfer_range c2) p" if "p < unat (offset (mirror c2))" for p
    using st(5) [of p] nx c1(8) that by simp
  have ok3: "ctrl_ok ?c3" using ok2 by (subst ctrl_ok_cong [of _ c2]) simp_all
  have same: "mirror (ctrl s) = mirror c2 \<and> xfer (ctrl s) = xfer c2 \<and> file_map (mserve (ctrl s)) = file_map (mserve c2)
    \<and> serve_size (mserve (ctrl s)) = serve_size (mserve c2) \<and> clients_closed (ctrl s) = clients_closed c2
    \<and> joining (ctrl s) = joining c2 \<and> loop_broken (ctrl s) = loop_broken c2 \<and> limit_watcher (ctrl s) = limit_watcher c2
    \<and> ctrl_ok (ctrl s)
    \<and> (write_watcher (ctrl s) \<longrightarrow> stream_enabled (mmap (ctrl s)) \<and> \<not> begin_watcher (ctrl s))"
  proof (cases "allocation_map_built (mserve c2)")
    case True
    have "and_then (enable_stream ?c3) (\<lambda>_. Ret True) = Ret True (ctrl s)" using run c(7) nx True by simp
    then obtain u where en: "enable_stream ?c3 = Ret u (ctrl s)" by auto
    from enable_stream_ok [OF ok3 en] fr c1 show ?thesis by (auto simp: ctrl_frame_def)
  next
    case False
    with run c(7) nx have e: "ctrl s = c2\<lparr>begin_watcher := True\<rparr>" by simp
    have "ctrl_ok (ctrl s)" using ok2 e by (subst ctrl_ok_cong [of _ c2]) simp_all
    with e fr c1 show ?thesis by (simp add: ctrl_frame_def)
  qed
  have w0: "xfer_written (xfer c2) = 0" "0 < NBD_REQUEST_SIZE" using fx by (simp_all add: fresh_xfer_def NBD_REQUEST_SIZE_def)
  have flags: "joining c2 = None" "\<not> loop_broken c2" "\<not> limit_watcher c2" "\<not> clients_closed c2" "commit_state (mirror c2) = MS_GO"
    using fr c1 by (simp_all add: ctrl_frame_def)
  have "phase_inv s"
    using fx same s by (simp add: phase_inv_def fresh_xfer_def xfer_hdr_ok_def Let_def)
  moreover have "watch_inv s" using same w0 flags s(4) by (simp add: watch_inv_def Let_def)
  moreover have "stream_off_inv s" using same w0 flags off s(4) by (auto simp: stream_off_inv_def)
  moreover have "client_inv s" using same flags s(5) by (simp add: client_inv_def)
  moreover have "done_inv s" using same flags s(4) by (simp add: done_inv_def)
  moreover have "accounted s p" for p
    using same off [of p] s(2,4) by (cases "p < unat (offset (mirror c2))") (simp_all add: accounted_def copied_def)
  then have "byte_inv s" by (simp add: byte_inv_def)
  ultimately show ?thesis using same s(1) by (simp add: mig_inv_def)
qed

lemma mig_step_inv:
  assumes "mig_inv s" "mig_step s s'"
  shows "mig_inv s'"
  using assms(2)
proof cases
  case (writes r bs c)
  with assms(1) show ?thesis by (auto intro: writes_inv)
next
  case (listener_stores m)
  with assms(1) show ?thesis by (auto intro: listener_stores_inv)
next
  case (listener_done m reply)
  with assms(1) show ?thesis by (auto intro: listener_done_inv)
next
  case (listener_refuses e h)
  with assms(1) show ?thesis by (auto intro: listener_refuses_inv)
next
  case (read_fails r e b c)
  with assms(1) show ?thesis by (auto intro: read_fails_inv)
next
  case (read_part bs rest c)
  with assms(1) show ?thesis by (auto intro: read_part_inv)
next
  case (read_done bs rest c now c' next_xfer closing)
  with assms(1) show ?thesis by (auto intro: read_done_inv)
next
  case (joined nx closing now ok next_xfer c)
  with assms(1) show ?thesis by (auto intro: joined_inv)
next
  case timeout
  with assms(1) show ?thesis by (auto intro: timeout_inv)
next
  case abandon
  with assms(1) show ?thesis by (auto intro: abandon_inv)
next
  case (limit now)
  with assms(1) show ?thesis by (auto intro: limit_inv)
next
  case (begins c)
  with assms(1) show ?thesis by (auto intro: begins_inv)
next
  case (client_begins r)
  with assms(1) show ?thesis by (auto intro: client_begins_inv)
next
  case (client_stores r m)
  with assms(1) show ?thesis by (auto intro: client_stores_inv)
next
  case (client_marks r bs)
  with assms(1) show ?thesis by (auto intro: client_marks_inv)
next
  case (client_cut_off r)
  with assms(1) show ?thesis by (auto intro: client_cut_off_inv)
qed

interpretation mig: step_invariant mig_init mig_step mig_inv
  by unfold_locales (auto intro: mig_init_inv mig_step_inv)

lemma done_copied:
  assumes "mig_inv s" "commit_state (mirror (ctrl s)) = MS_DONE" "p < unat (serve_size (mserve (ctrl s)))"
    "\<forall>r\<in>set (torn s). \<not> in_range r p"
  shows "remote s ! p = file_map (mserve (ctrl s)) ! p"
proof -
  note i = mig_invD [OF assms(1)]
  have d: "phase s = Idle" "drained (ctrl s)" using i(7) assms(2) by (auto simp: done_inv_def)
  then have "pending s = []" using i(6) by (simp add: client_inv_def drained_def)
  moreover have "accounted s p" using i(8) d(1) assms(3) by (simp add: byte_inv_def)
  ultimately show ?thesis
    using d assms(3,4) by (auto simp: accounted_def copied_def drained_def)
qed

subsection \<open>Properties\<close>


definition mig_srv :: server where
  "mig_srv = ex_server\<lparr>file_map := [1, 2, 3, 4], serve_size := 4, allocation_map := bitset_alloc 0 4 4096\<rparr>"

definition mig_zero :: mirror_ctrl where
  "mig_zero = mirror_ctrl_zero mig_srv (mirror_set_state_f (mirror_create 1000000 ACTION_EXIT) MS_GO) False"

definition mig_map :: bitset where
  "mig_map = (bitset_alloc 0 4 4096)\<lparr>stream_enabled := True,
     stream := zero_stream\<lparr>entries := (entries zero_stream)(0 := \<lparr>event = BITSET_STREAM_ON, entry_from = 0, entry_len = 4\<rparr>),
       queued_bytes := (queued_bytes zero_stream)(BITSET_STREAM_ON := 4), s_size := 1, s_in := 1\<rparr>\<rparr>"

definition mig_c0 :: mirror_ctrl where
  "mig_c0 = mig_zero\<lparr>mserve := mig_srv\<lparr>allocation_map := mig_map\<rparr>,
     mirror := (mirror mig_zero)\<lparr>migration_started := 0, offset := 4\<rparr>, abandon_watcher := True, xfer := new_xfer 0 4,
     write_watcher := True, timeout_watcher := True\<rparr>"

lemmas mig_ex = mig_srv_def mig_zero_def mig_map_def ex_server_def mirror_ctrl_zero_def mirror_create_def mirror_alloc_def
  mirror_init_def mirror_reset_def mirror_set_state_f_def

lemma mig_begin: "mirror_run_begin 0 calls_work mig_zero = Ret True mig_c0"
  by (simp add: mirror_run_begin_def mig_c0_def mig_ex mirror_setup_next_xfer_def dequeue_events.simps mmap_def bitset_alloc_def
      zero_stream_def bitset_stream_size_def zero_entry_def mirror_longest_write_def start_xfer_def new_xfer_def Let_def
      enable_stream_def bitset_enable_stream_def bitset_stream_enqueue_def stream_put_def BITSET_STREAM_SIZE_def put_mmap_def)

lemma mig_zero_ok: "ctrl_ok mig_zero"
proof -
  have "wf_bitset (bitset_alloc 0 4 4096)" by (rule bitset_alloc_wf; simp)
  moreover have "queued mig_zero = []" by (simp add: mmap_def mig_ex bitset_alloc_def)
  ultimately show ?thesis by (simp add: ctrl_ok_def) (simp add: mig_ex mmap_def bitset_alloc_def)
qed

definition mig_s0 :: mig where
  "mig_s0 = \<lparr>ctrl = mig_c0, wire = [], replies = [], remote = [0, 0, 0, 0], pending = [], torn = [], phase = Sending\<rparr>"

lemma mig_s0_init: "mig_init mig_s0"
proof -
  have "mig_zero = mirror_ctrl_zero (mserve mig_zero) (mirror mig_zero) (abandon_signal mig_zero)"
    "\<not> stream_enabled (mmap mig_zero)" "offset (mirror mig_zero) = 0" "commit_state (mirror mig_zero) = MS_GO"
    "serve_size (mserve mig_zero) \<noteq> 0" by (simp_all add: mig_ex mmap_def bitset_alloc_def)
  with mig_zero_ok mig_begin show ?thesis
    unfolding mig_init_def mig_s0_def
    by (intro conjI exI [of _ mig_zero] exI [of _ 0] exI [of _ calls_work]) (simp_all, simp_all add: mig_c0_def mig_srv_def)
qed

abbreviation "mig_hdr \<equiv> request_raw_bytes (nbd_h2r_request (mirror_request 0 4))"
abbreviation "mig_c2 \<equiv> mirror_wrote 4 (mirror_wrote 28 mig_c0)"
abbreviation "mig_c3 \<equiv> after_read (reply_bytes mirror_handle 0) mig_c2"

lemma mig_c0_sel [simp]:
  "xfer mig_c0 = new_xfer 0 4" "joining mig_c0 = None" "\<not> loop_broken mig_c0" "write_watcher mig_c0"
  "file_map (mserve mig_c0) = [1, 2, 3, 4]" "serve_size (mserve mig_c0) = 4" "mapped (mirror mig_c0)" "mmap mig_c0 = mig_map"
  "offset (mirror mig_c0) = 4" "\<not> clients_closed mig_c0" "\<not> clear_events mig_c0"
  by (simp_all add: mig_c0_def mig_ex mmap_def)

lemma mig_write1: "mirror_write_cb (Accept 28) mig_c0 = Ret mig_hdr (mirror_wrote 28 mig_c0)"
  by (simp add: mirror_write_cb_def mirror_to_write_def mirror_data_loc_def mem_slice_def new_xfer_def NBD_REQUEST_SIZE_def)

lemma mig_write2: "mirror_write_cb (Accept 4) (mirror_wrote 28 mig_c0) = Ret [1, 2, 3, 4] mig_c2"
  by (simp add: mirror_write_cb_def mirror_to_write_def mirror_data_loc_def mem_slice_def new_xfer_def NBD_REQUEST_SIZE_def)

lemma mig_apply:
  "listener_apply (mig_hdr @ [1, 2, 3, 4]) [0, 0, 0, 0] = Some ([1, 2, 3, 4], reply_bytes mirror_handle 0)"
  by (simp add: listener_apply_def Let_def mem_write.simps)

lemma mig_read: "mirror_read_reply (Inr (reply_bytes mirror_handle 0)) mig_c2 = (True, mig_c3)"
proof -
  have len: "length (reply_bytes mirror_handle 0) = NBD_REPLY_SIZE" "xfer_read (xfer mig_c2) = 0"
      "length (hdr (xfer mig_c2)) = NBD_REQUEST_SIZE" by (simp_all add: reply_bytes_def new_xfer_def)
  have ne: "reply_bytes mirror_handle 0 \<noteq> []" using len(1) by (force simp: NBD_REPLY_SIZE_def)
  have "take NBD_REPLY_SIZE (hdr (xfer mig_c3)) = reply_bytes mirror_handle 0"
    using after_read_hdr(1) [of mig_c2 "reply_bytes mirror_handle 0"] len by (simp add: NBD_REPLY_SIZE_def NBD_REQUEST_SIZE_def)
  then have "reply_raw_of (hdr (xfer mig_c3)) = nbd_h2r_reply \<lparr>rp_magic = REPLY_MAGIC, rp_error = 0, rp_handle = mirror_handle\<rparr>"
    by (intro reply_raw_of_prefix) (simp add: reply_bytes_def)
  then show ?thesis
    using ne len by (simp add: mirror_read_reply_def Let_def after_read_def)
qed

lemma setup_empty:
  assumes "bitset_stream_size (mmap c) = 0" "offset (mirror c) = serve_size (mserve c)"
  shows "mirror_setup_next_xfer c = (False, c)"
  using assms by (simp add: mirror_setup_next_xfer_def dequeue_events.simps zero_entry_def Let_def)

lemma mig_dequeue:
  assumes "mmap c = mig_map" "offset (mirror c) = 4" "serve_size (mserve c) = 4" "\<not> clear_events c"
  shows "\<exists>bs. mirror_setup_next_xfer c = (False, put_mmap bs c) \<and> bitset_stream_size bs = 0"
proof -
  obtain bs where bs: "bitset_stream_dequeue mig_map = Some (\<lparr>event = BITSET_STREAM_ON, entry_from = 0, entry_len = 4\<rparr>, bs)"
      "bitset_stream_size bs = 0"
    by (simp add: bitset_stream_dequeue_def stream_take_def mig_map_def zero_stream_def bitset_stream_size_def Let_def)
  have sz: "bitset_stream_size mig_map = 1" by (simp add: mig_map_def bitset_stream_size_def)
  have f: "(put_mmap bs c)\<lparr>clear_events := False\<rparr> = put_mmap bs c" using assms(4) by (simp add: put_mmap_def)
  have "dequeue_events c zero_entry = dequeue_events (put_mmap bs c) \<lparr>event = BITSET_STREAM_ON, entry_from = 0, entry_len = 4\<rparr>"
    using assms bs sz by (subst dequeue_events.simps) (simp add: zero_entry_def BITSET_STREAM_SIZE_def Let_def f)
  also have "\<dots> = (\<lparr>event = BITSET_STREAM_ON, entry_from = 0, entry_len = 4\<rparr>, put_mmap bs c)"
    using bs(2) by (subst dequeue_events.simps) simp
  finally show ?thesis
    using assms bs(2) by (intro exI [of _ bs]) (simp add: mirror_setup_next_xfer_def Let_def)
qed

lemma mig_xfer_done:
  "\<exists>c4. mirror_xfer_done 0 mig_c3 = c4 \<and> joining c4 = Some (False, True) \<and> bitset_stream_size (mmap c4) = 0
     \<and> offset (mirror c4) = serve_size (mserve c4) \<and> \<not> loop_broken c4 \<and> action_at_finish (mirror c4) = ACTION_EXIT
     \<and> file_map (mserve c4) = [1, 2, 3, 4] \<and> \<not> clients_closed c4 \<and> serve_size (mserve c4) = 4"
proof -
  let ?x = "mig_c3\<lparr>xfer := (xfer mig_c3)\<lparr>xfer_read := 0, xfer_written := 0\<rparr>\<rparr>"
  let ?c = "?x\<lparr>mirror := (mirror ?x)\<lparr>all_dirty := all_dirty (mirror ?x) + xfer_len (xfer ?x)\<rparr>, timeout_watcher := False\<rparr>"
  have cl: "\<not> clear_events mig_c3" "action_at_finish (mirror mig_c0) = ACTION_EXIT"
    by (simp_all add: after_read_def mirror_wrote_def Let_def) (simp add: mig_c0_def mig_ex)
  with mig_dequeue [of ?c] obtain bs where "mirror_setup_next_xfer ?c = (False, put_mmap bs ?c)" "bitset_stream_size bs = 0" by auto
  with cl show ?thesis by (simp add: mirror_xfer_done_def Let_def mmap_def put_mmap_def)
qed

lemma mig_joined:
  assumes "joining c = Some (False, True)" "bitset_stream_size (mmap c) = 0" "offset (mirror c) = serve_size (mserve c)"
    "action_at_finish (mirror c) = ACTION_EXIT"
  shows "\<exists>c'. mirror_joined 0 calls_work c = Ret False c' \<and> commit_state (mirror c') = MS_DONE \<and> file_map (mserve c') = file_map (mserve c)"
proof -
  have "mirror_setup_next_xfer (c\<lparr>clients_closed := True\<rparr>) = (False, c\<lparr>clients_closed := True\<rparr>)"
    using assms(2,3) by (intro setup_empty) simp_all
  with assms(1,4) show ?thesis
    by (simp add: mirror_joined_def mirror_close_done_def mirror_proceed_def mirror_complete_def mirror_should_quit_def
        mirror_on_exit_def calls_work_def set_state_def mirror_set_state_f_def Let_def)
qed

abbreviation mig_idle :: "mirror_ctrl \<Rightarrow> mig" where
  "mig_idle c \<equiv> \<lparr>ctrl = c, wire = [], replies = [], remote = [1, 2, 3, 4], pending = [], torn = [], phase = Idle\<rparr>"

lemma mig_reaches_idle:
  "\<exists>c. mig_step\<^sup>*\<^sup>* mig_s0 (mig_idle c) \<and> joining c = Some (False, True) \<and> bitset_stream_size (mmap c) = 0
     \<and> offset (mirror c) = serve_size (mserve c) \<and> \<not> loop_broken c \<and> action_at_finish (mirror c) = ACTION_EXIT
     \<and> file_map (mserve c) = [1, 2, 3, 4] \<and> \<not> clients_closed c \<and> serve_size (mserve c) = 4"
proof -
  let ?s1 = "mig_s0\<lparr>ctrl := mirror_wrote 28 mig_c0, wire := wire mig_s0 @ mig_hdr\<rparr>"
  let ?s2 = "?s1\<lparr>ctrl := mig_c2, wire := wire ?s1 @ [1, 2, 3, 4]\<rparr>"
  let ?s3 = "?s2\<lparr>remote := [1, 2, 3, 4], replies := reply_bytes mirror_handle 0, phase := Applied\<rparr>"
  from mig_xfer_done obtain c4 where c4: "mirror_xfer_done 0 mig_c3 = c4" "joining c4 = Some (False, True)"
    "bitset_stream_size (mmap c4) = 0" "offset (mirror c4) = serve_size (mserve c4)" "\<not> loop_broken c4"
    "action_at_finish (mirror c4) = ACTION_EXIT" "file_map (mserve c4) = [1, 2, 3, 4]" "\<not> clients_closed c4"
    "serve_size (mserve c4) = 4" by blast
  have w: "write_watcher (mirror_wrote 28 mig_c0)" "read_watcher mig_c2" "xfer_read (xfer mig_c2) = 0"
    by (simp_all add: mirror_wrote_def new_xfer_def NBD_REQUEST_SIZE_def Let_def)
  have len: "length (reply_bytes mirror_handle 0) = NBD_REPLY_SIZE" by (simp add: reply_bytes_def)
  have ne: "reply_bytes mirror_handle 0 \<noteq> []" using len by (force simp: NBD_REPLY_SIZE_def)
  have "mig_step mig_s0 ?s1" by (rule writes [of _ "Accept 28"]) (simp_all add: mig_s0_def mig_write1)
  moreover have "mig_step ?s1 ?s2" by (rule writes [of _ "Accept 4"]) (simp_all add: w mig_write2)
  moreover have "mig_step ?s2 ?s3" by (rule listener_done) (simp_all add: mig_s0_def mig_apply)
  moreover have "mig_step ?s3 (next_phase False (?s3\<lparr>replies := [], ctrl := c4\<rparr>))"
    by (rule read_done [of _ "reply_bytes mirror_handle 0" "[]" mig_c3 0]) (simp_all add: w len ne mig_read c4 new_xfer_def)
  ultimately have "mig_step\<^sup>*\<^sup>* mig_s0 (next_phase False (?s3\<lparr>replies := [], ctrl := c4\<rparr>))"
    by (meson rtranclp.rtrancl_into_rtrancl rtranclp.rtrancl_refl)
  moreover have "next_phase False (?s3\<lparr>replies := [], ctrl := c4\<rparr>) = mig_idle c4" by (simp add: next_phase_def mig_s0_def)
  ultimately show ?thesis using c4 by auto
qed



end
