(* ===== verification/Prefetch.thy ===== *)
theory Prefetch
  imports Ioutil
begin

text \<open>
  The read-ahead cache of the proxy, \<^verbatim>\<open>src/src/proxy/prefetch.c\<close>.  A \<open>prefetch\<close> holds the bytes that
  followed the last read; \<^verbatim>\<open>NULL\<close> is \<open>None\<close>.  The lemmas say when the containment test, which is
  done in 64-bit arithmetic, means containment.
\<close>

record prefetch =
  is_full :: bool
  pf_from :: u64
  pf_len :: u32
  pf_size :: nat
  pf_buffer :: "byte list"

definition prefetch_create :: "nat \<Rightarrow> prefetch" where
  "prefetch_create size_bytes =
     \<lparr>is_full = False, pf_from = 0, pf_len = 0, pf_size = size_bytes, pf_buffer = replicate size_bytes 0\<rparr>"

definition prefetch_size :: "prefetch option \<Rightarrow> nat" where
  "prefetch_size p = (case p of None \<Rightarrow> 0 | Some pf \<Rightarrow> pf_size pf)"

definition prefetch_set_full :: "bool \<Rightarrow> prefetch option \<Rightarrow> prefetch option" where
  "prefetch_set_full val p = (case p of None \<Rightarrow> None | Some pf \<Rightarrow> Some (pf\<lparr>is_full := val\<rparr>))"

definition prefetch_set_is_empty :: "prefetch option \<Rightarrow> prefetch option" where
  "prefetch_set_is_empty p = prefetch_set_full False p"

definition prefetch_set_is_full :: "prefetch option \<Rightarrow> prefetch option" where
  "prefetch_set_is_full p = prefetch_set_full True p"

definition prefetch_is_full :: "prefetch option \<Rightarrow> bool" where
  "prefetch_is_full p = (case p of None \<Rightarrow> False | Some pf \<Rightarrow> is_full pf)"

definition prefetch_contains :: "prefetch \<Rightarrow> u64 \<Rightarrow> u32 \<Rightarrow> bool" where
  "prefetch_contains pf from len \<longleftrightarrow>
     from \<ge> pf_from pf \<and> from + ucast len \<le> pf_from pf + ucast (pf_len pf)"

definition prefetch_offset :: "prefetch \<Rightarrow> u64 \<Rightarrow> nat" where
  "prefetch_offset pf from = unat (from - pf_from pf)"

lemma prefetch_contains_iff:
  assumes "unat from + unat len < 2 ^ 64" "unat (pf_from pf) + unat (pf_len pf) < 2 ^ 64"
  shows "prefetch_contains pf from len \<longleftrightarrow>
     unat (pf_from pf) \<le> unat from \<and> unat from + unat len \<le> unat (pf_from pf) + unat (pf_len pf)"
proof -
  have "unat (from + ucast len) = unat from + unat len" using assms(1) by (subst unat_add_u64) simp_all
  moreover have "unat (pf_from pf + ucast (pf_len pf)) = unat (pf_from pf) + unat (pf_len pf)"
    using assms(2) by (subst unat_add_u64) simp_all
  ultimately show ?thesis by (simp add: prefetch_contains_def word_le_nat_alt)
qed

lemma prefetch_offset_nat:
  "unat (pf_from pf) \<le> unat from \<Longrightarrow> prefetch_offset pf from = unat from - unat (pf_from pf)"
  by (simp add: prefetch_offset_def unat_sub_u64 word_le_nat_alt)

end
