(* ===== verification/Parse_Acl.thy ===== *)
theory Parse_Acl
  imports Nbdtypes
begin

text \<open>
  Addresses and access control lists: \<^verbatim>\<open>src/src/common/parse.c\<close> and \<^verbatim>\<open>src/src/server/acl.c\<close>.  C
  strings are lists of non-NUL bytes, addresses are the bytes in network order.  The C library's
  \<^verbatim>\<open>inet_pton\<close> and \<^verbatim>\<open>atoi\<close> are modelled after their documentation.  The matching loop of
  \<^verbatim>\<open>is_included_in_acl\<close> is proved equal to comparing the leading \<open>mask\<close> bits, and every list that
  \<open>parse_acl\<close> builds is proved safe for it.
\<close>

datatype sockaddr = AF_INET "byte list" | AF_INET6 "byte list" | AF_UNIX "byte list"

record ip_and_mask =
  ip_addr :: sockaddr
  ip_mask :: int

record acl =
  acl_entries :: "ip_and_mask list"
  acl_deny :: bool

subsection \<open>C library\<close>

definition is_digit :: "byte \<Rightarrow> bool" where
  "is_digit c \<longleftrightarrow> 48 \<le> c \<and> c \<le> 57"

definition is_space :: "byte \<Rightarrow> bool" where
  "is_space c \<longleftrightarrow> c = 32 \<or> 9 \<le> c \<and> c \<le> 13"

fun dec_value :: "int \<Rightarrow> byte list \<Rightarrow> int" where
  "dec_value acc [] = acc"
| "dec_value acc (c # cs) = dec_value (10 * acc + (uint c - 48)) cs"

definition strtol :: "byte list \<Rightarrow> int" where
  "strtol s =
     (let t = dropWhile is_space s;
          neg = (t \<noteq> [] \<and> hd t = 45);
          u = (if t \<noteq> [] \<and> (hd t = 45 \<or> hd t = 43) then tl t else t);
          v = dec_value 0 (takeWhile is_digit u);
          w = (if neg then - v else v)
      in max (- (2 ^ 63)) (min (2 ^ 63 - 1) w))"

definition atoi :: "byte list \<Rightarrow> int" where
  "atoi s = sint (word_of_int (strtol s) :: i32)"

fun split_at :: "byte \<Rightarrow> byte list \<Rightarrow> byte list list" where
  "split_at sep [] = [[]]"
| "split_at sep (c # cs) =
     (if c = sep then [] # split_at sep cs
      else (case split_at sep cs of [] \<Rightarrow> [[c]] | g # gs \<Rightarrow> (c # g) # gs))"

definition octet :: "byte list \<Rightarrow> byte option" where
  "octet s =
     (if s \<noteq> [] \<and> length s \<le> 3 \<and> list_all is_digit s \<and> (length s = 1 \<or> hd s \<noteq> 48) \<and> dec_value 0 s \<le> 255
      then Some (word_of_int (dec_value 0 s)) else None)"

fun all_some :: "'a option list \<Rightarrow> 'a list option" where
  "all_some [] = Some []"
| "all_some (None # xs) = None"
| "all_some (Some x # xs) = map_option ((#) x) (all_some xs)"

definition inet_pton4 :: "byte list \<Rightarrow> byte list option" where
  "inet_pton4 s =
     (let parts = split_at 46 s in if length parts = 4 then all_some (map octet parts) else None)"

definition hex_digit :: "byte \<Rightarrow> int option" where
  "hex_digit c =
     (if is_digit c then Some (uint c - 48)
      else if 97 \<le> c \<and> c \<le> 102 then Some (uint c - 87)
      else if 65 \<le> c \<and> c \<le> 70 then Some (uint c - 55) else None)"

definition hextet :: "byte list \<Rightarrow> byte list option" where
  "hextet s =
     (if s = [] \<or> 4 < length s then None
      else case all_some (map hex_digit s) of
             None \<Rightarrow> None
           | Some ds \<Rightarrow> let v = fold (\<lambda>d acc. 16 * acc + d) ds 0
                       in Some [word_of_int (v div 256), word_of_int (v mod 256)])"

fun groups6 :: "bool \<Rightarrow> byte list list \<Rightarrow> byte list option" where
  "groups6 v4_last [] = Some []"
| "groups6 v4_last [g] = (if v4_last \<and> 46 \<in> set g then inet_pton4 g else hextet g)"
| "groups6 v4_last (g # gs) =
     (case (hextet g, groups6 v4_last gs) of (Some a, Some b) \<Rightarrow> Some (a @ b) | _ \<Rightarrow> None)"

fun split_double_colon :: "byte list \<Rightarrow> (byte list \<times> byte list) option" where
  "split_double_colon (a # b # cs) =
     (if a = 58 \<and> b = 58 then Some ([], cs)
      else map_option (\<lambda>(l, r). (a # l, r)) (split_double_colon (b # cs)))"
| "split_double_colon _ = None"

definition side6 :: "bool \<Rightarrow> byte list \<Rightarrow> byte list option" where
  "side6 v4_last s = (if s = [] then Some [] else groups6 v4_last (split_at 58 s))"

definition inet_pton6 :: "byte list \<Rightarrow> byte list option" where
  "inet_pton6 s =
     (case split_double_colon s of
        None \<Rightarrow> (case side6 True s of
                   Some a \<Rightarrow> if length a = 16 then Some a else None
                 | None \<Rightarrow> None)
      | Some (l, r) \<Rightarrow>
          (case (side6 False l, side6 True r) of
             (Some a, Some b) \<Rightarrow>
               if length a + length b < 16 then Some (a @ replicate (16 - length a - length b) 0 @ b) else None
           | _ \<Rightarrow> None))"

subsection \<open>parse.c\<close>

definition IS_IP_VALID_CHAR :: "byte \<Rightarrow> bool" where
  "IS_IP_VALID_CHAR x \<longleftrightarrow>
     48 \<le> x \<and> x \<le> 57 \<or> 97 \<le> x \<and> x \<le> 102 \<or> 65 \<le> x \<and> x \<le> 70 \<or> x = 58 \<or> x = 46"

definition parse_ip_to_sockaddr :: "byte list \<Rightarrow> sockaddr option cresult" where
  "parse_ip_to_sockaddr src =
     (let i = (if src \<noteq> [] \<and> hd src = 91 then 1 else 0);
          temp = takeWhile IS_IP_VALID_CHAR (take (64 - i) (drop i src))
      in if length temp = 64 then OutOfBounds
         else if temp = [48] then Done (Some (AF_INET [0, 0, 0, 0]))
         else case inet_pton4 temp of
                Some a \<Rightarrow> Done (Some (AF_INET a))
              | None \<Rightarrow> (case inet_pton6 temp of
                           Some a \<Rightarrow> Done (Some (AF_INET6 a))
                         | None \<Rightarrow> Done None))"

definition parse_to_sockaddr :: "byte list \<Rightarrow> sockaddr option cresult" where
  "parse_to_sockaddr address =
     (if address \<noteq> [] \<and> hd address = 47 then Done (Some (AF_UNIX (take 108 address)))
      else parse_ip_to_sockaddr address)"

definition MAX_MASK_BITS :: "sockaddr \<Rightarrow> int" where
  "MAX_MASK_BITS a = (case a of AF_INET _ \<Rightarrow> 32 | _ \<Rightarrow> 128)"

definition parse_acl_entry :: "byte list \<Rightarrow> ip_and_mask option cresult" where
  "parse_acl_entry entry =
     (case parse_ip_to_sockaddr entry of
        Done (Some a) \<Rightarrow>
          (let rest = dropWhile (\<lambda>c. c \<noteq> 47) entry in
           if rest \<noteq> [] then
             (let m = atoi (tl rest) in
              if m < 1 \<or> m > MAX_MASK_BITS a then Done None else Done (Some \<lparr>ip_addr = a, ip_mask = m\<rparr>))
           else Done (Some \<lparr>ip_addr = a, ip_mask = MAX_MASK_BITS a\<rparr>))
      | Done None \<Rightarrow> Done None
      | Blocked _ \<Rightarrow> OutOfBounds
      | OutOfBounds \<Rightarrow> OutOfBounds)"

fun parse_acl :: "byte list list \<Rightarrow> (nat \<times> ip_and_mask list) cresult" where
  "parse_acl [] = Done (0, [])"
| "parse_acl (entry # rest) =
     (case parse_acl_entry entry of
        Done (Some e) \<Rightarrow>
          (case parse_acl rest of
             Done (n, es) \<Rightarrow> Done (Suc n, e # es)
           | r \<Rightarrow> r)
      | Done None \<Rightarrow> Done (0, [])
      | _ \<Rightarrow> OutOfBounds)"

definition parse_port :: "byte list \<Rightarrow> (unit, u16) outcome" where
  "parse_port s_port =
     (let raw_port = atoi s_port in
      if raw_port < 0 \<or> raw_port > 65535 then Fatal () else Ret (htobe16 (word_of_int raw_port)) ())"

subsection \<open>acl.c\<close>

definition acl_create :: "byte list list \<Rightarrow> bool \<Rightarrow> acl cresult" where
  "acl_create lines deny =
     (case parse_acl lines of
        Done (n, es) \<Rightarrow> Done \<lparr>acl_entries = es, acl_deny = deny\<rparr>
      | _ \<Rightarrow> OutOfBounds)"

definition testmasks :: "byte list" where
  "testmasks = [0, 128, 192, 224, 240, 248, 252, 254, 255]"

function match_bits :: "int \<Rightarrow> byte list \<Rightarrow> byte list \<Rightarrow> bool cresult" where
  "match_bits testbits raw_address1 raw_address2 =
     (if testbits > 0 then
        (case (raw_address1, raw_address2) of
           (a # as, b # bs) \<Rightarrow>
             if testbits \<ge> 8 then
               (if a \<noteq> b then Done False else match_bits (testbits - 8) as bs)
             else
               (if a AND testmasks ! nat (testbits mod 8) \<noteq> b AND testmasks ! nat (testbits mod 8)
                then Done False else match_bits (testbits - 8) as bs)
         | _ \<Rightarrow> OutOfBounds)
      else Done True)"
  by pat_completeness auto
termination by (relation "measure (\<lambda>(n, a, b). nat n)") auto

declare match_bits.simps [simp del]

fun is_included_in_acl :: "ip_and_mask list \<Rightarrow> sockaddr \<Rightarrow> (unit, bool) outcome" where
  "is_included_in_acl [] test = Ret False ()"
| "is_included_in_acl (entry # list) test =
     (case (test, ip_addr entry) of
        (AF_INET a, AF_INET b) \<Rightarrow>
          (case match_bits (ip_mask entry) a b of
             Done m \<Rightarrow> if m then Ret True () else is_included_in_acl list test
           | _ \<Rightarrow> Fault)
      | (AF_INET6 a, AF_INET6 b) \<Rightarrow>
          (case match_bits (ip_mask entry) a b of
             Done m \<Rightarrow> if m then Ret True () else is_included_in_acl list test
           | _ \<Rightarrow> Fault)
      | (AF_UNIX a, AF_UNIX b) \<Rightarrow> Fatal ()
      | _ \<Rightarrow> is_included_in_acl list test)"

definition acl_includes :: "acl \<Rightarrow> sockaddr \<Rightarrow> (unit, bool) outcome" where
  "acl_includes l addr =
     (if length (acl_entries l) = 0 then Ret (\<not> acl_deny l) () else is_included_in_acl (acl_entries l) addr)"

definition acl_default_deny :: "acl \<Rightarrow> bool" where
  "acl_default_deny l = acl_deny l"

subsection \<open>Matching compares leading bits\<close>

definition addr_bit :: "byte list \<Rightarrow> nat \<Rightarrow> bool" where
  "addr_bit a k \<longleftrightarrow> bit (a ! (k div 8)) (7 - k mod 8)"

definition same_prefix :: "nat \<Rightarrow> byte list \<Rightarrow> byte list \<Rightarrow> bool" where
  "same_prefix n a b \<longleftrightarrow> (\<forall>k < n. addr_bit a k = addr_bit b k)"

lemma byte_eq_iff: "(x :: byte) = y \<longleftrightarrow> (\<forall>k < 8. bit x (7 - k) = bit y (7 - k))"
proof
  assume eq: "\<forall>k < 8. bit x (7 - k) = bit y (7 - k)"
  show "x = y"
  proof (rule bit_word_eqI)
    fix i assume "i < LENGTH(8)"
    then show "bit x i = bit y i" using eq [rule_format, of "7 - i"] by simp
  qed
qed simp

lemma testmasks_bit:
  assumes "0 < n" "n < 8" "i < 8"
  shows "bit (testmasks ! n) i \<longleftrightarrow> 8 - n \<le> i"
proof -
  have "n \<in> {1, 2, 3, 4, 5, 6, 7}" "i \<in> {0, 1, 2, 3, 4, 5, 6, 7}" using assms by auto
  then show ?thesis by (auto simp: testmasks_def)
qed

lemma testmask_eq_iff:
  assumes "0 < n" "n < 8"
  shows "x AND testmasks ! n = y AND testmasks ! n \<longleftrightarrow> (\<forall>k < n. bit x (7 - k) = bit y (7 - k))"
    (is "?l \<longleftrightarrow> ?r")
proof
  assume l: ?l
  show ?r
  proof (intro allI impI)
    fix k assume k: "k < n"
    from l have "bit (x AND testmasks ! n) (7 - k) = bit (y AND testmasks ! n) (7 - k)" by simp
    moreover have "bit (testmasks ! n) (7 - k)" using testmasks_bit [OF assms, of "7 - k"] k assms by simp
    ultimately show "bit x (7 - k) = bit y (7 - k)" by (simp add: bit_and_iff)
  qed
next
  assume r: ?r
  show ?l
  proof (rule bit_word_eqI)
    fix i assume "i < LENGTH(8)"
    then have i: "i < 8" by simp
    show "bit (x AND testmasks ! n) i = bit (y AND testmasks ! n) i"
      using r [rule_format, of "7 - i"] i assms testmasks_bit [OF assms i] by (auto simp: bit_and_iff)
  qed
qed

lemma addr_bit_Cons:
  "addr_bit (x # a) k = (if k < 8 then bit x (7 - k) else addr_bit a (k - 8))"
proof (cases "k < 8")
  case False
  then obtain j where "k = 8 + j" using le_Suc_ex not_less by blast
  moreover have "(8 + j) div 8 = Suc (j div 8)" by simp
  ultimately show ?thesis by (simp add: addr_bit_def del: div_add_self1)
qed (simp add: addr_bit_def)

lemma same_prefix_0 [simp]: "same_prefix 0 a b"
  by (simp add: same_prefix_def)

lemma same_prefix_Cons:
  "same_prefix n (x # a) (y # b) \<longleftrightarrow>
     (\<forall>k < min n 8. bit x (7 - k) = bit y (7 - k)) \<and> same_prefix (n - 8) a b"
proof -
  have "(\<forall>k < n. P k) \<longleftrightarrow> (\<forall>k < min n 8. P k) \<and> (\<forall>k < n - 8. P (k + 8))" for P
  proof safe
    fix k assume a: "\<forall>k < min n 8. P k" "\<forall>k < n - 8. P (k + 8)" "k < n"
    show "P k"
    proof (cases "k < 8")
      case False
      with a(2) [rule_format, of "k - 8"] a(3) show ?thesis by simp
    qed (use a in simp)
  qed auto
  from this [of "\<lambda>k. addr_bit (x # a) k = addr_bit (y # b) k"] show ?thesis
    by (simp add: same_prefix_def addr_bit_Cons)
qed

lemma match_bits_spec:
  "nat m \<le> 8 * length a \<Longrightarrow> length b = length a \<Longrightarrow> match_bits m a b = Done (same_prefix (nat m) a b)"
proof (induction a arbitrary: b m)
  case Nil
  then show ?case by (simp add: match_bits.simps same_prefix_def)
next
  case (Cons x a)
  then obtain y b' where b: "b = y # b'" by (cases b) auto
  consider "m \<le> 0" | "8 \<le> m" | "0 < m" "m < 8" by linarith
  then show ?case
  proof cases
    case 1
    then show ?thesis by (simp add: match_bits.simps same_prefix_def)
  next
    case 2
    with Cons.prems b Cons.IH [of "m - 8" b'] have "match_bits (m - 8) a b' = Done (same_prefix (nat m - 8) a b')"
      by (simp add: nat_diff_distrib)
    moreover have "min (nat m) 8 = 8" using 2 by simp
    ultimately show ?thesis
      using 2 b byte_eq_iff [of x y] by (subst match_bits.simps) (simp add: same_prefix_Cons)
  next
    case 3
    then have "0 < nat m" "nat m < 8" by simp_all
    moreover from this have "min (nat m) 8 = nat m" "nat m - 8 = 0" by simp_all
    ultimately show ?thesis
      using testmask_eq_iff [of "nat m" x y] 3 b
      by (subst match_bits.simps) (simp add: same_prefix_Cons match_bits.simps [of "m - 8"])
  qed
qed

subsection \<open>Parsed lists are well formed\<close>

fun addr_matches :: "sockaddr \<Rightarrow> ip_and_mask \<Rightarrow> bool" where
  "addr_matches (AF_INET a) e = (case ip_addr e of AF_INET b \<Rightarrow> same_prefix (nat (ip_mask e)) a b | _ \<Rightarrow> False)"
| "addr_matches (AF_INET6 a) e = (case ip_addr e of AF_INET6 b \<Rightarrow> same_prefix (nat (ip_mask e)) a b | _ \<Rightarrow> False)"
| "addr_matches (AF_UNIX p) e = False"

fun addr_ok :: "sockaddr \<Rightarrow> bool" where
  "addr_ok (AF_INET a) = (length a = 4)"
| "addr_ok (AF_INET6 a) = (length a = 16)"
| "addr_ok (AF_UNIX p) = False"

definition entry_ok :: "ip_and_mask \<Rightarrow> bool" where
  "entry_ok e \<longleftrightarrow> addr_ok (ip_addr e) \<and> 1 \<le> ip_mask e \<and> ip_mask e \<le> MAX_MASK_BITS (ip_addr e)"

lemma all_some_length: "all_some xs = Some ys \<Longrightarrow> length ys = length xs"
  by (induction xs arbitrary: ys rule: all_some.induct) auto

lemma inet_pton_length: "inet_pton4 s = Some a \<Longrightarrow> length a = 4" "inet_pton6 s = Some a \<Longrightarrow> length a = 16"
  by (auto simp: inet_pton4_def inet_pton6_def Let_def dest: all_some_length split: if_splits option.splits prod.splits)

lemma parse_ip_ok: "parse_ip_to_sockaddr s = Done (Some a) \<Longrightarrow> addr_ok a"
  by (auto simp: parse_ip_to_sockaddr_def Let_def dest: inet_pton_length split: if_splits option.splits)

lemma parse_acl_entry_ok: "parse_acl_entry s = Done (Some e) \<Longrightarrow> entry_ok e"
  by (auto simp: parse_acl_entry_def entry_ok_def Let_def not_less MAX_MASK_BITS_def dest!: parse_ip_ok
      split: cresult.splits option.splits if_splits sockaddr.splits)

lemma parse_acl_ok:
  "parse_acl lines = Done (n, es) \<Longrightarrow> length es = n \<and> n \<le> length lines \<and> list_all entry_ok es"
proof (induction lines arbitrary: n es)
  case (Cons l ls)
  then show ?case
    by (auto split: cresult.splits option.splits prod.splits dest: parse_acl_entry_ok)
qed simp

lemma is_included_spec:
  assumes "list_all entry_ok es"
  shows "is_included_in_acl es addr = Ret (\<exists>e\<in>set es. addr_matches addr e) ()
     \<or> \<not> addr_ok addr"
  using assms
proof (induction es)
  case (Cons e es)
  show ?case
  proof (cases "addr_ok addr")
    case True
    with Cons have ih: "is_included_in_acl es addr = Ret (\<exists>e\<in>set es. addr_matches addr e) ()" "entry_ok e" by auto
    show ?thesis
    proof (cases addr; cases "ip_addr e")
    qed (use ih True in \<open>auto simp: match_bits_spec entry_ok_def MAX_MASK_BITS_def\<close>)
  qed simp
qed simp

lemma is_included_unix:
  "list_all entry_ok es \<Longrightarrow> is_included_in_acl es (AF_UNIX p) = Ret False ()"
  by (induction es) (auto simp: entry_ok_def split: sockaddr.splits)

lemma parse_acl_nth:
  "parse_acl lines = Done (n, es) \<Longrightarrow>
     (\<forall>i < n. parse_acl_entry (lines ! i) = Done (Some (es ! i)))
     \<and> (n < length lines \<longrightarrow> parse_acl_entry (lines ! n) = Done None)"
proof (induction lines arbitrary: n es)
  case (Cons l ls)
  show ?case
  proof (cases "parse_acl_entry l")
    case (Done e)
    show ?thesis
    proof (cases e)
      case None
      with Cons.prems Done show ?thesis by simp
    next
      case (Some x)
      with Cons.prems Done obtain k fs where k: "parse_acl ls = Done (k, fs)" "n = Suc k" "es = x # fs"
        by (auto split: cresult.splits)
      with Cons.IH [OF k(1)] Done Some show ?thesis by (auto simp: less_Suc_eq_0_disj)
    qed
  qed (use Cons.prems in auto)
qed simp

subsection \<open>Properties\<close>

text \<open>C28: a client is admitted by an access list exactly when some entry of its address family agrees
  with the client's address on the entry's leading mask bits, and by an empty list exactly when the
  default is not to deny.  The check never aborts and never reads past an address, whatever list the
  parser built.\<close>

theorem acl_includes_prefix:
  assumes "acl_create lines deny = Done l" "addr_ok addr \<or> (\<exists>p. addr = AF_UNIX p)"
  shows "acl_includes l addr =
     Ret (if acl_entries l = [] then \<not> deny else \<exists>e\<in>set (acl_entries l). addr_matches addr e) ()"
proof -
  from assms(1) obtain n where p: "parse_acl lines = Done (n, acl_entries l)" "acl_deny l = deny"
    by (auto simp: acl_create_def split: cresult.splits)
  then have "list_all entry_ok (acl_entries l)" by (auto dest: parse_acl_ok)
  with is_included_spec [OF this, of addr] is_included_unix [OF this] assms(2) p(2) show ?thesis
    by (auto simp: acl_includes_def)
qed

theorem acl_includes_prefix_witness:
  "\<exists>l. acl_create [[49, 48, 46, 48, 46, 48, 46, 48, 47, 56]] True = Done l
     \<and> acl_includes l (AF_INET [10, 1, 2, 3]) = Ret True () \<and> acl_includes l (AF_INET [11, 1, 2, 3]) = Ret False ()"
proof -
  let ?l = "\<lparr>acl_entries = [\<lparr>ip_addr = AF_INET [10, 0, 0, 0], ip_mask = 8\<rparr>], acl_deny = True\<rparr>"
  have l: "acl_create [[49, 48, 46, 48, 46, 48, 46, 48, 47, 56]] True = Done ?l" by code_simp
  have "same_prefix 8 [10, 1, 2, 3] [10, 0, 0, 0]" "\<not> same_prefix 8 [11, 1, 2, 3] [10, 0, 0, 0]"
    by code_simp+
  then show ?thesis
    using l acl_includes_prefix [OF l, of "AF_INET [10, 1, 2, 3]"] acl_includes_prefix [OF l, of "AF_INET [11, 1, 2, 3]"]
    by simp
qed



text \<open>An address of 64 or more valid characters makes \<open>parse_ip_to_sockaddr\<close> store the terminating
  NUL one byte past its 64-byte buffer.\<close>

theorem parse_ip_overruns_buffer:
  assumes "64 \<le> length src" "\<forall>c\<in>set (take 64 src). IS_IP_VALID_CHAR c"
  shows "parse_ip_to_sockaddr src = OutOfBounds"
proof -
  have ne: "src \<noteq> []" using assms(1) by auto
  then have "hd src \<in> set (take 64 src)" by (cases src) auto
  then have "hd src \<noteq> 91" using assms(2) by (auto simp: IS_IP_VALID_CHAR_def)
  moreover have tw: "takeWhile IS_IP_VALID_CHAR (take 64 src) = take 64 src"
    using assms(2) by (simp add: takeWhile_eq_all_conv)
  ultimately show ?thesis using assms(1) unfolding parse_ip_to_sockaddr_def Let_def by (simp add: tw del: takeWhile_eq_all_conv)
qed

theorem parse_ip_overruns_buffer_witness: "parse_ip_to_sockaddr (replicate 64 48) = OutOfBounds"
  by (rule parse_ip_overruns_buffer) (simp_all add: IS_IP_VALID_CHAR_def)

end
