(* ===== verification/Proxy.thy ===== *)
theory Proxy
  imports Prefetch Parse_Acl
begin

text \<open>
  The proxy, \<^verbatim>\<open>src/src/proxy/proxy.c\<close>: one downstream client, one upstream server, a state machine
  that reads a request, sends it upstream, reads the reply and passes it on, and that reconnects and
  sends the same request again when upstream fails.  \<open>proxier\<close> is \<^verbatim>\<open>struct proxier\<close> with the state of
  its two sockets (\<open>down_*\<close> and \<open>up_*\<close>: what will be read, what writes will do, what has been written;
  \<open>up_out\<close> since the current connection was made).  A handler returns the next state and the proxier,
  or \<open>None\<close> when it leaves its memory.  \<open>tick\<close> is what the environment does during one turn of the loop
  of \<open>proxy_session\<close>.  errno is not modelled, since the proxy only logs it.
\<close>

subsection \<open>State\<close>

datatype proxy_session_states =
  EXIT | WRITE_TO_DOWNSTREAM | READ_FROM_DOWNSTREAM | CONNECT_TO_UPSTREAM | READ_INIT_FROM_UPSTREAM
  | WRITE_TO_UPSTREAM | READ_FROM_UPSTREAM

record proxier =
  listen_on :: sockaddr
  listen_port :: u16
  connect_to :: sockaddr
  connect_port :: u16
  connect_from :: "sockaddr option"
  listen_fd :: int
  downstream_fd :: int
  upstream_fd :: int
  upstream_size :: u64
  upstream_flags :: u32
  req_hdr :: nbd_request
  rsp_hdr :: nbd_reply
  init :: iobuf
  req :: iobuf
  rsp :: iobuf
  req_count :: u64
  hello_sent :: bool
  upstream_timeout :: int
  upstream_timeout_ms :: u64
  is_prefetch_req :: bool
  prefetch_req_orig_len :: u32
  prefetch :: "prefetch option"
  down_in :: "rd list"
  down_wr :: "wr list"
  down_out :: "byte list"
  up_in :: "rd list"
  up_wr :: "wr list"
  up_out :: "byte list"

type_synonym proxy_handler = "proxier \<Rightarrow> (proxy_session_states \<times> proxier) option"

definition UPSTREAM_TIMEOUT :: int where "UPSTREAM_TIMEOUT = 30"

definition zero_request :: nbd_request where
  "zero_request = \<lparr>rq_magic = 0, rq_flags = 0, rq_type = 0, rq_handle = 0, rq_from = 0, rq_len = 0\<rparr>"

definition zero_reply :: nbd_reply where
  "zero_reply = \<lparr>rp_magic = 0, rp_error = 0, rp_handle = 0\<rparr>"

definition zero_iobuf :: "nat \<Rightarrow> iobuf" where
  "zero_iobuf n = \<lparr>buf = replicate n 0, iob_size = 0, needle = 0\<rparr>"

subsection \<open>Creation and connections\<close>

definition upstream_timeout_of :: "byte list option \<Rightarrow> int" where
  "upstream_timeout_of env = (case env of None \<Rightarrow> UPSTREAM_TIMEOUT | Some s \<Rightarrow> if atoi s > 0 then atoi s else UPSTREAM_TIMEOUT)"

definition cache_of :: "byte list option \<Rightarrow> prefetch option" where
  "cache_of s_cache_bytes =
     (case s_cache_bytes of None \<Rightarrow> None
      | Some s \<Rightarrow> if atoi s \<ge> 0 then Some (prefetch_create (nat (atoi s))) else None)"

definition new_proxier ::
  "sockaddr \<Rightarrow> u16 \<Rightarrow> sockaddr \<Rightarrow> u16 \<Rightarrow> sockaddr option \<Rightarrow> int \<Rightarrow> prefetch option \<Rightarrow> proxier"
where
  "new_proxier lo lp ct cp cf timeout pf =
     \<lparr>listen_on = lo, listen_port = lp, connect_to = ct, connect_port = cp, connect_from = cf,
      listen_fd = -1, downstream_fd = -1, upstream_fd = -1, upstream_size = 0, upstream_flags = 0,
      req_hdr = zero_request, rsp_hdr = zero_reply, init = zero_iobuf NBD_INIT_SIZE,
      req = zero_iobuf (NBD_MAX_SIZE + NBD_REQUEST_SIZE), rsp = zero_iobuf (NBD_MAX_SIZE + NBD_REPLY_SIZE),
      req_count = 0, hello_sent = False, upstream_timeout = timeout,
      upstream_timeout_ms = word_of_int timeout * 1000, is_prefetch_req = False, prefetch_req_orig_len = 0,
      prefetch = pf, down_in = [], down_wr = [], down_out = [], up_in = [], up_wr = [], up_out = []\<rparr>"

definition need_addr :: "(byte list \<Rightarrow> sockaddr option cresult) \<Rightarrow> byte list option \<Rightarrow> (unit, sockaddr) outcome" where
  "need_addr parse s =
     (case s of None \<Rightarrow> Fatal ()
      | Some a \<Rightarrow> (case parse a of Done (Some sa) \<Rightarrow> Ret sa () | Done None \<Rightarrow> Fatal () | _ \<Rightarrow> Fault))"

definition proxy_create ::
  "byte list option \<Rightarrow> byte list option \<Rightarrow> byte list option \<Rightarrow> byte list option \<Rightarrow> byte list option \<Rightarrow> byte list option
     \<Rightarrow> byte list option \<Rightarrow> (unit, proxier) outcome"
where
  "proxy_create d_addr d_port u_addr u_port u_bind cache env_timeout =
     and_then (need_addr parse_to_sockaddr d_addr) (\<lambda>lo _.
     and_then (case lo of AF_UNIX _ \<Rightarrow> Ret 0 () | _ \<Rightarrow> (case d_port of None \<Rightarrow> Fatal () | Some s \<Rightarrow> parse_port s)) (\<lambda>lp _.
     and_then (need_addr parse_ip_to_sockaddr u_addr) (\<lambda>ct _.
     and_then (case u_port of None \<Rightarrow> Fatal () | Some s \<Rightarrow> parse_port s) (\<lambda>cp _.
     and_then (case u_bind of None \<Rightarrow> Ret None () | Some s \<Rightarrow> and_then (need_addr parse_ip_to_sockaddr (Some s)) (\<lambda>a _. Ret (Some a) ())) (\<lambda>cf _.
     Ret (new_proxier lo lp ct cp cf (upstream_timeout_of env_timeout) (cache_of cache)) ())))))"

definition proxy_prefetches :: "proxier \<Rightarrow> bool" where
  "proxy_prefetches p \<longleftrightarrow> prefetch p \<noteq> None"

definition proxy_prefetch_bufsize :: "proxier \<Rightarrow> nat" where
  "proxy_prefetch_bufsize p = prefetch_size (prefetch p)"

definition proxy_finish_connect_to_upstream :: "u64 \<Rightarrow> u32 \<Rightarrow> proxier \<Rightarrow> proxier" where
  "proxy_finish_connect_to_upstream sz flags p = p\<lparr>upstream_size := sz, upstream_flags := flags\<rparr>"

datatype hello_result = ConnectFailed | HelloFailed | HelloOk u64 u32 "rd list" "wr list"

definition proxy_connect_to_upstream :: "hello_result \<Rightarrow> int \<Rightarrow> proxier \<Rightarrow> bool \<times> proxier" where
  "proxy_connect_to_upstream result fd p =
     (case result of
        ConnectFailed \<Rightarrow> (False, p)
      | HelloFailed \<Rightarrow> (False, p)
      | HelloOk sz flags rds wrs \<Rightarrow>
          (True, proxy_finish_connect_to_upstream sz flags
                   (p\<lparr>upstream_fd := fd, up_in := rds, up_wr := wrs, up_out := []\<rparr>)))"

datatype connect_try = NoSocket | NoNonblock | ConnectError | Connecting int "rd list" "wr list"

definition proxy_start_connect_to_upstream :: "connect_try \<Rightarrow> proxier \<Rightarrow> proxier" where
  "proxy_start_connect_to_upstream c p =
     (case c of
        Connecting fd rds wrs \<Rightarrow> p\<lparr>upstream_fd := fd, up_in := rds, up_wr := wrs, up_out := []\<rparr>
      | _ \<Rightarrow> p)"

definition proxy_disconnect_from_upstream :: "proxier \<Rightarrow> proxier" where
  "proxy_disconnect_from_upstream p = (if upstream_fd p \<noteq> -1 then p\<lparr>upstream_fd := -1\<rparr> else p)"

definition proxy_state_upstream :: "proxy_session_states \<Rightarrow> bool" where
  "proxy_state_upstream st \<longleftrightarrow>
     st = CONNECT_TO_UPSTREAM \<or> st = READ_INIT_FROM_UPSTREAM \<or> st = WRITE_TO_UPSTREAM \<or> st = READ_FROM_UPSTREAM"

subsection \<open>Prefetching\<close>

definition prefetch_hit :: "prefetch \<Rightarrow> proxy_handler" where
  "prefetch_hit pf p =
     (let rq = req_hdr p;
          reply = \<lparr>rp_magic = REPLY_MAGIC, rp_error = 0, rp_handle = rq_handle rq\<rparr>;
          off = prefetch_offset pf (rq_from rq);
          n = unat (rq_len rq)
      in if off + n > length (pf_buffer pf) then None
         else case mem_write 0 (reply_raw_bytes (nbd_h2r_reply reply)) (buf (rsp p)) of
                None \<Rightarrow> None
              | Some b1 \<Rightarrow>
                  (case mem_write NBD_REPLY_SIZE (mem_slice off n (pf_buffer pf)) b1 of
                     None \<Rightarrow> None
                   | Some b2 \<Rightarrow> Some (WRITE_TO_DOWNSTREAM,
                       p\<lparr>rsp_hdr := reply, rsp := \<lparr>buf = b2, iob_size = NBD_REPLY_SIZE + n, needle = 0\<rparr>\<rparr>)))"

definition prefetching :: "proxier \<Rightarrow> bool" where
  "prefetching p \<longleftrightarrow>
     (let rq = req_hdr p; prefetch_start = rq_from rq; prefetch_end = rq_from rq + ucast (rq_len rq * 2)
      in unat (rq_len rq) \<le> prefetch_size (prefetch p) \<and> rq_type rq = REQUEST_READ
         \<and> prefetch_start < prefetch_end \<and> prefetch_end \<le> upstream_size p)"

definition prefetch_rewrite :: "proxy_session_states \<Rightarrow> proxy_handler" where
  "prefetch_rewrite st p =
     (if prefetching p then
        (let rq = (req_hdr p)\<lparr>rq_len := rq_len (req_hdr p) * 2\<rparr> in
         case mem_write 0 (request_raw_bytes (nbd_h2r_request rq)) (buf (req p)) of
           None \<Rightarrow> None
         | Some b \<Rightarrow> Some (st, p\<lparr>is_prefetch_req := True, prefetch_req_orig_len := rq_len (req_hdr p), req_hdr := rq,
                               req := (req p)\<lparr>buf := b\<rparr>\<rparr>))
      else Some (st, p))"

definition proxy_prefetch_for_request :: "proxy_session_states \<Rightarrow> proxy_handler" where
  "proxy_prefetch_for_request st p =
     (if rq_type (req_hdr p) = REQUEST_READ then
        (case prefetch p of
           Some pf \<Rightarrow> if is_full pf \<and> prefetch_contains pf (rq_from (req_hdr p)) (rq_len (req_hdr p))
                      then prefetch_hit pf p else prefetch_rewrite st p
         | None \<Rightarrow> prefetch_rewrite st p)
      else prefetch_rewrite st (p\<lparr>prefetch := prefetch_set_is_empty (prefetch p)\<rparr>))"

definition proxy_prefetch_for_reply :: "proxy_session_states \<Rightarrow> proxy_handler" where
  "proxy_prefetch_for_reply st p =
     (if \<not> is_prefetch_req p then Some (st, p)
      else
        (let orig = prefetch_req_orig_len p;
             prefetched_bytes = rq_len (req_hdr p) - orig;
             n = unat prefetched_bytes;
             src = unat orig + NBD_REPLY_SIZE
         in case prefetch p of
              None \<Rightarrow> None
            | Some pf \<Rightarrow>
                if src + n > length (buf (rsp p)) then None
                else case mem_write 0 (mem_slice src n (buf (rsp p))) (pf_buffer pf) of
                       None \<Rightarrow> None
                     | Some b \<Rightarrow>
                         Some (st, p\<lparr>prefetch := prefetch_set_is_full (Some (pf\<lparr>pf_buffer := b,
                                        pf_from := rq_from (req_hdr p) + ucast orig, pf_len := prefetched_bytes\<rparr>)),
                                     req_hdr := (req_hdr p)\<lparr>rq_len := orig\<rparr>,
                                     rsp := (rsp p)\<lparr>iob_size := size_t_minus (iob_size (rsp p)) n\<rparr>,
                                     is_prefetch_req := False\<rparr>)))"

subsection \<open>Handlers\<close>

definition proxy_request_read :: "proxy_handler" where
  "proxy_request_read p =
     (let p1 = (if needle (req p) = NBD_REQUEST_SIZE
                then p\<lparr>req_hdr := nbd_r2h_request (request_raw_of (buf (req p)))\<rparr> else p);
          rq = req_hdr p1;
          fresh = (needle (req p) = NBD_REQUEST_SIZE)
      in if fresh \<and> rq_type rq = REQUEST_DISCONNECT then Some (EXIT, p1)
         else if fresh \<and> (rq_type rq = REQUEST_READ \<or> rq_type rq = REQUEST_WRITE) \<and> unat (rq_len rq) > NBD_MAX_SIZE
         then Some (EXIT, p1)
         else
           (let p2 = (if fresh \<and> rq_type rq = REQUEST_WRITE
                      then p1\<lparr>req := (req p1)\<lparr>iob_size := iob_size (req p1) + unat (rq_len rq)\<rparr>\<rparr> else p1)
            in if needle (req p2) = iob_size (req p2)
               then Some (WRITE_TO_UPSTREAM, p2\<lparr>req := (req p2)\<lparr>needle := 0\<rparr>\<rparr>)
               else Some (READ_FROM_DOWNSTREAM, p2)))"

definition proxy_read_from_downstream :: "proxy_handler" where
  "proxy_read_from_downstream p =
     (case iobuf_read (down_in p) 0 (req p) NBD_REQUEST_SIZE of
        None \<Rightarrow> None
      | Some (count, _, iob, es) \<Rightarrow>
          let p1 = p\<lparr>req := iob, down_in := es\<rparr> in
          if count = -1 then Some (EXIT, p1) else proxy_request_read p1)"

definition proxy_continue_connecting_to_upstream :: "int option \<Rightarrow> proxy_handler" where
  "proxy_continue_connecting_to_upstream so_error p =
     (case so_error of
        None \<Rightarrow> Some (CONNECT_TO_UPSTREAM, p)
      | Some e \<Rightarrow>
          if e \<noteq> 0 then Some (CONNECT_TO_UPSTREAM, p)
          else Some (READ_INIT_FROM_UPSTREAM,
            p\<lparr>prefetch := prefetch_set_is_empty (prefetch p),
              init := (init p)\<lparr>needle := 0, iob_size := 0\<rparr>, rsp := (rsp p)\<lparr>needle := 0, iob_size := 0\<rparr>,
              req := (req p)\<lparr>needle := 0\<rparr>\<rparr>))"

definition proxy_read_init_from_upstream :: "proxy_handler" where
  "proxy_read_init_from_upstream p =
     (case iobuf_read (up_in p) 0 (init p) NBD_INIT_SIZE of
        None \<Rightarrow> None
      | Some (count, _, iob, es) \<Rightarrow>
          let p1 = p\<lparr>init := iob, up_in := es\<rparr> in
          if count = -1 then Some (CONNECT_TO_UPSTREAM, p1)
          else if needle (init p1) = iob_size (init p1) then
            (case nbd_check_hello (init_raw_of (buf (init p1))) of
               None \<Rightarrow> Some (CONNECT_TO_UPSTREAM, p1)
             | Some (sz, flags) \<Rightarrow>
                 Some (WRITE_TO_UPSTREAM,
                   (proxy_finish_connect_to_upstream sz flags p1)\<lparr>init := (init p1)\<lparr>needle := 0\<rparr>\<rparr>))
          else Some (READ_INIT_FROM_UPSTREAM, p1))"

definition proxy_write_to_upstream :: "proxy_handler" where
  "proxy_write_to_upstream p =
     (case iobuf_write (up_wr p) 0 (req p) of
        None \<Rightarrow> None
      | Some (count, _, iob, out, es) \<Rightarrow>
          let p1 = p\<lparr>req := iob, up_wr := es, up_out := up_out p @ out\<rparr> in
          if count = -1 then Some (CONNECT_TO_UPSTREAM, p1)
          else if needle (req p1) = iob_size (req p1)
          then Some (READ_FROM_UPSTREAM, p1\<lparr>req := (req p1)\<lparr>needle := 0\<rparr>\<rparr>)
          else Some (WRITE_TO_UPSTREAM, p1))"

definition proxy_reply_read :: "proxy_handler" where
  "proxy_reply_read p =
     (let fresh = (needle (rsp p) = NBD_REPLY_SIZE);
          p1 = (if fresh then p\<lparr>rsp_hdr := nbd_r2h_reply (reply_raw_of (buf (rsp p)))\<rparr> else p)
      in if fresh \<and> rp_magic (rsp_hdr p1) \<noteq> REPLY_MAGIC then Some (CONNECT_TO_UPSTREAM, p1)
         else
           (let p2 = (if fresh \<and> rq_type (req_hdr p1) = REQUEST_READ
                      then p1\<lparr>rsp := (rsp p1)\<lparr>iob_size := iob_size (rsp p1) + unat (rq_len (req_hdr p1))\<rparr>\<rparr> else p1)
            in if iob_size (rsp p2) = needle (rsp p2)
               then Some (WRITE_TO_DOWNSTREAM, p2\<lparr>rsp := (rsp p2)\<lparr>needle := 0\<rparr>\<rparr>)
               else Some (READ_FROM_UPSTREAM, p2)))"

definition proxy_read_from_upstream :: "proxy_handler" where
  "proxy_read_from_upstream p =
     (case iobuf_read (up_in p) 0 (rsp p) NBD_REPLY_SIZE of
        None \<Rightarrow> None
      | Some (count, _, iob, es) \<Rightarrow>
          let p1 = p\<lparr>rsp := iob, up_in := es\<rparr> in
          if count = -1 then Some (CONNECT_TO_UPSTREAM, p1) else proxy_reply_read p1)"

definition proxy_write_to_downstream :: "proxy_handler" where
  "proxy_write_to_downstream p =
     (case iobuf_write (down_wr p) 0 (rsp p) of
        None \<Rightarrow> None
      | Some (count, _, iob, out, es) \<Rightarrow>
          let p1 = p\<lparr>rsp := iob, down_wr := es, down_out := down_out p @ out\<rparr> in
          if count = -1 then Some (EXIT, p1)
          else if needle (rsp p1) = iob_size (rsp p1)
          then (let p2 = (if \<not> hello_sent p1 then p1\<lparr>hello_sent := True\<rparr> else p1\<lparr>req_count := req_count p1 + 1\<rparr>)
                in Some (READ_FROM_DOWNSTREAM,
                     p2\<lparr>req := (req p2)\<lparr>iob_size := 0, needle := 0\<rparr>, rsp := (rsp p2)\<lparr>iob_size := 0, needle := 0\<rparr>\<rparr>))
          else Some (WRITE_TO_DOWNSTREAM, p1))"

subsection \<open>The session\<close>

datatype select_result = SelectError | SelectTimeout | SelectReady

record tick =
  t_start :: u64
  t_select :: select_result
  t_end :: u64
  t_connect :: connect_try
  t_so_error :: "int option"

record session =
  prx :: proxier
  sstate :: proxy_session_states
  old_state :: proxy_session_states
  state_started :: u64
  connect_to_upstream_cooldown :: bool
  broken_off :: bool

definition proxy_turn_handler :: "tick \<Rightarrow> proxy_session_states \<Rightarrow> proxy_handler" where
  "proxy_turn_handler t st p =
     (let ready = (t_select t = SelectReady) in
      case st of
        READ_FROM_DOWNSTREAM \<Rightarrow>
          if ready then
            (case proxy_read_from_downstream p of
               None \<Rightarrow> None
             | Some (st1, p1) \<Rightarrow>
                 if proxy_prefetches p1 \<and> st1 = WRITE_TO_UPSTREAM then proxy_prefetch_for_request st1 p1
                 else Some (st1, p1))
          else Some (st, p)
      | CONNECT_TO_UPSTREAM \<Rightarrow>
          if ready then proxy_continue_connecting_to_upstream (t_so_error t) p else Some (st, p)
      | READ_INIT_FROM_UPSTREAM \<Rightarrow> proxy_read_init_from_upstream p
      | WRITE_TO_UPSTREAM \<Rightarrow> if ready then proxy_write_to_upstream p else Some (st, p)
      | READ_FROM_UPSTREAM \<Rightarrow>
          (case (if ready then proxy_read_from_upstream p else Some (st, p)) of
             None \<Rightarrow> None
           | Some (st1, p1) \<Rightarrow>
               if proxy_prefetches p1 \<and> st1 = WRITE_TO_DOWNSTREAM then proxy_prefetch_for_reply st1 p1
               else Some (st1, p1))
      | WRITE_TO_DOWNSTREAM \<Rightarrow> if ready then proxy_write_to_downstream p else Some (st, p)
      | EXIT \<Rightarrow> Some (EXIT, p))"

definition proxy_turn_begin :: "tick \<Rightarrow> session \<Rightarrow> session" where
  "proxy_turn_begin t s =
     (let s1 = (if sstate s \<noteq> old_state s then s\<lparr>state_started := t_start t\<rparr> else s);
          s2 = s1\<lparr>old_state := sstate s1\<rparr>
      in if sstate s2 = CONNECT_TO_UPSTREAM then
           (let p1 = proxy_disconnect_from_upstream (prx s2) in
            if connect_to_upstream_cooldown s2 then s2\<lparr>prx := p1, connect_to_upstream_cooldown := False\<rparr>
            else s2\<lparr>prx := proxy_start_connect_to_upstream (t_connect t) p1\<rparr>)
         else s2)"

definition proxy_turn_end :: "tick \<Rightarrow> session \<Rightarrow> session" where
  "proxy_turn_end t s =
     (let s1 = (if (old_state s = CONNECT_TO_UPSTREAM \<or> old_state s = READ_INIT_FROM_UPSTREAM)
                   \<and> sstate s = CONNECT_TO_UPSTREAM then s\<lparr>connect_to_upstream_cooldown := True\<rparr> else s)
      in if old_state s1 = sstate s1 \<and> proxy_state_upstream (sstate s1)
            \<and> t_end t - state_started s1 > upstream_timeout_ms (prx s1)
         then s1\<lparr>sstate := CONNECT_TO_UPSTREAM\<rparr> else s1)"

definition proxy_turn :: "tick \<Rightarrow> session \<Rightarrow> session option" where
  "proxy_turn t s =
     (let cooling = (sstate s = CONNECT_TO_UPSTREAM \<and> connect_to_upstream_cooldown s);
          s1 = proxy_turn_begin t s
      in if sstate s1 = CONNECT_TO_UPSTREAM \<and> \<not> cooling \<and> upstream_fd (prx s1) = -1 then Some s1
         else if t_select t = SelectError then Some (s1\<lparr>broken_off := True\<rparr>)
         else if upstream_fd (prx s1) = -1 then Some s1
         else case proxy_turn_handler t (sstate s1) (prx s1) of
                None \<Rightarrow> None
              | Some (st, p) \<Rightarrow> Some (proxy_turn_end t (s1\<lparr>sstate := st, prx := p\<rparr>)))"

fun proxy_turns :: "tick list \<Rightarrow> session \<Rightarrow> session option" where
  "proxy_turns [] s = Some s"
| "proxy_turns (t # ts) s =
     (if sstate s = EXIT \<or> broken_off s then Some s
      else case proxy_turn t s of None \<Rightarrow> None | Some s1 \<Rightarrow> proxy_turns ts s1)"

definition proxy_session_begin :: "byte list \<Rightarrow> u64 \<Rightarrow> proxier \<Rightarrow> session option" where
  "proxy_session_begin stack now p =
     (case mem_write 0 (init_raw_bytes (nbd_hello_to_buf stack (upstream_size p) (upstream_flags p))) (buf (rsp p)) of
        None \<Rightarrow> None
      | Some b \<Rightarrow>
          Some \<lparr>prx = p\<lparr>rsp := \<lparr>buf = b, iob_size = NBD_INIT_SIZE, needle = 0\<rparr>\<rparr>, sstate = WRITE_TO_DOWNSTREAM,
                 old_state = EXIT, state_started = now, connect_to_upstream_cooldown = False, broken_off = False\<rparr>)"

definition proxy_session :: "byte list \<Rightarrow> u64 \<Rightarrow> tick list \<Rightarrow> proxier \<Rightarrow> proxier option" where
  "proxy_session stack now ts p =
     (case proxy_session_begin stack now p of
        None \<Rightarrow> None
      | Some s \<Rightarrow> (case proxy_turns ts s of
                     None \<Rightarrow> None
                   | Some s1 \<Rightarrow> Some ((prx s1)\<lparr>req_count := 0, hello_sent := False\<rparr>)))"

subsection \<open>Life of the proxy\<close>

record accepted =
  a_fd :: int
  a_in :: "rd list"
  a_wr :: "wr list"
  a_stack :: "byte list"
  a_now :: u64
  a_ticks :: "tick list"

definition proxy_accept :: "accepted \<Rightarrow> proxier \<Rightarrow> proxier option" where
  "proxy_accept a p =
     (case proxy_session (a_stack a) (a_now a) (a_ticks a)
             (p\<lparr>downstream_fd := a_fd a, down_in := a_in a, down_wr := a_wr a, down_out := []\<rparr>) of
        None \<Rightarrow> None
      | Some p1 \<Rightarrow> Some (p1\<lparr>downstream_fd := -1\<rparr>))"

fun proxy_accept_loop :: "accepted list \<Rightarrow> proxier \<Rightarrow> proxier option" where
  "proxy_accept_loop [] p = Some p"
| "proxy_accept_loop (a # as) p = (case proxy_accept a p of None \<Rightarrow> None | Some p1 \<Rightarrow> proxy_accept_loop as p1)"

definition proxy_cleanup :: "proxier \<Rightarrow> proxier" where
  "proxy_cleanup p = p\<lparr>listen_fd := -1, downstream_fd := -1, upstream_fd := -1\<rparr>"

definition proxy_open_listen_socket :: "int \<Rightarrow> bool \<Rightarrow> proxier \<Rightarrow> (proxier, unit) outcome" where
  "proxy_open_listen_socket fd ok p =
     (if fd < 0 then Fatal (p\<lparr>listen_fd := fd\<rparr>)
      else if \<not> ok then Fatal (p\<lparr>listen_fd := fd\<rparr>) else Ret () (p\<lparr>listen_fd := fd\<rparr>))"

definition do_proxy ::
  "hello_result \<Rightarrow> int \<Rightarrow> int \<Rightarrow> bool \<Rightarrow> accepted list \<Rightarrow> proxier \<Rightarrow> (proxier, int) outcome"
where
  "do_proxy hello up_fd l_fd listen_ok as p =
     (case proxy_connect_to_upstream hello up_fd p of (connected, p1) \<Rightarrow>
        if \<not> connected then Ret 1 (proxy_cleanup p1)
        else and_then (proxy_open_listen_socket l_fd listen_ok p1) (\<lambda>_ p2.
               case proxy_accept_loop as p2 of None \<Rightarrow> Fault | Some p3 \<Rightarrow> Ret 0 (proxy_cleanup p3)))"

subsection \<open>The cache\<close>

abbreviation success_reply :: "u64 \<Rightarrow> byte list" where
  "success_reply handle \<equiv> reply_bytes handle 0"

definition cached :: "byte list \<Rightarrow> prefetch \<Rightarrow> bool" where
  "cached file pf \<longleftrightarrow>
     unat (pf_from pf) + unat (pf_len pf) \<le> length file
     \<and> unat (pf_len pf) \<le> length (pf_buffer pf)
     \<and> take (unat (pf_len pf)) (pf_buffer pf) = mem_slice (unat (pf_from pf)) (unat (pf_len pf)) file"

lemma mem_write_Some: "at + length bs \<le> length m \<Longrightarrow> mem_write at bs m = Some (take at m @ bs @ drop (at + length bs) m)"
  by (simp add: mem_write.simps)

lemma cached_slice:
  assumes "cached file pf" "unat (pf_from pf) \<le> f" "f + n \<le> unat (pf_from pf) + unat (pf_len pf)"
  shows "mem_slice (f - unat (pf_from pf)) n (pf_buffer pf) = mem_slice f n file"
proof -
  let ?o = "f - unat (pf_from pf)"
  have "mem_slice ?o n (pf_buffer pf) = take n (drop ?o (take (unat (pf_len pf)) (pf_buffer pf)))"
    using assms(2,3) by (simp add: mem_slice_def drop_take min_absorb1)
  also have "\<dots> = mem_slice f n file"
    using assms by (simp add: cached_def mem_slice_def drop_take min_absorb1)
  finally show ?thesis .
qed

lemma prefetch_hit_bytes:
  assumes "cached file pf" "prefetch p = Some pf" "is_full pf" "length file < 2 ^ 64"
    "rq_type (req_hdr p) = REQUEST_READ" "unat (pf_from pf) \<le> unat (rq_from (req_hdr p))"
    "unat (rq_from (req_hdr p)) + unat (rq_len (req_hdr p)) \<le> unat (pf_from pf) + unat (pf_len pf)"
    "NBD_REPLY_SIZE + unat (rq_len (req_hdr p)) \<le> length (buf (rsp p))"
  shows "\<exists>p'. proxy_prefetch_for_request st p = Some (WRITE_TO_DOWNSTREAM, p')
     \<and> take (iob_size (rsp p')) (buf (rsp p')) = success_reply (rq_handle (req_hdr p))
          @ mem_slice (unat (rq_from (req_hdr p))) (unat (rq_len (req_hdr p))) file
     \<and> needle (rsp p') = 0 \<and> iob_size (rsp p') = NBD_REPLY_SIZE + unat (rq_len (req_hdr p)) \<and> iob_size (rsp p') \<le> length (buf (rsp p'))"
proof -
  let ?f = "unat (rq_from (req_hdr p))" and ?n = "unat (rq_len (req_hdr p))"
  let ?h = "success_reply (rq_handle (req_hdr p))"
  have fits: "unat (pf_from pf) + unat (pf_len pf) < 2 ^ 64" "?f + ?n < 2 ^ 64"
    using assms(1,4,7) by (auto simp: cached_def)
  then have hit: "prefetch_contains pf (rq_from (req_hdr p)) (rq_len (req_hdr p))"
    using assms(6,7) by (simp add: prefetch_contains_iff)
  have off: "prefetch_offset pf (rq_from (req_hdr p)) = ?f - unat (pf_from pf)" using assms(6) by (rule prefetch_offset_nat)
  have sl: "mem_slice (?f - unat (pf_from pf)) ?n (pf_buffer pf) = mem_slice ?f ?n file"
    using assms(1,6,7) by (rule cached_slice)
  have len: "length (mem_slice ?f ?n file) = ?n" using assms(1,7) by (simp add: cached_def)
  have ins: "\<not> length (pf_buffer pf) < ?f - unat (pf_from pf) + ?n" using assms(1,6,7) by (auto simp: cached_def)
  have b1: "mem_write 0 ?h (buf (rsp p)) = Some (?h @ drop NBD_REPLY_SIZE (buf (rsp p)))"
    using assms(8) by (subst mem_write_Some) simp_all
  have b2: "mem_write NBD_REPLY_SIZE (mem_slice ?f ?n file) (?h @ drop NBD_REPLY_SIZE (buf (rsp p)))
      = Some (?h @ mem_slice ?f ?n file @ drop (NBD_REPLY_SIZE + ?n) (buf (rsp p)))"
    using assms(8) len by (subst mem_write_Some) (simp_all add: add.commute)
  have "proxy_prefetch_for_request st p = prefetch_hit pf p"
    using assms(2,3,5) hit by (simp add: proxy_prefetch_for_request_def)
  also have "\<dots> = Some (WRITE_TO_DOWNSTREAM,
      p\<lparr>rsp_hdr := \<lparr>rp_magic = REPLY_MAGIC, rp_error = 0, rp_handle = rq_handle (req_hdr p)\<rparr>,
        rsp := \<lparr>buf = ?h @ mem_slice ?f ?n file @ drop (NBD_REPLY_SIZE + ?n) (buf (rsp p)), iob_size = NBD_REPLY_SIZE + ?n, needle = 0\<rparr>\<rparr>)"
    unfolding prefetch_hit_def Let_def off sl reply_bytes_def [of _ 0, unfolded of_int_0, symmetric] b1 option.case b2 using ins by simp
  finally show ?thesis using len by simp
qed

lemma prefetch_reply_fills:
  assumes "is_prefetch_req p" "prefetch p = Some pf" "rq_len (req_hdr p) = prefetch_req_orig_len p * 2"
    "2 * unat (prefetch_req_orig_len p) < 2 ^ 32" "unat (prefetch_req_orig_len p) \<le> length (pf_buffer pf)"
    "unat (rq_from (req_hdr p)) + 2 * unat (prefetch_req_orig_len p) \<le> length file" "length file < 2 ^ 64"
    "iob_size (rsp p) = NBD_REPLY_SIZE + 2 * unat (prefetch_req_orig_len p)" "length head = NBD_REPLY_SIZE"
    "take (iob_size (rsp p)) (buf (rsp p)) = head @ mem_slice (unat (rq_from (req_hdr p))) (2 * unat (prefetch_req_orig_len p)) file"
  shows "\<exists>p1 pf1. proxy_prefetch_for_reply st p = Some (st, p1) \<and> prefetch p1 = Some pf1 \<and> is_full pf1 \<and> cached file pf1
     \<and> unat (pf_from pf1) = unat (rq_from (req_hdr p)) + unat (prefetch_req_orig_len p) \<and> pf_len pf1 = prefetch_req_orig_len p
     \<and> take (iob_size (rsp p1)) (buf (rsp p1))
          = head @ mem_slice (unat (rq_from (req_hdr p))) (unat (prefetch_req_orig_len p)) file
     \<and> iob_size (rsp p1) = NBD_REPLY_SIZE + unat (prefetch_req_orig_len p) \<and> buf (rsp p1) = buf (rsp p)"
proof -
  let ?o = "prefetch_req_orig_len p" and ?n = "unat (prefetch_req_orig_len p)" and ?f = "unat (rq_from (req_hdr p))"
  have two: "unat (?o * 2) = 2 * ?n" using assms(4) by (simp add: unat_word_ariths)
  have d: "?o * 2 - ?o = ?o" by simp
  have bl: "length (buf (rsp p)) \<ge> NBD_REPLY_SIZE + 2 * ?n"
    using arg_cong [OF assms(10), of length] assms(6,8,9) by (simp add: min_def split: if_splits)
  have src: "mem_slice (?n + NBD_REPLY_SIZE) ?n (buf (rsp p)) = mem_slice (?f + ?n) ?n file"
  proof -
    have "mem_slice (?n + NBD_REPLY_SIZE) ?n (buf (rsp p)) = mem_slice (?n + NBD_REPLY_SIZE) ?n (take (iob_size (rsp p)) (buf (rsp p)))"
      using assms(8) by (simp add: mem_slice_def drop_take min_def)
    also have "\<dots> = mem_slice (?f + ?n) ?n file"
      using assms(6,9) by (simp add: assms(10) mem_slice_def drop_take min_def add.commute)
    finally show ?thesis .
  qed
  have sl: "length (mem_slice (?f + ?n) ?n file) = ?n" using assms(6) by simp
  let ?b = "mem_slice (?f + ?n) ?n file @ drop ?n (pf_buffer pf)"
  have w: "mem_write 0 (mem_slice (?f + ?n) ?n file) (pf_buffer pf) = Some ?b"
    using assms(5) sl by (subst mem_write_Some) simp_all
  define pf1 where "pf1 = pf\<lparr>pf_buffer := ?b, pf_from := rq_from (req_hdr p) + ucast ?o, pf_len := ?o, is_full := True\<rparr>"
  have frm: "unat (rq_from (req_hdr p) + ucast ?o) = ?f + ?n"
    using assms(6,7) by (subst unat_add_u64) simp_all
  define p1 where "p1 = p\<lparr>prefetch := Some pf1, req_hdr := (req_hdr p)\<lparr>rq_len := ?o\<rparr>,
      rsp := (rsp p)\<lparr>iob_size := NBD_REPLY_SIZE + ?n\<rparr>, is_prefetch_req := False\<rparr>"
  have "proxy_prefetch_for_reply st p = Some (st, p1)"
    using assms(1-3) bl w
    by (simp add: proxy_prefetch_for_reply_def Let_def d src assms(8) size_t_minus_def prefetch_set_is_full_def
        prefetch_set_full_def p1_def pf1_def)
  moreover have "cached file pf1" using assms(5,6) sl frm by (simp add: cached_def pf1_def)
  moreover have "take (NBD_REPLY_SIZE + ?n) (buf (rsp p)) = head @ mem_slice ?f ?n file"
  proof -
    have "take (NBD_REPLY_SIZE + ?n) (buf (rsp p)) = take (NBD_REPLY_SIZE + ?n) (take (iob_size (rsp p)) (buf (rsp p)))"
      using assms(8) by (simp add: min_def)
    then show ?thesis using assms(9) by (simp add: assms(10) mem_slice_def min_def)
  qed
  ultimately show ?thesis using frm by (auto simp: p1_def pf1_def)
qed

lemma prefetching_fits:
  assumes "prefetching p" "2 * unat (rq_len (req_hdr p)) < 2 ^ 32"
  shows "unat (rq_from (req_hdr p)) + 2 * unat (rq_len (req_hdr p)) \<le> unat (upstream_size p)"
    "unat (rq_len (req_hdr p)) \<le> prefetch_size (prefetch p)" "rq_type (req_hdr p) = REQUEST_READ"
    "unat (rq_len (req_hdr p) * 2) = 2 * unat (rq_len (req_hdr p))"
proof -
  let ?f = "rq_from (req_hdr p)" and ?e = "rq_from (req_hdr p) + ucast (rq_len (req_hdr p) * 2) :: u64"
  show two: "unat (rq_len (req_hdr p) * 2) = 2 * unat (rq_len (req_hdr p))" using assms(2) by (simp add: unat_word_ariths)
  have b: "?f < ?e" "?e \<le> upstream_size p" using assms(1) by (simp_all add: prefetching_def Let_def)
  have "unat ?e = unat ?f + unat (ucast (rq_len (req_hdr p) * 2) :: u64)"
    using b(1) no_olen_add_nat [of ?f "ucast (rq_len (req_hdr p) * 2)"] by (intro unat_add_u64) (simp add: less_imp_le)
  with b(2) two show "unat ?f + 2 * unat (rq_len (req_hdr p)) \<le> unat (upstream_size p)" by (simp add: word_le_nat_alt)
  show "unat (rq_len (req_hdr p)) \<le> prefetch_size (prefetch p)" "rq_type (req_hdr p) = REQUEST_READ"
    using assms(1) by (simp_all add: prefetching_def Let_def)
qed

definition answers_read :: "byte list \<Rightarrow> u64 \<Rightarrow> u32 \<Rightarrow> byte list \<Rightarrow> iobuf \<Rightarrow> bool" where
  "answers_read file from len head iob \<longleftrightarrow> length head = NBD_REPLY_SIZE
     \<and> iob_size iob = NBD_REPLY_SIZE + unat len \<and> iob_size iob \<le> length (buf iob)
     \<and> take (iob_size iob) (buf iob) = head @ mem_slice (unat from) (unat len) file"

definition cache_answers :: "byte list \<Rightarrow> nat \<Rightarrow> nat \<Rightarrow> prefetch \<Rightarrow> bool" where
  "cache_answers file lo hi pf \<longleftrightarrow>
     (\<forall>q st. prefetch q = Some pf \<and> rq_type (req_hdr q) = REQUEST_READ \<and> lo \<le> unat (rq_from (req_hdr q))
        \<and> unat (rq_from (req_hdr q)) + unat (rq_len (req_hdr q)) \<le> hi \<and> NBD_REPLY_SIZE + unat (rq_len (req_hdr q)) \<le> length (buf (rsp q))
        \<longrightarrow> (\<exists>q'. proxy_prefetch_for_request st q = Some (WRITE_TO_DOWNSTREAM, q') \<and> needle (rsp q') = 0
              \<and> answers_read file (rq_from (req_hdr q)) (rq_len (req_hdr q)) (success_reply (rq_handle (req_hdr q))) (rsp q')))"

lemma cached_answers:
  assumes "cached file pf" "is_full pf" "length file < 2 ^ 64"
  shows "cache_answers file (unat (pf_from pf)) (unat (pf_from pf) + unat (pf_len pf)) pf"
  unfolding cache_answers_def
proof (intro allI impI, elim conjE)
  fix q :: proxier and st assume q: "prefetch q = Some pf" "rq_type (req_hdr q) = REQUEST_READ" "unat (pf_from pf) \<le> unat (rq_from (req_hdr q))"
    "unat (rq_from (req_hdr q)) + unat (rq_len (req_hdr q)) \<le> unat (pf_from pf) + unat (pf_len pf)"
    "NBD_REPLY_SIZE + unat (rq_len (req_hdr q)) \<le> length (buf (rsp q))"
  from prefetch_hit_bytes [OF assms(1) q(1) assms(2,3) q(2-5)]
  show "\<exists>q'. proxy_prefetch_for_request st q = Some (WRITE_TO_DOWNSTREAM, q') \<and> needle (rsp q') = 0
     \<and> answers_read file (rq_from (req_hdr q)) (rq_len (req_hdr q)) (success_reply (rq_handle (req_hdr q))) (rsp q')"
    by (auto simp: answers_read_def)
qed


definition cached_read :: proxier where
  "cached_read = (new_proxier (AF_UNIX []) 0 (AF_UNIX []) 0 None 30 (Some (prefetch_create 4)))
     \<lparr>req_hdr := \<lparr>rq_magic = REQUEST_MAGIC, rq_flags = 0, rq_type = REQUEST_READ, rq_handle = 7, rq_from = 2, rq_len = 3\<rparr>,
      upstream_size := 16, req := zero_iobuf 28\<rparr>"


text \<open>The containment test wraps.  When the end of the requested range, taken modulo 2^64, is not
  past the end of the cached range, the test succeeds although the request starts above it, and the
  copy of the answer leaves the cache buffer.\<close>

theorem prefetch_contains_wraps:
  assumes "prefetch p = Some pf" "is_full pf" "rq_type (req_hdr p) = REQUEST_READ"
    and "unat (rq_from (req_hdr p)) + unat (rq_len (req_hdr p)) \<ge> 2 ^ 64"
    and "unat (rq_from (req_hdr p)) + unat (rq_len (req_hdr p)) - 2 ^ 64 \<le> unat (pf_from pf) + unat (pf_len pf)"
    and "unat (pf_from pf) + unat (pf_len pf) < 2 ^ 64" "pf_from pf \<le> rq_from (req_hdr p)"
    and "unat (pf_from pf) + length (pf_buffer pf) < 2 ^ 64"
  shows "proxy_prefetch_for_request st p = None"
proof -
  let ?f = "rq_from (req_hdr p)" and ?n = "rq_len (req_hdr p)"
  have n: "unat ?n < 2 ^ 32" using unsigned_less [of ?n] by simp
  have "unat (?f + ucast ?n) = (unat ?f + unat ?n) mod 2 ^ 64" by (simp add: unat_word_ariths)
  also have "\<dots> = unat ?f + unat ?n - 2 ^ 64"
  proof -
    have "unat ?f + unat ?n < 2 ^ 64 + 2 ^ 64" using n by (intro add_strict_mono) simp_all
    then have "(unat ?f + unat ?n - 2 ^ 64) mod 2 ^ 64 = unat ?f + unat ?n - 2 ^ 64"
      by (intro mod_less) (simp only: less_diff_conv2 [OF assms(4)])
    then show ?thesis using le_mod_geq [OF assms(4)] by presburger
  qed
  finally have "prefetch_contains pf ?f ?n"
    using assms(5-7) by (simp add: prefetch_contains_def word_le_nat_alt unat_add_u64)
  moreover have "prefetch_offset pf ?f = unat ?f - unat (pf_from pf)"
    using assms(7) by (intro prefetch_offset_nat) (simp add: word_le_nat_alt)
  ultimately show ?thesis
    using assms(1-4,7,8) by (simp add: proxy_prefetch_for_request_def prefetch_hit_def Let_def word_le_nat_alt)
qed

theorem prefetch_contains_wraps_witness:
  "proxy_prefetch_for_request WRITE_TO_UPSTREAM
     (cached_read\<lparr>prefetch := Some ((prefetch_create 4)\<lparr>is_full := True, pf_from := 5, pf_len := 3\<rparr>),
        req_hdr := \<lparr>rq_magic = REQUEST_MAGIC, rq_flags = 0, rq_type = REQUEST_READ, rq_handle = 7,
          rq_from = 0xFFFFFFFFFFFFFE00, rq_len = 0x200\<rparr>\<rparr>) = None"
  by (rule prefetch_contains_wraps [where pf = "(prefetch_create 4)\<lparr>is_full := True, pf_from := 5, pf_len := 3\<rparr>"])
    (simp_all add: prefetch_create_def)

text \<open>A cache of more than 16 MiB.  A read of more than half of \<open>NBD_MAX_SIZE\<close> bytes that fits the cache
  is doubled all the same, and the reply then does not fit the reply buffer: reading its payload
  leaves the buffer.\<close>

theorem doubled_read_overruns_reply_buffer:
  assumes "prefetch p = Some pf" "\<not> is_full pf" "prefetching p" "NBD_REQUEST_SIZE \<le> length (buf (req p))"
    and "NBD_MAX_SIZE < 2 * unat (rq_len (req_hdr p))" "unat (rq_len (req_hdr p)) \<le> NBD_MAX_SIZE"
    and "length (buf (rsp p)) = NBD_MAX_SIZE + NBD_REPLY_SIZE" "needle (rsp p) = 0"
    and "length reply = NBD_REPLY_SIZE" "rp_magic (nbd_r2h_reply (reply_raw_of reply)) = REPLY_MAGIC"
    and "length payload = 2 * unat (rq_len (req_hdr p))" 
  shows "\<exists>p1 p2. proxy_prefetch_for_request WRITE_TO_UPSTREAM p = Some (WRITE_TO_UPSTREAM, p1)
    \<and> proxy_read_from_upstream (p1\<lparr>up_in := [Avail reply, Avail payload]\<rparr>) = Some (READ_FROM_UPSTREAM, p2)
    \<and> proxy_read_from_upstream p2 = None"
proof -
  let ?n = "unat (rq_len (req_hdr p))"
  have two: "unat (rq_len (req_hdr p) * 2) = 2 * ?n"
    using assms(6) by (simp add: unat_word_ariths NBD_MAX_SIZE_def)
  have rd: "rq_type (req_hdr p) = REQUEST_READ" using assms(3) by (simp add: prefetching_def Let_def)
  obtain p1 where p1: "proxy_prefetch_for_request WRITE_TO_UPSTREAM p = Some (WRITE_TO_UPSTREAM, p1)" "rsp p1 = rsp p"
    "rq_type (req_hdr p1) = REQUEST_READ" "rq_len (req_hdr p1) = rq_len (req_hdr p) * 2"
    using assms(1-4) rd by (auto simp: proxy_prefetch_for_request_def prefetch_rewrite_def Let_def)
  have b: "mem_write 0 reply (buf (rsp p)) = Some (reply @ drop NBD_REPLY_SIZE (buf (rsp p)))"
    using assms(7,9) by (simp add: mem_write_Some)
  have "reply_raw_of (reply @ drop NBD_REPLY_SIZE (buf (rsp p))) = reply_raw_of reply"
    using assms(9) by (simp add: reply_raw_of_def mem_slice_def NBD_REPLY_SIZE_def)
  then have "\<exists>p2. proxy_read_from_upstream (p1\<lparr>up_in := [Avail reply, Avail payload]\<rparr>) = Some (READ_FROM_UPSTREAM, p2)
      \<and> rsp p2 = \<lparr>buf = reply @ drop NBD_REPLY_SIZE (buf (rsp p)), iob_size = NBD_REPLY_SIZE + 2 * ?n, needle = NBD_REPLY_SIZE\<rparr>
      \<and> up_in p2 = [Avail payload]"
    using p1 b assms(5,8-10) two
    by (auto simp: proxy_read_from_upstream_def iobuf_read_def proxy_reply_read_def Let_def size_t_minus_def
        NBD_REPLY_SIZE_def NBD_MAX_SIZE_def simp del: mem_write.simps)
  then obtain p2 where p2: "proxy_read_from_upstream (p1\<lparr>up_in := [Avail reply, Avail payload]\<rparr>) = Some (READ_FROM_UPSTREAM, p2)"
    "rsp p2 = \<lparr>buf = reply @ drop NBD_REPLY_SIZE (buf (rsp p)), iob_size = NBD_REPLY_SIZE + 2 * ?n, needle = NBD_REPLY_SIZE\<rparr>"
    "up_in p2 = [Avail payload]" by blast
  have "payload \<noteq> []" using assms(5,11) by auto
  then have "proxy_read_from_upstream p2 = None"
    using p2(2,3) assms(5,7,9,11)
    by (simp add: proxy_read_from_upstream_def iobuf_read_def Let_def size_t_minus_def NBD_REPLY_SIZE_def NBD_MAX_SIZE_def)
  with p1(1) p2(1) show ?thesis by blast
qed

definition big_read :: proxier where
  "big_read = (new_proxier (AF_UNIX []) 0 (AF_UNIX []) 0 None 30 (Some (prefetch_create NBD_MAX_SIZE)))
     \<lparr>req_hdr := \<lparr>rq_magic = REQUEST_MAGIC, rq_flags = 0, rq_type = REQUEST_READ, rq_handle = 7, rq_from = 0, rq_len = 0x2000000\<rparr>,
      upstream_size := 0x10000000\<rparr>"

lemma big_read_facts:
  "prefetch big_read = Some (prefetch_create NBD_MAX_SIZE)" "unat (rq_len (req_hdr big_read)) = NBD_MAX_SIZE" "prefetching big_read"
  "length (buf (req big_read)) = NBD_MAX_SIZE + NBD_REQUEST_SIZE" "length (buf (rsp big_read)) = NBD_MAX_SIZE + NBD_REPLY_SIZE"
  "needle (rsp big_read) = 0"
proof -
  show "prefetching big_read"
    by (simp add: big_read_def new_proxier_def prefetching_def prefetch_size_def prefetch_create_def) (simp add: NBD_MAX_SIZE_def)
  show "unat (rq_len (req_hdr big_read)) = NBD_MAX_SIZE"
    by (simp add: big_read_def) (simp add: NBD_MAX_SIZE_def)
qed (simp_all add: big_read_def new_proxier_def zero_iobuf_def)

theorem doubled_read_overruns_reply_buffer_witness:
  "\<exists>p1 p2. proxy_prefetch_for_request WRITE_TO_UPSTREAM big_read = Some (WRITE_TO_UPSTREAM, p1)
    \<and> proxy_read_from_upstream (p1\<lparr>up_in := [Avail (success_reply 7), Avail (replicate (2 * NBD_MAX_SIZE) 0)]\<rparr>) = Some (READ_FROM_UPSTREAM, p2)
    \<and> proxy_read_from_upstream p2 = None"
proof (rule doubled_read_overruns_reply_buffer [where pf = "prefetch_create NBD_MAX_SIZE"])
  show "NBD_MAX_SIZE < 2 * unat (rq_len (req_hdr big_read))" by (simp add: big_read_facts) (simp add: NBD_MAX_SIZE_def)
  show "\<not> is_full (prefetch_create NBD_MAX_SIZE)" by (simp add: prefetch_create_def)
  show "rp_magic (nbd_r2h_reply (reply_raw_of (success_reply 7))) = REPLY_MAGIC" by (simp add: reply_bytes_def)
qed (simp_all add: big_read_facts)

end
