(* ===== verification/Relay.thy ===== *)
theory Relay
  imports Proxy "HOL-Library.Sublist"
begin

text \<open>
  What a session of the proxy without a cache does to the two byte streams.  The ghost data \<open>relay\<close>
  names everything the client sends, the hello, and what each upstream connection will send;
  \<open>relay_inv\<close> says, for each state of the machine, how the two outputs are made of whole requests and
  whole replies.  One lemma per handler shows that it stays inside its buffers and keeps the invariant
  (\<open>read_from_downstream_ok\<close>, \<open>write_to_upstream_ok\<close>, \<open>read_from_upstream_ok\<close>, \<open>hello_write_ok\<close>,
  \<open>reply_write_ok\<close>, \<open>read_init_ok\<close>, \<open>continue_connecting_ok\<close>); \<open>turn_ok\<close> and \<open>turns_ok\<close> lift
  them to turns of the session loop, reconnections included.  The lemmas \<open>..._at_once\<close> compute one
  handler each when the peer does not split its messages.

  The hypothesis \<open>truly_ready\<close> is that a socket that select() reports readable does not then fail with
  EAGAIN or EINTR: the two reading handlers decode their header whenever the needle stands at its end, so
  a read of nothing there would add the length of the request to the buffer size a second time.
\<close>

subsection \<open>Whole messages\<close>

definition rd_bytes :: "rd list \<Rightarrow> byte list" where
  "rd_bytes es = concat (map (\<lambda>e. case e of Avail bs \<Rightarrow> bs | RdFail _ \<Rightarrow> []) es)"

definition req_of :: "byte list \<Rightarrow> nbd_request" where
  "req_of q = nbd_r2h_request (request_raw_of q)"

definition rep_of :: "byte list \<Rightarrow> nbd_reply" where
  "rep_of r = nbd_r2h_reply (reply_raw_of r)"

definition allowed :: "nbd_request \<Rightarrow> bool" where
  "allowed h \<longleftrightarrow> rq_type h \<noteq> REQUEST_DISCONNECT
     \<and> (rq_type h = REQUEST_READ \<or> rq_type h = REQUEST_WRITE \<longrightarrow> unat (rq_len h) \<le> NBD_MAX_SIZE)"

definition req_total :: "nbd_request \<Rightarrow> nat" where
  "req_total h = NBD_REQUEST_SIZE + (if rq_type h = REQUEST_WRITE then unat (rq_len h) else 0)"

definition rsp_total :: "nbd_request \<Rightarrow> nat" where
  "rsp_total h = NBD_REPLY_SIZE + (if rq_type h = REQUEST_READ then unat (rq_len h) else 0)"

definition whole_request :: "byte list \<Rightarrow> bool" where
  "whole_request q \<longleftrightarrow> NBD_REQUEST_SIZE \<le> length q \<and> allowed (req_of q) \<and> length q = req_total (req_of q)"

definition whole_reply :: "byte list \<Rightarrow> byte list \<Rightarrow> bool" where
  "whole_reply q r \<longleftrightarrow> rp_magic (rep_of r) = REPLY_MAGIC \<and> length r = rsp_total (req_of q)"

definition relayed_pair :: "byte list set \<Rightarrow> byte list \<times> byte list \<Rightarrow> bool" where
  "relayed_pair K x = (case x of (q, r) \<Rightarrow> whole_request q \<and> whole_reply q r \<and> (\<exists>U\<in>K. sublist r U))"

abbreviation got :: "iobuf \<Rightarrow> byte list" where "got b \<equiv> mem_slice 0 (needle b) (buf b)"
abbreviation all_of :: "iobuf \<Rightarrow> byte list" where "all_of b \<equiv> mem_slice 0 (iob_size b) (buf b)"

subsection \<open>The invariant\<close>

definition bufs_ok :: "proxier \<Rightarrow> bool" where
  "bufs_ok p \<longleftrightarrow> iobuf_ok (init p) \<and> iobuf_ok (req p) \<and> iobuf_ok (rsp p) \<and> length (buf (init p)) = NBD_INIT_SIZE
     \<and> length (buf (req p)) = NBD_MAX_SIZE + NBD_REQUEST_SIZE \<and> length (buf (rsp p)) = NBD_MAX_SIZE + NBD_REPLY_SIZE"

definition reading_request :: "proxier \<Rightarrow> bool" where
  "reading_request p \<longleftrightarrow> needle (req p) = 0 \<or> needle (req p) < NBD_REQUEST_SIZE \<and> iob_size (req p) = NBD_REQUEST_SIZE
     \<or> NBD_REQUEST_SIZE \<le> needle (req p) \<and> needle (req p) < iob_size (req p)
        \<and> req_hdr p = req_of (buf (req p)) \<and> allowed (req_hdr p) \<and> iob_size (req p) = req_total (req_hdr p)"

definition reading_reply :: "proxier \<Rightarrow> bool" where
  "reading_reply p \<longleftrightarrow> needle (rsp p) = 0 \<or> needle (rsp p) < NBD_REPLY_SIZE \<and> iob_size (rsp p) = NBD_REPLY_SIZE
     \<or> NBD_REPLY_SIZE \<le> needle (rsp p) \<and> needle (rsp p) < iob_size (rsp p)
        \<and> rp_magic (rep_of (buf (rsp p))) = REPLY_MAGIC \<and> iob_size (rsp p) = rsp_total (req_hdr p)"

definition holds_request :: "proxier \<Rightarrow> bool" where
  "holds_request p \<longleftrightarrow> whole_request (all_of (req p)) \<and> req_hdr p = req_of (all_of (req p))"

definition up_link :: "byte list set \<Rightarrow> byte list \<Rightarrow> proxier \<Rightarrow> bool" where
  "up_link K cur p \<longleftrightarrow> (\<exists>U\<in>K. \<exists>x. U = x @ cur @ rd_bytes (up_in p))"

definition sent_up :: "byte list \<Rightarrow> (byte list \<times> byte list) list \<Rightarrow> byte list \<Rightarrow> proxier \<Rightarrow> bool" where
  "sent_up B done cur p \<longleftrightarrow>
     (\<exists>b mine. (b = B \<or> b = []) \<and> suffix mine done \<and> up_out p = b @ concat (map fst mine) @ cur)"

record relay =
  r_conns :: "byte list set"
  r_input :: "byte list"
  r_hello :: "byte list"
  r_base :: "byte list"

definition relayed :: "relay \<Rightarrow> proxier \<Rightarrow> bool" where
  "relayed R p \<longleftrightarrow> (\<exists>done. list_all (relayed_pair (r_conns R)) done
     \<and> prefix (down_out p) (r_hello R @ concat (map snd done)) \<and> prefix (concat (map fst done)) (r_input R))"

definition out_is :: "relay \<Rightarrow> (byte list \<times> byte list) list \<Rightarrow> byte list \<Rightarrow> proxier \<Rightarrow> bool" where
  "out_is R done cur p \<longleftrightarrow> down_out p = r_hello R @ concat (map snd done) @ cur"

definition in_is :: "relay \<Rightarrow> (byte list \<times> byte list) list \<Rightarrow> byte list \<Rightarrow> proxier \<Rightarrow> bool" where
  "in_is R done cur p \<longleftrightarrow> r_input R = concat (map fst done) @ cur @ rd_bytes (down_in p)"

definition relay_inv :: "relay \<Rightarrow> (byte list \<times> byte list) list \<Rightarrow> proxy_session_states \<Rightarrow> proxier \<Rightarrow> bool" where
  "relay_inv R done st p \<longleftrightarrow>
     bufs_ok p \<and> prefetch p = None \<and> list_all (relayed_pair (r_conns R)) done \<and>
     (if st = EXIT then relayed R p
      else if \<not> hello_sent p then
        st = WRITE_TO_DOWNSTREAM \<and> done = [] \<and> all_of (rsp p) = r_hello R \<and> down_out p = got (rsp p) \<and> in_is R [] [] p
        \<and> up_link (r_conns R) [] p \<and> sent_up (r_base R) [] [] p
      else
        (case st of
           EXIT \<Rightarrow> True
         | READ_FROM_DOWNSTREAM \<Rightarrow> out_is R done [] p \<and> in_is R done (got (req p)) p \<and> reading_request p \<and> needle (rsp p) = 0
             \<and> up_link (r_conns R) [] p \<and> sent_up (r_base R) done [] p
         | WRITE_TO_UPSTREAM \<Rightarrow> out_is R done [] p \<and> in_is R done (all_of (req p)) p \<and> holds_request p \<and> needle (rsp p) = 0
             \<and> up_link (r_conns R) [] p \<and> sent_up (r_base R) done (got (req p)) p
         | READ_FROM_UPSTREAM \<Rightarrow> out_is R done [] p \<and> in_is R done (all_of (req p)) p \<and> holds_request p \<and> reading_reply p
             \<and> up_link (r_conns R) (got (rsp p)) p \<and> sent_up (r_base R) done (all_of (req p)) p
         | WRITE_TO_DOWNSTREAM \<Rightarrow> out_is R done (got (rsp p)) p \<and> in_is R done (all_of (req p)) p \<and> holds_request p
             \<and> relayed_pair (r_conns R) (all_of (req p), all_of (rsp p))
             \<and> up_link (r_conns R) [] p \<and> sent_up (r_base R) done (all_of (req p)) p
         | CONNECT_TO_UPSTREAM \<Rightarrow> out_is R done [] p \<and> in_is R done (all_of (req p)) p \<and> holds_request p
         | READ_INIT_FROM_UPSTREAM \<Rightarrow> out_is R done [] p \<and> in_is R done (all_of (req p)) p \<and> holds_request p
             \<and> needle (rsp p) = 0 \<and> needle (req p) = 0 \<and> up_link (r_conns R) [] p \<and> up_out p = []))"

definition truly_ready :: "tick \<Rightarrow> proxy_session_states \<Rightarrow> proxier \<Rightarrow> bool" where
  "truly_ready t st p \<longleftrightarrow> t_select t = SelectReady \<longrightarrow>
     (st = READ_FROM_DOWNSTREAM \<longrightarrow> (\<forall>e es. down_in p = RdFail e # es \<longrightarrow> io_errno_permanent e))
     \<and> (st = READ_FROM_UPSTREAM \<longrightarrow> (\<forall>e es. up_in p = RdFail e # es \<longrightarrow> io_errno_permanent e))"

subsection \<open>One read\<close>

lemma sys_read_bytes: "sys_read n es = (Inr bs, es') \<Longrightarrow> rd_bytes es = bs @ rd_bytes es'"
  by (cases "(n, es)" rule: sys_read.cases) (auto simp: rd_bytes_def split: if_splits)

lemma sys_read_fail_bytes: "sys_read n es = (Inl e, es') \<Longrightarrow> rd_bytes es = rd_bytes es'"
  by (cases "(n, es)" rule: sys_read.cases) (auto simp: rd_bytes_def split: if_splits)

lemma iobuf_read_cases:
  assumes "iobuf_ok iob" "d \<le> length (buf iob)"
  obtains n e iob' es' bs where "iobuf_read es errno iob d = Some (n, e, iob', es')" "iobuf_ok iob'"
    "length (buf iob') = length (buf iob)" "iob_size iob' = (if needle iob = 0 then d else iob_size iob)"
    "needle iob' = needle iob + length bs" "got iob' = got iob @ bs" "rd_bytes es = bs @ rd_bytes es'"
    "n \<le> 0 \<longleftrightarrow> bs = []" "n = 0 \<or> n = -1 \<or> 0 < n" "n = 0 \<longrightarrow> (\<exists>e. es = RdFail e # es' \<and> \<not> io_errno_permanent e)"
proof -
  obtain n e iob' es' bs where s: "iobuf_read es errno iob d = Some (n, e, iob', es')" "iobuf_ok iob'"
    "length (buf iob') = length (buf iob)" "iob_size iob' = (if needle iob = 0 then d else iob_size iob)"
    "needle iob' = needle iob + length bs" "got iob' = got iob @ bs"
    "0 < n \<longrightarrow> n = int (length bs) \<and> sys_read (iob_size iob' - needle iob) es = (Inr bs, es')" "n \<le> 0 \<longrightarrow> bs = []"
    using iobuf_read_spec [OF assms, of es errno] by blast
  have 1: "rd_bytes es = bs @ rd_bytes es'" "n = 0 \<or> n = -1 \<or> 0 < n" "n = 0 \<longrightarrow> (\<exists>e. es = RdFail e # es' \<and> \<not> io_errno_permanent e)"
    if "n \<le> 0"
    using s(1,8) that
    by (auto simp: iobuf_read_def Let_def simp del: mem_write.simps dest: sys_read_bytes sys_read_fail_bytes sys_read_fail
        split: prod.splits sum.splits if_splits option.splits)
  have 2: "rd_bytes es = bs @ rd_bytes es'" "n = 0 \<or> n = -1 \<or> 0 < n" if "0 < n"
    using s(7) that by (auto dest: sys_read_bytes)
  have 3: "n \<le> 0 \<longleftrightarrow> bs = []" using s(7,8) by auto
  have 4: "n = 0 \<longrightarrow> (\<exists>e. es = RdFail e # es' \<and> \<not> io_errno_permanent e)" using 1(3) by auto
  show ?thesis
    by (rule that [OF s(1-6) _ 3 _ 4]) (use 1(1,2) 2 not_le in metis)+
qed

lemma mem_slice_0 [simp]: "mem_slice i 0 m = []"
  by (simp add: mem_slice_def)

lemma slice_take [simp]: "i + k \<le> n \<Longrightarrow> mem_slice i k (mem_slice 0 n m) = mem_slice i k m"
  by (simp add: mem_slice_def drop_take min_def)

lemma req_of_slice [simp]: "NBD_REQUEST_SIZE \<le> n \<Longrightarrow> req_of (mem_slice 0 n m) = req_of m"
  by (simp add: req_of_def request_raw_of_def NBD_REQUEST_SIZE_def)

lemma rep_of_slice [simp]: "NBD_REPLY_SIZE \<le> n \<Longrightarrow> rep_of (mem_slice 0 n m) = rep_of m"
  by (simp add: rep_of_def reply_raw_of_def NBD_REPLY_SIZE_def)

lemma got_le: "iobuf_ok b \<Longrightarrow> length (got b) = needle b" "iobuf_ok b \<Longrightarrow> length (all_of b) = iob_size b"
  by (simp_all add: iobuf_ok_def)

lemmas relay_defs = in_is_def out_is_def

lemma relayedI:
  "list_all (relayed_pair (r_conns R)) done \<Longrightarrow> out_is R done [] p \<Longrightarrow> in_is R done x p \<Longrightarrow> relayed R p"
  unfolding relayed_def out_is_def in_is_def by (intro exI [of _ "done"]) auto

lemma req_of_grown:
  "got b' = got b @ bs \<Longrightarrow> NBD_REQUEST_SIZE \<le> needle b \<Longrightarrow> needle b' = needle b + length bs \<Longrightarrow> iobuf_ok b
     \<Longrightarrow> req_of (buf b') = req_of (buf b)"
  using req_of_slice [of "needle b'" "buf b'"] req_of_slice [of "needle b" "got b @ bs"] by (simp add: iobuf_ok_def)

subsection \<open>Reading a request\<close>

definition between_requests :: "relay \<Rightarrow> (byte list \<times> byte list) list \<Rightarrow> proxier \<Rightarrow> bool" where
  "between_requests R done p \<longleftrightarrow> bufs_ok p \<and> prefetch p = None \<and> list_all (relayed_pair (r_conns R)) done \<and> hello_sent p
     \<and> out_is R done [] p \<and> in_is R done (got (req p)) p \<and> needle (rsp p) = 0 \<and> up_link (r_conns R) [] p
     \<and> sent_up (r_base R) done [] p"

lemma relay_inv_reading: "relay_inv R done READ_FROM_DOWNSTREAM p \<longleftrightarrow> between_requests R done p \<and> reading_request p"
  by (auto simp: relay_inv_def between_requests_def split: if_splits)

lemma relay_inv_exit: "between_requests R done p \<Longrightarrow> relay_inv R done EXIT p"
  by (auto simp: between_requests_def relay_inv_def intro: relayedI)

lemma request_header_known:
  assumes "between_requests R done p" "NBD_REQUEST_SIZE \<le> needle (req p)" "req_hdr p = req_of (buf (req p))"
    "allowed (req_hdr p)" "iob_size (req p) = req_total (req_hdr p)"
  shows "needle (req p) \<noteq> iob_size (req p) \<Longrightarrow> relay_inv R done READ_FROM_DOWNSTREAM p"
    "needle (req p) = iob_size (req p) \<Longrightarrow> relay_inv R done WRITE_TO_UPSTREAM (p\<lparr>req := (req p)\<lparr>needle := 0\<rparr>\<rparr>)"
proof -
  have ok: "iobuf_ok (req p)" using assms(1) by (simp add: bufs_ok_def between_requests_def)
  show "relay_inv R done READ_FROM_DOWNSTREAM p" if "needle (req p) \<noteq> iob_size (req p)"
    using assms that ok by (simp add: relay_inv_reading reading_request_def iobuf_ok_def)
  show "relay_inv R done WRITE_TO_UPSTREAM (p\<lparr>req := (req p)\<lparr>needle := 0\<rparr>\<rparr>)" if "needle (req p) = iob_size (req p)"
    using assms that ok
    by (simp add: relay_inv_def holds_request_def whole_request_def iobuf_ok_def relay_defs up_link_def sent_up_def bufs_ok_def
        between_requests_def)
qed

lemma request_read_short:
  "between_requests R done p \<Longrightarrow> needle (req p) < NBD_REQUEST_SIZE \<Longrightarrow> iob_size (req p) = NBD_REQUEST_SIZE
     \<Longrightarrow> proxy_request_read p = Some (READ_FROM_DOWNSTREAM, p) \<and> relay_inv R done READ_FROM_DOWNSTREAM p"
  by (simp add: proxy_request_read_def relay_inv_reading reading_request_def)

lemma request_read_longer:
  assumes "between_requests R done p" "NBD_REQUEST_SIZE < needle (req p)" "req_hdr p = req_of (buf (req p))"
    "allowed (req_hdr p)" "iob_size (req p) = req_total (req_hdr p)"
  shows "\<exists>st p'. proxy_request_read p = Some (st, p') \<and> relay_inv R done st p'"
  using request_header_known [OF assms(1) _ assms(3-5)] assms(2) by (simp add: proxy_request_read_def Let_def)

lemma request_read_fresh:
  assumes "between_requests R done p" "needle (req p) = NBD_REQUEST_SIZE" "iob_size (req p) = NBD_REQUEST_SIZE"
  shows "\<exists>st p'. proxy_request_read p = Some (st, p') \<and> relay_inv R done st p'"
proof -
  let ?h = "req_of (buf (req p))"
  define p2 where "p2 = p\<lparr>req_hdr := ?h\<rparr>"
  have c2: "between_requests R done p2"
    using assms(1) by (simp add: between_requests_def p2_def bufs_ok_def up_link_def sent_up_def relay_defs)
  show ?thesis
  proof (cases "allowed ?h")
    case False
    then have "proxy_request_read p = Some (EXIT, p2)"
      using assms(2) by (auto simp: proxy_request_read_def allowed_def p2_def req_of_def Let_def)
    with relay_inv_exit [OF c2] show ?thesis by simp
  next
    case True
    define p3 where "p3 = (if rq_type ?h = REQUEST_WRITE then p2\<lparr>req := (req p)\<lparr>iob_size := iob_size (req p) + unat (rq_len ?h)\<rparr>\<rparr> else p2)"
    have c3: "between_requests R done p3"
      using c2 True assms(2,3)
      by (auto simp: p3_def p2_def bufs_ok_def allowed_def iobuf_ok_def between_requests_def up_link_def sent_up_def relay_defs)
    have "needle (req p3) = NBD_REQUEST_SIZE" "req_hdr p3 = req_of (buf (req p3))" "allowed (req_hdr p3)"
      "iob_size (req p3) = req_total (req_hdr p3)"
      using assms(2,3) True by (simp_all add: p3_def p2_def req_total_def)
    note known = request_header_known [OF c3 _ this(2-4)] this(1)
    have "proxy_request_read p = Some (if needle (req p3) = iob_size (req p3)
        then (WRITE_TO_UPSTREAM, p3\<lparr>req := (req p3)\<lparr>needle := 0\<rparr>\<rparr>) else (READ_FROM_DOWNSTREAM, p3))"
      using assms(2) True by (auto simp: proxy_request_read_def Let_def p2_def p3_def allowed_def req_of_def)
    with known show ?thesis by simp
  qed
qed

lemma read_from_downstream_ok:
  assumes inv: "relay_inv R done READ_FROM_DOWNSTREAM p" and sel: "truly_ready t READ_FROM_DOWNSTREAM p" "t_select t = SelectReady"
  shows "\<exists>st p'. proxy_read_from_downstream p = Some (st, p') \<and> relay_inv R done st p'"
proof -
  have i: "between_requests R done p" "reading_request p" using inv by (simp_all add: relay_inv_reading)
  then have b: "iobuf_ok (req p)" "NBD_REQUEST_SIZE \<le> length (buf (req p))" by (auto simp: bufs_ok_def between_requests_def)
  obtain n e iob es bs where r: "iobuf_read (down_in p) 0 (req p) NBD_REQUEST_SIZE = Some (n, e, iob, es)" "iobuf_ok iob"
    "length (buf iob) = length (buf (req p))" "iob_size iob = (if needle (req p) = 0 then NBD_REQUEST_SIZE else iob_size (req p))"
    "needle iob = needle (req p) + length bs" "got iob = got (req p) @ bs" "rd_bytes (down_in p) = bs @ rd_bytes es"
    "n \<le> 0 \<longleftrightarrow> bs = []" "n = 0 \<or> n = -1 \<or> 0 < n" "n = 0 \<longrightarrow> (\<exists>e. down_in p = RdFail e # es \<and> \<not> io_errno_permanent e)"
    by (rule iobuf_read_cases [OF b])
  define p1 where "p1 = p\<lparr>req := iob, down_in := es\<rparr>"
  have p1: "between_requests R done p1" "req p1 = iob" "req_hdr p1 = req_hdr p"
    using i(1) r(2,3,6,7) by (simp_all add: between_requests_def relay_defs p1_def bufs_ok_def up_link_def sent_up_def)
  have "\<exists>st p'. proxy_request_read p1 = Some (st, p') \<and> relay_inv R done st p'" if "n \<noteq> -1"
  proof -
    have bs: "bs \<noteq> []" using r(8,9,10) sel that by (auto simp: truly_ready_def)
    have pos: "needle (req p) < needle iob" "needle iob \<le> iob_size iob" using r(2,5) bs by (auto simp: iobuf_ok_def)
    have "needle iob < NBD_REQUEST_SIZE \<and> iob_size iob = NBD_REQUEST_SIZE
         \<or> needle iob = NBD_REQUEST_SIZE \<and> iob_size iob = NBD_REQUEST_SIZE
         \<or> NBD_REQUEST_SIZE < needle iob \<and> NBD_REQUEST_SIZE \<le> needle (req p) \<and> req_hdr p = req_of (buf (req p))
           \<and> allowed (req_hdr p) \<and> iob_size iob = req_total (req_hdr p)"
      using i(2) pos r(4) by (auto simp: reading_request_def NBD_REQUEST_SIZE_def split: if_splits)
    then show ?thesis
      using request_read_short [OF p1(1)] request_read_fresh [OF p1(1)] request_read_longer [OF p1(1)]
        req_of_grown [OF r(6) _ r(5) b(1)] p1(2,3) by fastforce
  qed
  with relay_inv_exit [OF p1(1)] show ?thesis
    by (cases "n = -1") (simp_all add: proxy_read_from_downstream_def r(1) p1_def)
qed

subsection \<open>Serving it\<close>

lemma slice_grow: "mem_slice 0 n m @ mem_slice n k m = mem_slice 0 (n + k) m"
  using mem_slice_join [of 0 n m k] by simp

text \<open>A request being served: it is held whole, and everything before it has been answered.\<close>

definition serving :: "relay \<Rightarrow> (byte list \<times> byte list) list \<Rightarrow> proxier \<Rightarrow> bool" where
  "serving R done p \<longleftrightarrow> bufs_ok p \<and> prefetch p = None \<and> list_all (relayed_pair (r_conns R)) done \<and> hello_sent p
     \<and> in_is R done (all_of (req p)) p \<and> holds_request p"

lemma relay_inv_serving:
  "relay_inv R done WRITE_TO_UPSTREAM p \<longleftrightarrow> serving R done p \<and> out_is R done [] p \<and> needle (rsp p) = 0
     \<and> up_link (r_conns R) [] p \<and> sent_up (r_base R) done (got (req p)) p"
  "relay_inv R done READ_FROM_UPSTREAM p \<longleftrightarrow> serving R done p \<and> out_is R done [] p \<and> reading_reply p
     \<and> up_link (r_conns R) (got (rsp p)) p \<and> sent_up (r_base R) done (all_of (req p)) p"
  "relay_inv R done CONNECT_TO_UPSTREAM p \<longleftrightarrow> serving R done p \<and> out_is R done [] p"
  "relay_inv R done READ_INIT_FROM_UPSTREAM p \<longleftrightarrow> serving R done p \<and> out_is R done [] p \<and> needle (rsp p) = 0
     \<and> needle (req p) = 0 \<and> up_link (r_conns R) [] p \<and> up_out p = []"
  by (auto simp: relay_inv_def serving_def split: if_splits)

lemma write_to_upstream_ok:
  assumes "relay_inv R done WRITE_TO_UPSTREAM p"
  shows "\<exists>st p'. proxy_write_to_upstream p = Some (st, p') \<and> relay_inv R done st p'"
proof -
  have i: "serving R done p" "out_is R done [] p" "needle (rsp p) = 0" "up_link (r_conns R) [] p"
    "sent_up (r_base R) done (got (req p)) p" and ok: "iobuf_ok (req p)"
    using assms by (simp_all add: relay_inv_serving serving_def bufs_ok_def)
  obtain n e k out es where w: "iobuf_write (up_wr p) 0 (req p) = Some (n, e, (req p)\<lparr>needle := needle (req p) + k\<rparr>, out, es)"
    "needle (req p) + k \<le> iob_size (req p)" "out = mem_slice (needle (req p)) k (buf (req p))"
    using iobuf_write_spec [OF ok, of "up_wr p" 0] by blast
  define p1 where "p1 = p\<lparr>req := (req p)\<lparr>needle := needle (req p) + k\<rparr>, up_wr := es, up_out := up_out p @ out\<rparr>"
  have s1: "serving R done p1" "out_is R done [] p1" "up_link (r_conns R) [] p1" "needle (rsp p1) = 0"
    using i w(2) by (simp_all add: p1_def serving_def bufs_ok_def relay_defs holds_request_def up_link_def iobuf_ok_def)
  have up: "sent_up (r_base R) done (got (req p1)) p1"
    using i(5) by (fastforce simp: sent_up_def p1_def w(3) slice_grow [symmetric])
  have "relay_inv R done READ_FROM_UPSTREAM (p1\<lparr>req := (req p1)\<lparr>needle := 0\<rparr>\<rparr>)" if "needle (req p1) = iob_size (req p1)"
    using s1 up that by (simp add: relay_inv_serving serving_def bufs_ok_def iobuf_ok_def relay_defs holds_request_def up_link_def
        sent_up_def reading_reply_def)
  moreover have "relay_inv R done WRITE_TO_UPSTREAM p1" "relay_inv R done CONNECT_TO_UPSTREAM p1"
    using s1 up by (simp_all add: relay_inv_serving)
  ultimately show ?thesis by (simp add: proxy_write_to_upstream_def w(1) p1_def Let_def)
qed

lemma rep_of_grown:
  "got b' = got b @ bs \<Longrightarrow> NBD_REPLY_SIZE \<le> needle b \<Longrightarrow> needle b' = needle b + length bs \<Longrightarrow> iobuf_ok b
     \<Longrightarrow> rep_of (buf b') = rep_of (buf b)"
  using rep_of_slice [of "needle b'" "buf b'"] rep_of_slice [of "needle b" "got b @ bs"] by (simp add: iobuf_ok_def)

lemma up_link_drop: "up_link K x p \<Longrightarrow> up_link K [] p"
  unfolding up_link_def by (metis append.assoc append_Nil)

lemma up_link_consume: "up_link K x p \<Longrightarrow> rd_bytes (up_in p) = bs @ rd_bytes (up_in p') \<Longrightarrow> up_link K [] p'"
  unfolding up_link_def by (metis append.assoc append_Nil)

definition awaiting_reply :: "relay \<Rightarrow> (byte list \<times> byte list) list \<Rightarrow> proxier \<Rightarrow> bool" where
  "awaiting_reply R done p \<longleftrightarrow> serving R done p \<and> out_is R done [] p \<and> up_link (r_conns R) (got (rsp p)) p
     \<and> sent_up (r_base R) done (all_of (req p)) p"

lemma relay_inv_awaiting: "relay_inv R done READ_FROM_UPSTREAM p \<longleftrightarrow> awaiting_reply R done p \<and> reading_reply p"
  by (auto simp: relay_inv_serving awaiting_reply_def)

lemma relay_inv_reconnect: "awaiting_reply R done p \<Longrightarrow> relay_inv R done CONNECT_TO_UPSTREAM p"
  by (auto simp: awaiting_reply_def relay_inv_serving)

lemma reply_header_known:
  assumes "awaiting_reply R done p" "NBD_REPLY_SIZE \<le> needle (rsp p)" "rp_magic (rep_of (buf (rsp p))) = REPLY_MAGIC"
    "iob_size (rsp p) = rsp_total (req_hdr p)"
  shows "iob_size (rsp p) \<noteq> needle (rsp p) \<Longrightarrow> relay_inv R done READ_FROM_UPSTREAM p"
    "iob_size (rsp p) = needle (rsp p) \<Longrightarrow> relay_inv R done WRITE_TO_DOWNSTREAM (p\<lparr>rsp := (rsp p)\<lparr>needle := 0\<rparr>\<rparr>)"
proof -
  have ok: "iobuf_ok (rsp p)" "serving R done p" using assms(1) by (auto simp: bufs_ok_def awaiting_reply_def serving_def)
  show "relay_inv R done READ_FROM_UPSTREAM p" if "iob_size (rsp p) \<noteq> needle (rsp p)"
    using assms that ok by (simp add: relay_inv_awaiting reading_reply_def iobuf_ok_def)
  show "relay_inv R done WRITE_TO_DOWNSTREAM (p\<lparr>rsp := (rsp p)\<lparr>needle := 0\<rparr>\<rparr>)" if e: "iob_size (rsp p) = needle (rsp p)"
  proof -
    have "whole_request (all_of (req p))" "req_hdr p = req_of (all_of (req p))"
      using ok(2) by (auto simp: serving_def holds_request_def)
    moreover have "whole_reply (all_of (req p)) (all_of (rsp p))"
      using assms(2-4) e ok(1) calculation(2) by (simp add: whole_reply_def iobuf_ok_def)
    moreover have "\<exists>U\<in>r_conns R. sublist (all_of (rsp p)) U"
      using assms(1) e by (auto simp: awaiting_reply_def up_link_def)
    ultimately have pair: "relayed_pair (r_conns R) (all_of (req p), all_of (rsp p))" by (simp add: relayed_pair_def)
    have "up_link (r_conns R) [] p"
      using assms(1) up_link_drop by (auto simp: awaiting_reply_def)
    with pair assms(1) ok show ?thesis
      by (simp add: relay_inv_def awaiting_reply_def serving_def holds_request_def iobuf_ok_def relay_defs up_link_def sent_up_def bufs_ok_def)
  qed
qed

lemma reply_read_short:
  "awaiting_reply R done p \<Longrightarrow> needle (rsp p) < NBD_REPLY_SIZE \<Longrightarrow> iob_size (rsp p) = NBD_REPLY_SIZE
     \<Longrightarrow> proxy_reply_read p = Some (READ_FROM_UPSTREAM, p) \<and> relay_inv R done READ_FROM_UPSTREAM p"
  by (simp add: proxy_reply_read_def relay_inv_awaiting reading_reply_def)

lemma reply_read_longer:
  assumes "awaiting_reply R done p" "NBD_REPLY_SIZE < needle (rsp p)" "rp_magic (rep_of (buf (rsp p))) = REPLY_MAGIC"
    "iob_size (rsp p) = rsp_total (req_hdr p)"
  shows "\<exists>st p'. proxy_reply_read p = Some (st, p') \<and> relay_inv R done st p'"
  using reply_header_known [OF assms(1) _ assms(3-4)] assms(2) by (simp add: proxy_reply_read_def Let_def)

lemma reply_read_fresh:
  assumes "awaiting_reply R done p" "needle (rsp p) = NBD_REPLY_SIZE" "iob_size (rsp p) = NBD_REPLY_SIZE"
  shows "\<exists>st p'. proxy_reply_read p = Some (st, p') \<and> relay_inv R done st p'"
proof -
  let ?h = "rep_of (buf (rsp p))"
  define p2 where "p2 = p\<lparr>rsp_hdr := ?h\<rparr>"
  have c2: "awaiting_reply R done p2"
    using assms(1) by (simp add: awaiting_reply_def serving_def holds_request_def p2_def bufs_ok_def up_link_def sent_up_def relay_defs)
  show ?thesis
  proof (cases "rp_magic ?h = REPLY_MAGIC")
    case False
    then have "proxy_reply_read p = Some (CONNECT_TO_UPSTREAM, p2)"
      using assms(2) by (auto simp: proxy_reply_read_def p2_def rep_of_def Let_def)
    with relay_inv_reconnect [OF c2] show ?thesis by simp
  next
    case True
    define p3 where "p3 = (if rq_type (req_hdr p) = REQUEST_READ
      then p2\<lparr>rsp := (rsp p)\<lparr>iob_size := iob_size (rsp p) + unat (rq_len (req_hdr p))\<rparr>\<rparr> else p2)"
    have "allowed (req_hdr p)" using assms(1) by (simp add: awaiting_reply_def serving_def holds_request_def whole_request_def)
    then have c3: "awaiting_reply R done p3"
      using c2 assms(2,3)
      by (auto simp: p3_def p2_def bufs_ok_def allowed_def iobuf_ok_def awaiting_reply_def serving_def holds_request_def
          up_link_def sent_up_def relay_defs)
    have "needle (rsp p3) = NBD_REPLY_SIZE" "rp_magic (rep_of (buf (rsp p3))) = REPLY_MAGIC"
      "iob_size (rsp p3) = rsp_total (req_hdr p3)"
      using assms(2,3) True by (simp_all add: p3_def p2_def rsp_total_def)
    note known = reply_header_known [OF c3 _ this(2-3)] this(1)
    have "proxy_reply_read p = Some (if iob_size (rsp p3) = needle (rsp p3)
        then (WRITE_TO_DOWNSTREAM, p3\<lparr>rsp := (rsp p3)\<lparr>needle := 0\<rparr>\<rparr>) else (READ_FROM_UPSTREAM, p3))"
      using assms(2) True by (auto simp: proxy_reply_read_def Let_def p2_def p3_def rep_of_def)
    with known show ?thesis by simp
  qed
qed

lemma read_from_upstream_ok:
  assumes inv: "relay_inv R done READ_FROM_UPSTREAM p" and sel: "truly_ready t READ_FROM_UPSTREAM p" "t_select t = SelectReady"
  shows "\<exists>st p'. proxy_read_from_upstream p = Some (st, p') \<and> relay_inv R done st p'"
proof -
  have i: "awaiting_reply R done p" "reading_reply p" using inv by (simp_all add: relay_inv_awaiting)
  then have b: "iobuf_ok (rsp p)" "NBD_REPLY_SIZE \<le> length (buf (rsp p))" by (auto simp: bufs_ok_def awaiting_reply_def serving_def)
  obtain n e iob es bs where r: "iobuf_read (up_in p) 0 (rsp p) NBD_REPLY_SIZE = Some (n, e, iob, es)" "iobuf_ok iob"
    "length (buf iob) = length (buf (rsp p))" "iob_size iob = (if needle (rsp p) = 0 then NBD_REPLY_SIZE else iob_size (rsp p))"
    "needle iob = needle (rsp p) + length bs" "got iob = got (rsp p) @ bs" "rd_bytes (up_in p) = bs @ rd_bytes es"
    "n \<le> 0 \<longleftrightarrow> bs = []" "n = 0 \<or> n = -1 \<or> 0 < n" "n = 0 \<longrightarrow> (\<exists>e. up_in p = RdFail e # es \<and> \<not> io_errno_permanent e)"
    by (rule iobuf_read_cases [OF b])
  define p1 where "p1 = p\<lparr>rsp := iob, up_in := es\<rparr>"
  have p1: "awaiting_reply R done p1" "rsp p1 = iob" "req_hdr p1 = req_hdr p"
    using i(1) r(2,3,6,7) by (simp_all add: awaiting_reply_def serving_def holds_request_def relay_defs p1_def bufs_ok_def up_link_def sent_up_def)
  have "\<exists>st p'. proxy_reply_read p1 = Some (st, p') \<and> relay_inv R done st p'" if "n \<noteq> -1"
  proof -
    have bs: "bs \<noteq> []" using r(8,9,10) sel that by (auto simp: truly_ready_def)
    have pos: "needle (rsp p) < needle iob" "needle iob \<le> iob_size iob" using r(2,5) bs by (auto simp: iobuf_ok_def)
    have "needle iob < NBD_REPLY_SIZE \<and> iob_size iob = NBD_REPLY_SIZE
         \<or> needle iob = NBD_REPLY_SIZE \<and> iob_size iob = NBD_REPLY_SIZE
         \<or> NBD_REPLY_SIZE < needle iob \<and> NBD_REPLY_SIZE \<le> needle (rsp p) \<and> rp_magic (rep_of (buf (rsp p))) = REPLY_MAGIC
           \<and> iob_size iob = rsp_total (req_hdr p)"
      using i(2) pos r(4) by (auto simp: reading_reply_def NBD_REPLY_SIZE_def split: if_splits)
    then show ?thesis
      using reply_read_short [OF p1(1)] reply_read_fresh [OF p1(1)] reply_read_longer [OF p1(1)]
        rep_of_grown [OF r(6) _ r(5) b(1)] p1(2,3) by fastforce
  qed
  with relay_inv_reconnect [OF p1(1)] show ?thesis
    by (cases "n = -1") (simp_all add: proxy_read_from_upstream_def r(1) p1_def)
qed

lemma sent_up_answered: "sent_up B done q p \<Longrightarrow> sent_up B (done @ [(q, r)]) [] p"
  unfolding sent_up_def by (elim exE conjE, rule exI, rule_tac x = "mine @ [(q, r)]" in exI) (auto simp: suffix_def)

lemma relay_inv_hello:
  "\<not> hello_sent p \<Longrightarrow> relay_inv R done WRITE_TO_DOWNSTREAM p \<longleftrightarrow>
     bufs_ok p \<and> prefetch p = None \<and> done = [] \<and> all_of (rsp p) = r_hello R \<and> down_out p = got (rsp p) \<and> in_is R [] [] p
     \<and> up_link (r_conns R) [] p \<and> sent_up (r_base R) [] [] p"
  by (auto simp: relay_inv_def)

lemma relay_inv_replying:
  "hello_sent p \<Longrightarrow> relay_inv R done WRITE_TO_DOWNSTREAM p \<longleftrightarrow> serving R done p \<and> out_is R done (got (rsp p)) p
     \<and> relayed_pair (r_conns R) (all_of (req p), all_of (rsp p)) \<and> up_link (r_conns R) [] p
     \<and> sent_up (r_base R) done (all_of (req p)) p"
  by (auto simp: relay_inv_def serving_def)

lemma slice_prefix: "n \<le> k \<Longrightarrow> prefix (mem_slice 0 n m) (mem_slice 0 k m)"
  by (simp add: mem_slice_def take_is_prefix prefix_def) (metis append_take_drop_id min.absorb1 take_take)

lemma relayed_hello: "bufs_ok p \<Longrightarrow> all_of (rsp p) = r_hello R \<Longrightarrow> down_out p = got (rsp p) \<Longrightarrow> relayed R p"
  unfolding relayed_def by (intro exI [of _ "[]"]) (use slice_prefix [of "needle (rsp p)" "iob_size (rsp p)" "buf (rsp p)"] in \<open>auto simp: bufs_ok_def iobuf_ok_def\<close>)

lemma relayed_reply:
  "serving R done p \<Longrightarrow> relayed_pair (r_conns R) (all_of (req p), all_of (rsp p)) \<Longrightarrow> out_is R done (got (rsp p)) p \<Longrightarrow> relayed R p"
  unfolding relayed_def
  by (intro exI [of _ "done @ [(all_of (req p), all_of (rsp p))]"])
    (use slice_prefix in \<open>auto simp: serving_def relay_defs bufs_ok_def iobuf_ok_def\<close>)

lemma hello_write_ok:
  assumes "relay_inv R done WRITE_TO_DOWNSTREAM p" "\<not> hello_sent p"
  shows "\<exists>st p' done'. proxy_write_to_downstream p = Some (st, p') \<and> relay_inv R done' st p'"
proof -
  have i: "bufs_ok p" "prefetch p = None" "done = []" "all_of (rsp p) = r_hello R" "down_out p = got (rsp p)" "in_is R [] [] p"
    "up_link (r_conns R) [] p" "sent_up (r_base R) [] [] p" and ok: "iobuf_ok (rsp p)"
    using assms by (simp_all add: relay_inv_hello bufs_ok_def)
  obtain n e k out es where w: "iobuf_write (down_wr p) 0 (rsp p) = Some (n, e, (rsp p)\<lparr>needle := needle (rsp p) + k\<rparr>, out, es)"
    "needle (rsp p) + k \<le> iob_size (rsp p)" "out = mem_slice (needle (rsp p)) k (buf (rsp p))"
    using iobuf_write_spec [OF ok, of "down_wr p" 0] by blast
  define p1 where "p1 = p\<lparr>rsp := (rsp p)\<lparr>needle := needle (rsp p) + k\<rparr>, down_wr := es, down_out := down_out p @ out\<rparr>"
  have p1: "bufs_ok p1" "prefetch p1 = None" "all_of (rsp p1) = r_hello R" "down_out p1 = got (rsp p1)" "in_is R [] [] p1"
    "up_link (r_conns R) [] p1" "sent_up (r_base R) [] [] p1" "\<not> hello_sent p1"
    using i w(2) assms(2) by (simp_all add: p1_def bufs_ok_def iobuf_ok_def w(3) slice_grow relay_defs up_link_def sent_up_def)
  have "relay_inv R [] EXIT p1" using p1 relayed_hello [OF p1(1,3,4)] by (simp add: relay_inv_def)
  moreover have "relay_inv R [] WRITE_TO_DOWNSTREAM p1" using p1 by (simp add: relay_inv_hello)
  moreover have "relay_inv R [] READ_FROM_DOWNSTREAM (p1\<lparr>hello_sent := True, req := (req p1)\<lparr>iob_size := 0, needle := 0\<rparr>,
      rsp := (rsp p1)\<lparr>iob_size := 0, needle := 0\<rparr>\<rparr>)" if "needle (rsp p1) = iob_size (rsp p1)"
    using p1 that by (simp add: relay_inv_reading between_requests_def reading_request_def bufs_ok_def iobuf_ok_def relay_defs
        up_link_def sent_up_def)
  ultimately show ?thesis using p1(8) by (auto simp: proxy_write_to_downstream_def w(1) p1_def Let_def)
qed

lemma reply_write_ok:
  assumes "relay_inv R done WRITE_TO_DOWNSTREAM p" "hello_sent p"
  shows "\<exists>st p' done'. proxy_write_to_downstream p = Some (st, p') \<and> relay_inv R done' st p'"
proof -
  let ?x = "(all_of (req p), all_of (rsp p))"
  have i: "serving R done p" "out_is R done (got (rsp p)) p" "relayed_pair (r_conns R) ?x" "up_link (r_conns R) [] p"
    "sent_up (r_base R) done (all_of (req p)) p" and ok: "iobuf_ok (rsp p)"
    using assms by (simp_all add: relay_inv_replying serving_def bufs_ok_def)
  obtain n e k out es where w: "iobuf_write (down_wr p) 0 (rsp p) = Some (n, e, (rsp p)\<lparr>needle := needle (rsp p) + k\<rparr>, out, es)"
    "needle (rsp p) + k \<le> iob_size (rsp p)" "out = mem_slice (needle (rsp p)) k (buf (rsp p))"
    using iobuf_write_spec [OF ok, of "down_wr p" 0] by blast
  define p1 where "p1 = p\<lparr>rsp := (rsp p)\<lparr>needle := needle (rsp p) + k\<rparr>, down_wr := es, down_out := down_out p @ out\<rparr>"
  have p1: "serving R done p1" "out_is R done (got (rsp p1)) p1" "(all_of (req p1), all_of (rsp p1)) = ?x"
    "up_link (r_conns R) [] p1" "sent_up (r_base R) done (all_of (req p1)) p1" "hello_sent p1"
    using i w(2) assms(2)
    by (simp_all add: p1_def serving_def holds_request_def bufs_ok_def iobuf_ok_def w(3) slice_grow relay_defs up_link_def sent_up_def)
  have "relay_inv R done EXIT p1"
    using relayed_reply [OF p1(1) _ p1(2)] i(3) p1(1,3) by (simp add: relay_inv_def serving_def)
  moreover have "relay_inv R done WRITE_TO_DOWNSTREAM p1" using p1 i(3) by (simp add: relay_inv_replying)
  moreover have "relay_inv R (done @ [?x]) READ_FROM_DOWNSTREAM (p1\<lparr>req_count := req_count p1 + 1,
      req := (req p1)\<lparr>iob_size := 0, needle := 0\<rparr>, rsp := (rsp p1)\<lparr>iob_size := 0, needle := 0\<rparr>\<rparr>)"
    if "needle (rsp p1) = iob_size (rsp p1)"
  proof -
    have "sent_up (r_base R) (done @ [?x]) [] p1" using p1(3,5) by (auto intro: sent_up_answered)
    then show ?thesis using p1 i(3) that
      by (simp add: relay_inv_reading between_requests_def serving_def reading_request_def bufs_ok_def iobuf_ok_def relay_defs
          up_link_def sent_up_def)
  qed
  ultimately show ?thesis using p1(6) by (auto simp: proxy_write_to_downstream_def w(1) p1_def Let_def)
qed

lemma sent_up_nil: "up_out p = [] \<Longrightarrow> sent_up B done [] p"
  unfolding sent_up_def by (intro exI [of _ "[]"]) simp

lemma read_init_ok:
  assumes "relay_inv R done READ_INIT_FROM_UPSTREAM p"
  shows "\<exists>st p'. proxy_read_init_from_upstream p = Some (st, p') \<and> relay_inv R done st p'"
proof -
  have i: "serving R done p" "out_is R done [] p" "needle (rsp p) = 0" "needle (req p) = 0" "up_link (r_conns R) [] p" "up_out p = []"
    and b: "iobuf_ok (init p)" "NBD_INIT_SIZE \<le> length (buf (init p))"
    using assms by (simp_all add: relay_inv_serving serving_def bufs_ok_def)
  obtain n e iob es bs where r: "iobuf_read (up_in p) 0 (init p) NBD_INIT_SIZE = Some (n, e, iob, es)" "iobuf_ok iob"
    "length (buf iob) = length (buf (init p))" "iob_size iob = (if needle (init p) = 0 then NBD_INIT_SIZE else iob_size (init p))"
    "needle iob = needle (init p) + length bs" "got iob = got (init p) @ bs" "rd_bytes (up_in p) = bs @ rd_bytes es"
    "n \<le> 0 \<longleftrightarrow> bs = []" "n = 0 \<or> n = -1 \<or> 0 < n" "n = 0 \<longrightarrow> (\<exists>e. up_in p = RdFail e # es \<and> \<not> io_errno_permanent e)"
    by (rule iobuf_read_cases [OF b])
  define p1 where "p1 = p\<lparr>init := iob, up_in := es\<rparr>"
  have p1: "serving R done p1" "out_is R done [] p1" "needle (rsp p1) = 0" "needle (req p1) = 0" "up_out p1 = []"
    using i r(2,3) by (simp_all add: p1_def serving_def holds_request_def bufs_ok_def relay_defs)
  have up: "up_link (r_conns R) [] p1"
    using i(5) up_link_consume [of "r_conns R" "[]" p "bs" p1] r(7) by (simp add: p1_def)
  have "relay_inv R done CONNECT_TO_UPSTREAM p1" "relay_inv R done READ_INIT_FROM_UPSTREAM p1"
    using p1 up by (simp_all add: relay_inv_serving)
  moreover have "relay_inv R done WRITE_TO_UPSTREAM ((proxy_finish_connect_to_upstream sz flags p1)\<lparr>init := (init p1)\<lparr>needle := 0\<rparr>\<rparr>)" for sz flags
    using p1 up
    by (simp add: relay_inv_serving sent_up_nil proxy_finish_connect_to_upstream_def)
      (simp add: serving_def holds_request_def bufs_ok_def iobuf_ok_def relay_defs up_link_def)
  ultimately show ?thesis
    by (auto simp: proxy_read_init_from_upstream_def r(1) p1_def Let_def split: option.splits)
qed

lemma continue_connecting_ok:
  assumes "relay_inv R done CONNECT_TO_UPSTREAM p" "up_out p = []" "rd_bytes (up_in p) \<in> r_conns R"
  shows "\<exists>st p'. proxy_continue_connecting_to_upstream e p = Some (st, p') \<and> relay_inv R done st p'"
proof -
  define p1 where "p1 = p\<lparr>prefetch := None, init := (init p)\<lparr>needle := 0, iob_size := 0\<rparr>, rsp := (rsp p)\<lparr>needle := 0, iob_size := 0\<rparr>,
              req := (req p)\<lparr>needle := 0\<rparr>\<rparr>"
  have i: "serving R done p" "out_is R done [] p" using assms(1) by (simp_all add: relay_inv_serving)
  have "up_link (r_conns R) [] p1" using assms(3) by (auto simp: up_link_def p1_def)
  moreover have "serving R done p1" "out_is R done [] p1"
    using i by (simp_all add: p1_def serving_def holds_request_def bufs_ok_def iobuf_ok_def relay_defs)
  ultimately have "relay_inv R done READ_INIT_FROM_UPSTREAM p1"
    using assms(2) by (simp add: relay_inv_serving) (simp add: p1_def)
  moreover have "prefetch p = None" using i(1) by (simp add: serving_def)
  ultimately show ?thesis
    using assms(1) by (cases e) (auto simp: proxy_continue_connecting_to_upstream_def prefetch_set_is_empty_def prefetch_set_full_def p1_def)
qed

lemma relay_inv_prefetch: "relay_inv R done st p \<Longrightarrow> \<not> proxy_prefetches p"
  by (simp add: relay_inv_def proxy_prefetches_def)

lemma turn_handler_ok:
  assumes "relay_inv R done st p" "truly_ready t st p" "st \<noteq> EXIT"
    "st = CONNECT_TO_UPSTREAM \<Longrightarrow> up_out p = [] \<and> rd_bytes (up_in p) \<in> r_conns R"
  shows "\<exists>st' p' done'. proxy_turn_handler t st p = Some (st', p') \<and> relay_inv R done' st' p'"
proof (cases "t_select t = SelectReady \<or> st = READ_INIT_FROM_UPSTREAM")
  case False
  then show ?thesis using assms(1,3) relay_inv_prefetch [OF assms(1)]
    by (cases st) (auto simp: proxy_turn_handler_def Let_def)
next
  case True
  show ?thesis
  proof (cases st)
    case READ_FROM_DOWNSTREAM
    with read_from_downstream_ok assms True obtain st' p' where
      "proxy_read_from_downstream p = Some (st', p')" "relay_inv R done st' p'" by blast
    with READ_FROM_DOWNSTREAM True relay_inv_prefetch show ?thesis by (auto simp: proxy_turn_handler_def Let_def)
  next
    case READ_FROM_UPSTREAM
    with read_from_upstream_ok assms True obtain st' p' where
      "proxy_read_from_upstream p = Some (st', p')" "relay_inv R done st' p'" by blast
    with READ_FROM_UPSTREAM True relay_inv_prefetch show ?thesis by (auto simp: proxy_turn_handler_def Let_def)
  next
    case WRITE_TO_DOWNSTREAM
    with assms True show ?thesis
      using hello_write_ok [of R "done" p] reply_write_ok [of R "done" p] by (auto simp: proxy_turn_handler_def)
  next
    case CONNECT_TO_UPSTREAM
    with assms True show ?thesis
      using continue_connecting_ok [of R "done" p "t_so_error t"] by (auto simp: proxy_turn_handler_def)
  next
    case READ_INIT_FROM_UPSTREAM
    with assms show ?thesis using read_init_ok [of R "done" p] by (auto simp: proxy_turn_handler_def)
  next
    case WRITE_TO_UPSTREAM
    with assms True show ?thesis using write_to_upstream_ok [of R "done" p] by (auto simp: proxy_turn_handler_def)
  qed (use assms in simp)
qed

subsection \<open>Turns\<close>

definition session_inv :: "relay \<Rightarrow> session \<Rightarrow> bool" where
  "session_inv R s \<longleftrightarrow> (\<exists>done. relay_inv R done (sstate s) (prx s))"

definition fair_tick :: "relay \<Rightarrow> tick \<Rightarrow> session \<Rightarrow> bool" where
  "fair_tick R t s \<longleftrightarrow> truly_ready t (sstate s) (prx s)
     \<and> (\<forall>fd rds wrs. t_connect t = Connecting fd rds wrs \<longrightarrow> rd_bytes rds \<in> r_conns R)"

lemma relay_inv_upstream_retry:
  "relay_inv R done st p \<Longrightarrow> proxy_state_upstream st \<Longrightarrow> relay_inv R done CONNECT_TO_UPSTREAM p"
  by (cases st) (auto simp: proxy_state_upstream_def relay_inv_serving)

lemma turn_end_ok: "session_inv R s \<Longrightarrow> session_inv R (proxy_turn_end t s)"
  using relay_inv_upstream_retry [of R _ "sstate s" "prx s"] by (auto simp: session_inv_def proxy_turn_end_def Let_def)

lemma relay_inv_connect_cong:
  "relay_inv R done CONNECT_TO_UPSTREAM p \<Longrightarrow> relay_inv R done CONNECT_TO_UPSTREAM (p\<lparr>upstream_fd := fd, up_in := i, up_wr := w, up_out := out\<rparr>)"
  "relay_inv R done CONNECT_TO_UPSTREAM p \<Longrightarrow> relay_inv R done CONNECT_TO_UPSTREAM (p\<lparr>upstream_fd := fd\<rparr>)"
  by (simp_all add: relay_inv_serving serving_def holds_request_def bufs_ok_def relay_defs)

lemma turn_begin_eqs:
  "prx (proxy_turn_begin t s) =
     (if sstate s = CONNECT_TO_UPSTREAM then
        if connect_to_upstream_cooldown s then proxy_disconnect_from_upstream (prx s)
        else proxy_start_connect_to_upstream (t_connect t) (proxy_disconnect_from_upstream (prx s))
      else prx s)"
  "sstate (proxy_turn_begin t s) = sstate s"
  by (simp_all add: proxy_turn_begin_def Let_def)

lemma turn_begin_ok:
  assumes "relay_inv R done (sstate s) (prx s)" "fair_tick R t s"
  shows "relay_inv R done (sstate s) (prx (proxy_turn_begin t s))" "sstate (proxy_turn_begin t s) = sstate s"
    "sstate s \<noteq> CONNECT_TO_UPSTREAM \<Longrightarrow> prx (proxy_turn_begin t s) = prx s"
    "sstate s = CONNECT_TO_UPSTREAM \<Longrightarrow> upstream_fd (prx (proxy_turn_begin t s)) \<noteq> -1 \<Longrightarrow>
       up_out (prx (proxy_turn_begin t s)) = [] \<and> rd_bytes (up_in (prx (proxy_turn_begin t s))) \<in> r_conns R"
  using assms
  by (auto simp: turn_begin_eqs proxy_disconnect_from_upstream_def proxy_start_connect_to_upstream_def
      fair_tick_def relay_inv_connect_cong split: connect_try.splits if_splits)

lemma turn_ok:
  assumes "session_inv R s" "fair_tick R t s" "sstate s \<noteq> EXIT"
  shows "\<exists>s'. proxy_turn t s = Some s' \<and> session_inv R s'"
proof -
  obtain "done" where i: "relay_inv R done (sstate s) (prx s)" using assms(1) by (auto simp: session_inv_def)
  note b = turn_begin_ok [OF i assms(2)]
  let ?s = "proxy_turn_begin t s"
  have here: "session_inv R ?s" "session_inv R (?s\<lparr>broken_off := True\<rparr>)" using b(1,2) by (auto simp: session_inv_def)
  show ?thesis
  proof (cases "upstream_fd (prx ?s) = -1 \<or> t_select t = SelectError")
    case True
    with here show ?thesis by (auto simp: proxy_turn_def Let_def)
  next
    case False
    have "truly_ready t (sstate s) (prx ?s)"
      using assms(2) b(3) by (cases "sstate s = CONNECT_TO_UPSTREAM") (auto simp: fair_tick_def truly_ready_def)
    with turn_handler_ok [OF b(1) _ assms(3)] b(4) False obtain st' p' done' where
      "proxy_turn_handler t (sstate s) (prx ?s) = Some (st', p')" "relay_inv R done' st' p'" by blast
    moreover from this have "session_inv R (proxy_turn_end t (?s\<lparr>sstate := st', prx := p'\<rparr>))"
      by (intro turn_end_ok) (auto simp: session_inv_def)
    ultimately show ?thesis using False b(2) by (auto simp: proxy_turn_def Let_def)
  qed
qed

fun fair_ticks :: "relay \<Rightarrow> tick list \<Rightarrow> session \<Rightarrow> bool" where
  "fair_ticks R [] s = True"
| "fair_ticks R (t # ts) s =
     (sstate s = EXIT \<or> broken_off s
      \<or> fair_tick R t s \<and> (case proxy_turn t s of None \<Rightarrow> True | Some s1 \<Rightarrow> fair_ticks R ts s1))"

lemma turns_ok: "session_inv R s \<Longrightarrow> fair_ticks R ts s \<Longrightarrow> \<exists>s'. proxy_turns ts s = Some s' \<and> session_inv R s'"
proof (induction ts arbitrary: s)
  case (Cons t ts)
  show ?case
  proof (cases "sstate s = EXIT \<or> broken_off s")
    case False
    with Cons.prems turn_ok obtain s1 where "proxy_turn t s = Some s1" "session_inv R s1" by (metis fair_ticks.simps(2))
    with Cons False show ?thesis by auto
  qed (use Cons.prems in auto)
qed simp

definition relay_of :: "byte list set \<Rightarrow> byte list \<Rightarrow> proxier \<Rightarrow> relay" where
  "relay_of K stack p = \<lparr>r_conns = insert (rd_bytes (up_in p)) K, r_input = rd_bytes (down_in p),
     r_hello = init_raw_bytes (nbd_hello_to_buf stack (upstream_size p) (upstream_flags p)), r_base = up_out p\<rparr>"

lemma session_begin_ok:
  assumes "bufs_ok p" "prefetch p = None" "\<not> hello_sent p" "down_out p = []" "proxy_session_begin stack now p = Some s"
  shows "session_inv (relay_of K stack p) s"
proof -
  let ?h = "init_raw_bytes (nbd_hello_to_buf stack (upstream_size p) (upstream_flags p))"
  have l: "length ?h = NBD_INIT_SIZE" by simp
  obtain b where b: "mem_write 0 ?h (buf (rsp p)) = Some b" "length b = length (buf (rsp p))" "mem_slice 0 NBD_INIT_SIZE b = ?h"
    "s = \<lparr>prx = p\<lparr>rsp := \<lparr>buf = b, iob_size = NBD_INIT_SIZE, needle = 0\<rparr>\<rparr>, sstate = WRITE_TO_DOWNSTREAM,
                 old_state = EXIT, state_started = now, connect_to_upstream_cooldown = False, broken_off = False\<rparr>"
    using assms(5) mem_slice_mem_write [of 0 ?h "buf (rsp p)"] l
    by (auto simp: proxy_session_begin_def simp del: mem_write.simps split: option.splits)
  have "sent_up (up_out p) [] [] (p\<lparr>rsp := \<lparr>buf = b, iob_size = NBD_INIT_SIZE, needle = 0\<rparr>\<rparr>)"
    by (auto simp: sent_up_def)
  then have "relay_inv (relay_of K stack p) [] WRITE_TO_DOWNSTREAM (p\<lparr>rsp := \<lparr>buf = b, iob_size = NBD_INIT_SIZE, needle = 0\<rparr>\<rparr>)"
    using assms(1-4) b(2,3)
    by (simp add: relay_inv_hello) (auto simp: relay_of_def bufs_ok_def iobuf_ok_def relay_defs up_link_def NBD_INIT_SIZE_def NBD_MAX_SIZE_def)
  then show ?thesis using b(4) by (auto simp: session_inv_def)
qed

lemma relay_inv_relayed: "relay_inv R done st p \<Longrightarrow> relayed R p"
proof (cases "st = EXIT \<or> st = WRITE_TO_DOWNSTREAM")
  case True
  moreover assume "relay_inv R done st p"
  ultimately show ?thesis
    by (cases "hello_sent p") (auto simp: relay_inv_hello relay_inv_replying intro: relayed_hello relayed_reply, simp_all add: relay_inv_def)
next
  case False
  moreover assume "relay_inv R done st p"
  ultimately have "list_all (relayed_pair (r_conns R)) done" "out_is R done [] p" "\<exists>x. in_is R done x p"
    by (cases st; auto simp: relay_inv_serving serving_def relay_inv_reading between_requests_def)+
  then show ?thesis by (auto intro: relayedI)
qed

subsection \<open>Handlers at full speed\<close>

lemma turn_eq:
  assumes "sstate s \<noteq> CONNECT_TO_UPSTREAM" "sstate s \<noteq> EXIT" "t_select t \<noteq> SelectError" "upstream_fd (prx s) \<noteq> -1"
    "proxy_turn_handler t (sstate s) (prx s) = Some (st, p)"
    "st = sstate s \<Longrightarrow> proxy_state_upstream st \<Longrightarrow>
       t_end t - (if sstate s \<noteq> old_state s then t_start t else state_started s) \<le> upstream_timeout_ms p"
  shows "\<exists>s'. proxy_turn t s = Some s' \<and> prx s' = p \<and> sstate s' = st \<and> old_state s' = sstate s \<and> broken_off s' = broken_off s
     \<and> state_started s' = (if sstate s \<noteq> old_state s then t_start t else state_started s)"
  using assms by (auto simp: proxy_turn_def proxy_turn_begin_def proxy_turn_end_def Let_def)

lemma iobuf_read_whole:
  assumes "needle iob = 0" "bs \<noteq> []" "length bs = n" "n \<le> length (buf iob)"
  shows "iobuf_read (Avail bs # es) errno iob n
    = Some (int (length bs), errno, \<lparr>buf = bs @ drop (length bs) (buf iob), iob_size = n, needle = n\<rparr>, es)"
  using assms by (cases iob) (simp add: iobuf_read_def Let_def size_t_minus_def)

lemma iobuf_read_rest:
  assumes "needle iob \<noteq> 0" "bs \<noteq> []" "iob_size iob = needle iob + length bs" "iob_size iob \<le> length (buf iob)"
  shows "iobuf_read (Avail bs # es) errno iob n
    = Some (int (length bs), errno, iob\<lparr>buf := take (needle iob) (buf iob) @ bs @ drop (iob_size iob) (buf iob), needle := iob_size iob\<rparr>, es)"
  using assms by (simp add: iobuf_read_def Let_def size_t_minus_def)

lemma iobuf_write_whole:
  assumes "needle iob = 0" "iob_size iob \<le> length (buf iob)"
  shows "iobuf_write [] errno iob = Some (int (iob_size iob), errno, iob\<lparr>needle := iob_size iob\<rparr>, mem_slice 0 (iob_size iob) (buf iob), [])"
  using assms by (simp add: iobuf_write_def Let_def size_t_minus_def)

lemma rep_of_append [simp]: "length h = NBD_REPLY_SIZE \<Longrightarrow> rep_of (h @ x) = rep_of h"
  using rep_of_slice [of NBD_REPLY_SIZE "h @ x"] by simp

lemma req_of_append [simp]: "length q = NBD_REQUEST_SIZE \<Longrightarrow> req_of (q @ x) = req_of q"
  using req_of_slice [of NBD_REQUEST_SIZE "q @ x"] by simp

text \<open>One handler at a time, when the peer sends or takes everything at once.\<close>

lemma read_request_at_once:
  assumes "down_in p = Avail q # ds" "needle (req p) = 0" "length q = NBD_REQUEST_SIZE" "NBD_REQUEST_SIZE \<le> length (buf (req p))"
    "allowed (req_of q)" "rq_type (req_of q) \<noteq> REQUEST_WRITE"
  shows "proxy_read_from_downstream p = Some (WRITE_TO_UPSTREAM,
      p\<lparr>req := \<lparr>buf = q @ drop NBD_REQUEST_SIZE (buf (req p)), iob_size = NBD_REQUEST_SIZE, needle = 0\<rparr>, down_in := ds, req_hdr := req_of q\<rparr>)"
proof -
  have "q \<noteq> []" using assms(3) by (auto simp: NBD_REQUEST_SIZE_def)
  then have r: "iobuf_read (Avail q # ds) 0 (req p) NBD_REQUEST_SIZE
      = Some (int (length q), 0, \<lparr>buf = q @ drop NBD_REQUEST_SIZE (buf (req p)), iob_size = NBD_REQUEST_SIZE, needle = NBD_REQUEST_SIZE\<rparr>, ds)"
    using assms(2-4) by (simp add: iobuf_read_whole)
  have h: "nbd_r2h_request (request_raw_of (q @ x)) = req_of q" for x
    using req_of_append [OF assms(3), of x] by (simp add: req_of_def)
  show ?thesis
    using assms(5,6) by (auto simp: proxy_read_from_downstream_def assms(1) r proxy_request_read_def Let_def h allowed_def)
qed

lemma write_request_at_once:
  assumes "up_wr p = []" "needle (req p) = 0" "iob_size (req p) \<le> length (buf (req p))"
  shows "proxy_write_to_upstream p = Some (READ_FROM_UPSTREAM, p\<lparr>up_out := up_out p @ all_of (req p)\<rparr>)"
  using assms by (simp add: proxy_write_to_upstream_def iobuf_write_whole Let_def)

lemma read_header_at_once:
  assumes "up_in p = Avail h # us" "needle (rsp p) = 0" "length h = NBD_REPLY_SIZE" "NBD_REPLY_SIZE \<le> length (buf (rsp p))"
    "rp_magic (rep_of h) = REPLY_MAGIC" "rq_type (req_hdr p) = REQUEST_READ" "0 < unat (rq_len (req_hdr p))"
  shows "proxy_read_from_upstream p = Some (READ_FROM_UPSTREAM,
      p\<lparr>rsp := \<lparr>buf = h @ drop NBD_REPLY_SIZE (buf (rsp p)), iob_size = NBD_REPLY_SIZE + unat (rq_len (req_hdr p)), needle = NBD_REPLY_SIZE\<rparr>,
        up_in := us, rsp_hdr := rep_of h\<rparr>)"
proof -
  have "h \<noteq> []" using assms(3) by (auto simp: NBD_REPLY_SIZE_def)
  then have r: "iobuf_read (Avail h # us) 0 (rsp p) NBD_REPLY_SIZE
      = Some (int (length h), 0, \<lparr>buf = h @ drop NBD_REPLY_SIZE (buf (rsp p)), iob_size = NBD_REPLY_SIZE, needle = NBD_REPLY_SIZE\<rparr>, us)"
    using assms(2-4) by (simp add: iobuf_read_whole)
  have h: "nbd_r2h_reply (reply_raw_of (h @ x)) = rep_of h" for x
    using rep_of_append [OF assms(3), of x] by (simp add: rep_of_def)
  show ?thesis
    using assms(5-7) by (simp add: proxy_read_from_upstream_def assms(1) r proxy_reply_read_def Let_def h)
qed

lemma read_payload_at_once:
  assumes "up_in p = Avail d # us" "needle (rsp p) = NBD_REPLY_SIZE" "iob_size (rsp p) = NBD_REPLY_SIZE + length d" "d \<noteq> []"
    "iob_size (rsp p) \<le> length (buf (rsp p))"
  shows "proxy_read_from_upstream p = Some (WRITE_TO_DOWNSTREAM,
      p\<lparr>rsp := (rsp p)\<lparr>buf := take NBD_REPLY_SIZE (buf (rsp p)) @ d @ drop (NBD_REPLY_SIZE + length d) (buf (rsp p)), needle := 0\<rparr>, up_in := us\<rparr>)"
proof -
  have r: "iobuf_read (Avail d # us) 0 (rsp p) NBD_REPLY_SIZE
      = Some (int (length d), 0, (rsp p)\<lparr>buf := take NBD_REPLY_SIZE (buf (rsp p)) @ d @ drop (NBD_REPLY_SIZE + length d) (buf (rsp p)),
                needle := NBD_REPLY_SIZE + length d\<rparr>, us)"
    using assms(2-5) iobuf_read_rest [of "rsp p" d us 0 NBD_REPLY_SIZE] by (simp add: NBD_REPLY_SIZE_def)
  show ?thesis
    using assms(3,4) by (simp add: proxy_read_from_upstream_def assms(1) r proxy_reply_read_def Let_def)
qed

lemma write_reply_at_once:
  assumes "down_wr p = []" "needle (rsp p) = 0" "iob_size (rsp p) \<le> length (buf (rsp p))" "hello_sent p"
  shows "proxy_write_to_downstream p = Some (READ_FROM_DOWNSTREAM,
      p\<lparr>down_out := down_out p @ all_of (rsp p), req_count := req_count p + 1, req := (req p)\<lparr>iob_size := 0, needle := 0\<rparr>,
        rsp := (rsp p)\<lparr>iob_size := 0, needle := 0\<rparr>\<rparr>)"
  using assms by (simp add: proxy_write_to_downstream_def iobuf_write_whole Let_def)

lemma read_write_header_at_once:
  assumes "down_in p = Avail q # ds" "needle (req p) = 0" "length q = NBD_REQUEST_SIZE" "NBD_REQUEST_SIZE \<le> length (buf (req p))"
    "allowed (req_of q)" "rq_type (req_of q) = REQUEST_WRITE" "0 < unat (rq_len (req_of q))"
  shows "proxy_read_from_downstream p = Some (READ_FROM_DOWNSTREAM,
      p\<lparr>req := \<lparr>buf = q @ drop NBD_REQUEST_SIZE (buf (req p)), iob_size = NBD_REQUEST_SIZE + unat (rq_len (req_of q)),
                 needle = NBD_REQUEST_SIZE\<rparr>, down_in := ds, req_hdr := req_of q\<rparr>)"
proof -
  have "q \<noteq> []" using assms(3) by (auto simp: NBD_REQUEST_SIZE_def)
  then have r: "iobuf_read (Avail q # ds) 0 (req p) NBD_REQUEST_SIZE
      = Some (int (length q), 0, \<lparr>buf = q @ drop NBD_REQUEST_SIZE (buf (req p)), iob_size = NBD_REQUEST_SIZE, needle = NBD_REQUEST_SIZE\<rparr>, ds)"
    using assms(2-4) by (simp add: iobuf_read_whole)
  have h: "nbd_r2h_request (request_raw_of (q @ x)) = req_of q" for x
    using req_of_append [OF assms(3), of x] by (simp add: req_of_def)
  show ?thesis
    using assms(5-7)
    by (simp add: proxy_read_from_downstream_def assms(1) r proxy_request_read_def Let_def h allowed_def request_types)
qed

lemma read_write_payload_at_once:
  assumes "down_in p = Avail d # ds" "needle (req p) = NBD_REQUEST_SIZE" "iob_size (req p) = NBD_REQUEST_SIZE + length d" "d \<noteq> []"
    "iob_size (req p) \<le> length (buf (req p))"
  shows "proxy_read_from_downstream p = Some (WRITE_TO_UPSTREAM,
      p\<lparr>req := (req p)\<lparr>buf := take NBD_REQUEST_SIZE (buf (req p)) @ d @ drop (NBD_REQUEST_SIZE + length d) (buf (req p)), needle := 0\<rparr>,
        down_in := ds\<rparr>)"
proof -
  have r: "iobuf_read (Avail d # ds) 0 (req p) NBD_REQUEST_SIZE
      = Some (int (length d), 0, (req p)\<lparr>buf := take NBD_REQUEST_SIZE (buf (req p)) @ d @ drop (NBD_REQUEST_SIZE + length d) (buf (req p)),
                needle := NBD_REQUEST_SIZE + length d\<rparr>, ds)"
    using assms(2-5) iobuf_read_rest [of "req p" d ds 0 NBD_REQUEST_SIZE] by (simp add: NBD_REQUEST_SIZE_def)
  show ?thesis
    using assms(3,4) by (simp add: proxy_read_from_downstream_def assms(1) r proxy_request_read_def Let_def)
qed

lemma read_short_reply_at_once:
  assumes "up_in p = Avail h # us" "needle (rsp p) = 0" "length h = NBD_REPLY_SIZE" "NBD_REPLY_SIZE \<le> length (buf (rsp p))"
    "rp_magic (rep_of h) = REPLY_MAGIC" "rq_type (req_hdr p) \<noteq> REQUEST_READ"
  shows "proxy_read_from_upstream p = Some (WRITE_TO_DOWNSTREAM,
      p\<lparr>rsp := \<lparr>buf = h @ drop NBD_REPLY_SIZE (buf (rsp p)), iob_size = NBD_REPLY_SIZE, needle = 0\<rparr>,
        up_in := us, rsp_hdr := rep_of h\<rparr>)"
proof -
  have "h \<noteq> []" using assms(3) by (auto simp: NBD_REPLY_SIZE_def)
  then have r: "iobuf_read (Avail h # us) 0 (rsp p) NBD_REPLY_SIZE
      = Some (int (length h), 0, \<lparr>buf = h @ drop NBD_REPLY_SIZE (buf (rsp p)), iob_size = NBD_REPLY_SIZE, needle = NBD_REPLY_SIZE\<rparr>, us)"
    using assms(2-4) by (simp add: iobuf_read_whole)
  have h: "nbd_r2h_reply (reply_raw_of (h @ x)) = rep_of h" for x
    using rep_of_append [OF assms(3), of x] by (simp add: rep_of_def)
  show ?thesis
    using assms(5,6) by (simp add: proxy_read_from_upstream_def assms(1) r proxy_reply_read_def Let_def h)
qed

definition ready_tick :: "u64 \<Rightarrow> tick" where
  "ready_tick T = \<lparr>t_start = T, t_select = SelectReady, t_end = T, t_connect = NoSocket, t_so_error = None\<rparr>"

lemma ready_tick_sel [simp]: "t_start (ready_tick T) = T" "t_select (ready_tick T) = SelectReady" "t_end (ready_tick T) = T"
  by (simp_all add: ready_tick_def)

lemma ready_turn:
  assumes "proxy_turn_handler (ready_tick T) st p = Some (st', p')" "sstate s = st" "prx s = p"
    "st \<noteq> CONNECT_TO_UPSTREAM" "st \<noteq> EXIT" "upstream_fd p \<noteq> -1" "st' = st \<Longrightarrow> proxy_state_upstream st \<Longrightarrow> old_state s \<noteq> st \<or> state_started s = T"
  shows "\<exists>s'. proxy_turn (ready_tick T) s = Some s' \<and> prx s' = p' \<and> sstate s' = st' \<and> old_state s' = st \<and> broken_off s' = broken_off s
     \<and> (old_state s \<noteq> st \<longrightarrow> state_started s' = T)"
proof -
  have "T - (if sstate s \<noteq> old_state s then T else state_started s) \<le> upstream_timeout_ms p'" if "st' = sstate s" "proxy_state_upstream st'"
    using assms(2,7) that by auto
  then show ?thesis using turn_eq [of s "ready_tick T" st' p', unfolded ready_tick_sel] assms(1-6) by auto
qed

lemma serve_read_handlers:
  fixes q h d :: "byte list"
  assumes "bufs_ok p" "prefetch p = None" "hello_sent p" "upstream_fd p \<noteq> -1"
    and "needle (req p) = 0" "needle (rsp p) = 0" "up_wr p = []" "down_wr p = []"
    and "down_in p = Avail q # ds" "length q = NBD_REQUEST_SIZE" "rq_type (req_of q) = REQUEST_READ"
    and "up_in p = Avail h # Avail d # us" "length h = NBD_REPLY_SIZE" "rp_magic (rep_of h) = REPLY_MAGIC"
    and "length d = unat (rq_len (req_of q))" "d \<noteq> []" "unat (rq_len (req_of q)) \<le> NBD_MAX_SIZE"
  obtains p1 p2 p3 p4 p5 where
    "proxy_turn_handler (ready_tick T) READ_FROM_DOWNSTREAM p = Some (WRITE_TO_UPSTREAM, p1)"
    "proxy_turn_handler (ready_tick T) WRITE_TO_UPSTREAM p1 = Some (READ_FROM_UPSTREAM, p2)"
    "proxy_turn_handler (ready_tick T) READ_FROM_UPSTREAM p2 = Some (READ_FROM_UPSTREAM, p3)"
    "proxy_turn_handler (ready_tick T) READ_FROM_UPSTREAM p3 = Some (WRITE_TO_DOWNSTREAM, p4)"
    "proxy_turn_handler (ready_tick T) WRITE_TO_DOWNSTREAM p4 = Some (READ_FROM_DOWNSTREAM, p5)"
    "upstream_fd p1 \<noteq> -1" "upstream_fd p2 \<noteq> -1" "upstream_fd p3 \<noteq> -1" "upstream_fd p4 \<noteq> -1"
    "up_out p5 = up_out p @ q" "down_out p5 = down_out p @ h @ d" "req_count p5 = req_count p + 1" "down_in p5 = ds" "up_in p5 = us"
proof -
  let ?n = "unat (rq_len (req_of q))" and ?t = "ready_tick T"
  have rdy: "t_select ?t = SelectReady" by (simp add: ready_tick_def)
  have b: "length (buf (req p)) = NBD_MAX_SIZE + NBD_REQUEST_SIZE" "length (buf (rsp p)) = NBD_MAX_SIZE + NBD_REPLY_SIZE"
    using assms(1) by (simp_all add: bufs_ok_def)
  have pos: "0 < ?n" using assms(15,16) by (metis length_greater_0_conv)
  have al: "allowed (req_of q)" using assms(11,17) by (simp add: allowed_def request_types)
  define p1 where "p1 = p\<lparr>req := \<lparr>buf = q @ drop NBD_REQUEST_SIZE (buf (req p)), iob_size = NBD_REQUEST_SIZE, needle = 0\<rparr>,
    down_in := ds, req_hdr := req_of q\<rparr>"
  define p2 where "p2 = p1\<lparr>up_out := up_out p @ q\<rparr>"
  define p3 where "p3 = p2\<lparr>rsp := \<lparr>buf = h @ drop NBD_REPLY_SIZE (buf (rsp p)), iob_size = NBD_REPLY_SIZE + ?n, needle = NBD_REPLY_SIZE\<rparr>,
        up_in := Avail d # us, rsp_hdr := rep_of h\<rparr>"
  define p4 where "p4 = p3\<lparr>rsp := \<lparr>buf = h @ d @ drop (NBD_REPLY_SIZE + ?n) (buf (rsp p)), iob_size = NBD_REPLY_SIZE + ?n, needle = 0\<rparr>, up_in := us\<rparr>"
  define p5 where "p5 = p4\<lparr>down_out := down_out p4 @ all_of (rsp p4), req_count := req_count p4 + 1,
    req := (req p4)\<lparr>iob_size := 0, needle := 0\<rparr>, rsp := (rsp p4)\<lparr>iob_size := 0, needle := 0\<rparr>\<rparr>"
  have fd: "upstream_fd p1 \<noteq> -1" "upstream_fd p2 \<noteq> -1" "upstream_fd p3 \<noteq> -1" "upstream_fd p4 \<noteq> -1"
    "\<not> proxy_prefetches p1" "\<not> proxy_prefetches p3" "\<not> proxy_prefetches p4"
    using assms(2,4) by (simp_all add: p1_def p2_def p3_def p4_def proxy_prefetches_def)
  have "proxy_read_from_downstream p = Some (WRITE_TO_UPSTREAM, p1)"
    using read_request_at_once [OF assms(9,5,10) _ al] assms(11) b(1) by (simp add: p1_def request_types)
  then have 1: "proxy_turn_handler ?t READ_FROM_DOWNSTREAM p = Some (WRITE_TO_UPSTREAM, p1)"
    using fd rdy by (simp add: proxy_turn_handler_def)
  have "proxy_write_to_upstream p1 = Some (READ_FROM_UPSTREAM, p2)"
    using write_request_at_once [of p1] assms(7,10) b(1) by (simp add: p1_def p2_def)
  then have 2: "proxy_turn_handler ?t WRITE_TO_UPSTREAM p1 = Some (READ_FROM_UPSTREAM, p2)"
    using rdy by (simp add: proxy_turn_handler_def)
  have "proxy_read_from_upstream p2 = Some (READ_FROM_UPSTREAM, p3)"
    using read_header_at_once [of p2 h "Avail d # us"] pos assms(6,11,12,13,14,15,16) b(2) by (simp add: p1_def p2_def p3_def)
  then have 3: "proxy_turn_handler ?t READ_FROM_UPSTREAM p2 = Some (READ_FROM_UPSTREAM, p3)"
    using fd rdy by (simp add: proxy_turn_handler_def)
  have "proxy_read_from_upstream p3 = Some (WRITE_TO_DOWNSTREAM, p4)"
    using read_payload_at_once [of p3 d us] assms(13,15,16,17) b(2) by (simp add: p3_def p4_def ac_simps)
  then have 4: "proxy_turn_handler ?t READ_FROM_UPSTREAM p3 = Some (WRITE_TO_DOWNSTREAM, p4)"
    using fd rdy by (simp add: proxy_turn_handler_def)
  have "proxy_write_to_downstream p4 = Some (READ_FROM_DOWNSTREAM, p5)"
    unfolding p5_def using assms(3,8,13,15,17) b(2) by (intro write_reply_at_once) (simp_all add: p1_def p2_def p3_def p4_def)
  then have 5: "proxy_turn_handler ?t WRITE_TO_DOWNSTREAM p4 = Some (READ_FROM_DOWNSTREAM, p5)"
    using rdy by (simp add: proxy_turn_handler_def)
  have "all_of (rsp p4) = h @ d" using assms(13,15) by (simp add: p4_def mem_slice_def)
  then have "up_out p5 = up_out p @ q" "down_out p5 = down_out p @ h @ d" "req_count p5 = req_count p + 1" "down_in p5 = ds" "up_in p5 = us"
    by (simp_all add: p1_def p2_def p3_def p4_def p5_def)
  from that [OF 1 2 3 4 5 fd(1-4) this] show thesis .
qed

definition sample_request :: "byte list" where
  "sample_request = request_raw_bytes (nbd_h2r_request
     \<lparr>rq_magic = REQUEST_MAGIC, rq_flags = 0, rq_type = REQUEST_READ, rq_handle = 7, rq_from = 0, rq_len = 2\<rparr>)"

definition sample_proxy :: proxier where
  "sample_proxy = (new_proxier (AF_UNIX []) 0 (AF_UNIX []) 0 None 30 None)
     \<lparr>upstream_fd := 5, down_in := [Avail sample_request], up_in := [Avail (success_reply 7), Avail [1, 2]]\<rparr>"

definition sample_session :: session where
  "sample_session = \<lparr>prx = sample_proxy\<lparr>hello_sent := True\<rparr>, sstate = READ_FROM_DOWNSTREAM, old_state = WRITE_TO_DOWNSTREAM,
     state_started = 0, connect_to_upstream_cooldown = False, broken_off = False\<rparr>"

lemma sample_request_facts:
  "length sample_request = NBD_REQUEST_SIZE" "rq_type (req_of sample_request) = REQUEST_READ" "unat (rq_len (req_of sample_request)) = 2"
  by (simp_all add: sample_request_def req_of_def)

lemma sample_proxy_facts:
  "bufs_ok sample_proxy" "prefetch sample_proxy = None" "\<not> hello_sent sample_proxy" "upstream_fd sample_proxy = 5"
  "needle (req sample_proxy) = 0" "needle (rsp sample_proxy) = 0" "up_wr sample_proxy = []" "down_wr sample_proxy = []"
  "down_in sample_proxy = [Avail sample_request]" "up_in sample_proxy = [Avail (success_reply 7), Avail [1, 2]]"
  "up_out sample_proxy = []" "down_out sample_proxy = []" "req_count sample_proxy = 0"
  "upstream_timeout_ms sample_proxy = 30000"
  by (simp_all add: sample_proxy_def new_proxier_def zero_iobuf_def bufs_ok_def iobuf_ok_def)

lemma write_hello_at_once:
  assumes "down_wr p = []" "needle (rsp p) = 0" "iob_size (rsp p) \<le> length (buf (rsp p))" "\<not> hello_sent p"
  shows "proxy_write_to_downstream p = Some (READ_FROM_DOWNSTREAM,
      p\<lparr>down_out := down_out p @ all_of (rsp p), hello_sent := True, req := (req p)\<lparr>iob_size := 0, needle := 0\<rparr>,
        rsp := (rsp p)\<lparr>iob_size := 0, needle := 0\<rparr>\<rparr>)"
  using assms by (simp add: proxy_write_to_downstream_def iobuf_write_whole Let_def)

lemma sample_starts:
  obtains s0 s1 s2 where "proxy_session_begin [] 0 sample_proxy = Some s0" "proxy_turn (ready_tick 0) s0 = Some s1"
    "proxy_turn (ready_tick 0) s1 = Some s2" "sstate s0 = WRITE_TO_DOWNSTREAM" "sstate s1 = READ_FROM_DOWNSTREAM" "sstate s2 = WRITE_TO_UPSTREAM"
    "down_in (prx s1) = [Avail sample_request]" "\<not> broken_off s0" "\<not> broken_off s1"
proof -
  have b: "length (buf (rsp sample_proxy)) = NBD_MAX_SIZE + NBD_REPLY_SIZE" "length (buf (req sample_proxy)) = NBD_MAX_SIZE + NBD_REQUEST_SIZE"
    using sample_proxy_facts(1) by (simp_all add: bufs_ok_def)
  obtain s0 m where s0: "proxy_session_begin [] 0 sample_proxy = Some s0" "sstate s0 = WRITE_TO_DOWNSTREAM" "\<not> broken_off s0"
    "prx s0 = sample_proxy\<lparr>rsp := \<lparr>buf = m, iob_size = NBD_INIT_SIZE, needle = 0\<rparr>\<rparr>" "NBD_INIT_SIZE \<le> length m"
    using b(1) by (auto simp: proxy_session_begin_def NBD_INIT_SIZE_def NBD_MAX_SIZE_def)
  define p1 where "p1 = (prx s0)\<lparr>down_out := down_out (prx s0) @ all_of (rsp (prx s0)), hello_sent := True,
    req := (req (prx s0))\<lparr>iob_size := 0, needle := 0\<rparr>, rsp := (rsp (prx s0))\<lparr>iob_size := 0, needle := 0\<rparr>\<rparr>"
  have "proxy_write_to_downstream (prx s0) = Some (READ_FROM_DOWNSTREAM, p1)"
    unfolding p1_def using s0(4,5) sample_proxy_facts by (intro write_hello_at_once) simp_all
  then have "proxy_turn_handler (ready_tick 0) WRITE_TO_DOWNSTREAM (prx s0) = Some (READ_FROM_DOWNSTREAM, p1)"
    by (simp add: proxy_turn_handler_def)
  from ready_turn [OF this s0(2) refl] s0(4) obtain s1 where s1: "proxy_turn (ready_tick 0) s0 = Some s1" "prx s1 = p1"
    "sstate s1 = READ_FROM_DOWNSTREAM" "broken_off s1 = broken_off s0" using sample_proxy_facts(4) by auto
  have p1: "down_in p1 = [Avail sample_request]" "needle (req p1) = 0" "NBD_REQUEST_SIZE \<le> length (buf (req p1))" "prefetch p1 = None"
    "upstream_fd p1 = 5"
    using sample_proxy_facts s0(4) b(2) by (simp_all add: p1_def)
  have "allowed (req_of sample_request)" "rq_type (req_of sample_request) \<noteq> REQUEST_WRITE"
    using sample_request_facts by (simp_all add: allowed_def request_types NBD_MAX_SIZE_def)
  from read_request_at_once [OF p1(1,2) sample_request_facts(1) p1(3) this] obtain p2 where
    "proxy_turn_handler (ready_tick 0) READ_FROM_DOWNSTREAM p1 = Some (WRITE_TO_UPSTREAM, p2)"
    using p1(4) by (simp add: proxy_turn_handler_def proxy_prefetches_def)
  from ready_turn [OF this s1(3,2)] p1(5) obtain s2 where "proxy_turn (ready_tick 0) s1 = Some s2" "sstate s2 = WRITE_TO_UPSTREAM" by auto
  with that s0 s1 p1(1) show thesis by metis
qed

subsection \<open>What the two sides see\<close>





lemma read_relayed:
  fixes q h d :: "byte list"
  assumes "sstate s = READ_FROM_DOWNSTREAM" "\<not> broken_off s" "prx s = p" "bufs_ok p" "prefetch p = None" "hello_sent p" "upstream_fd p \<noteq> -1"
    and "needle (req p) = 0" "needle (rsp p) = 0" "up_wr p = []" "down_wr p = []"
    and "down_in p = Avail q # ds" "length q = NBD_REQUEST_SIZE" "rq_type (req_of q) = REQUEST_READ"
    and "up_in p = Avail h # Avail d # us" "length h = NBD_REPLY_SIZE" "rp_magic (rep_of h) = REPLY_MAGIC"
    and "length d = unat (rq_len (req_of q))" "d \<noteq> []" "unat (rq_len (req_of q)) \<le> NBD_MAX_SIZE"
  shows "\<exists>s'. proxy_turns (replicate 5 (ready_tick T)) s = Some s' \<and> sstate s' = READ_FROM_DOWNSTREAM
    \<and> up_out (prx s') = up_out p @ q \<and> down_out (prx s') = down_out p @ h @ d \<and> req_count (prx s') = req_count p + 1
    \<and> down_in (prx s') = ds \<and> up_in (prx s') = us"
proof -
  obtain p1 p2 p3 p4 p5 where h: "proxy_turn_handler (ready_tick T) READ_FROM_DOWNSTREAM p = Some (WRITE_TO_UPSTREAM, p1)"
    "proxy_turn_handler (ready_tick T) WRITE_TO_UPSTREAM p1 = Some (READ_FROM_UPSTREAM, p2)"
    "proxy_turn_handler (ready_tick T) READ_FROM_UPSTREAM p2 = Some (READ_FROM_UPSTREAM, p3)"
    "proxy_turn_handler (ready_tick T) READ_FROM_UPSTREAM p3 = Some (WRITE_TO_DOWNSTREAM, p4)"
    "proxy_turn_handler (ready_tick T) WRITE_TO_DOWNSTREAM p4 = Some (READ_FROM_DOWNSTREAM, p5)"
    and fd: "upstream_fd p1 \<noteq> -1" "upstream_fd p2 \<noteq> -1" "upstream_fd p3 \<noteq> -1" "upstream_fd p4 \<noteq> -1"
    and res: "up_out p5 = up_out p @ q" "down_out p5 = down_out p @ h @ d" "req_count p5 = req_count p + 1" "down_in p5 = ds" "up_in p5 = us"
    by (rule serve_read_handlers [OF assms(4-20), of T])
  let ?t = "ready_tick T"
  obtain s1 where s1: "proxy_turn ?t s = Some s1" "prx s1 = p1" "sstate s1 = WRITE_TO_UPSTREAM" "\<not> broken_off s1"
    using ready_turn [OF h(1) assms(1,3)] assms(2,7) by auto
  obtain s2 where s2: "proxy_turn ?t s1 = Some s2" "prx s2 = p2" "sstate s2 = READ_FROM_UPSTREAM" "old_state s2 = WRITE_TO_UPSTREAM" "\<not> broken_off s2"
    using ready_turn [OF h(2) s1(3,2)] s1(4) fd by auto
  obtain s3 where s3: "proxy_turn ?t s2 = Some s3" "prx s3 = p3" "sstate s3 = READ_FROM_UPSTREAM" "\<not> broken_off s3"
    using ready_turn [OF h(3) s2(3,2)] s2(4,5) fd by auto
  obtain s4 where s4: "proxy_turn ?t s3 = Some s4" "prx s4 = p4" "sstate s4 = WRITE_TO_DOWNSTREAM" "\<not> broken_off s4"
    using ready_turn [OF h(4) s3(3,2)] s3(4) fd by auto
  obtain s5 where s5: "proxy_turn ?t s4 = Some s5" "prx s5 = p5" "sstate s5 = READ_FROM_DOWNSTREAM"
    using ready_turn [OF h(5) s4(3,2)] s4(4) fd by auto
  have "proxy_turns (replicate 5 ?t) s = Some s5"
    using s1 s2 s3 s4 s5 assms(1,2) by (simp add: numeral_eq_Suc)
  with s5 res show ?thesis by simp
qed

text \<open>A read is served.  When the request arrives whole, upstream and downstream take what they are
  given and upstream answers with a reply header and the payload, five turns of the loop bring the
  session back to waiting for a request, with exactly the request sent upstream and exactly the reply
  sent downstream.\<close>

theorem proxy_serves_read:
  fixes q h d :: "byte list"
  assumes "sstate s = READ_FROM_DOWNSTREAM" "\<not> broken_off s" "prx s = p" "bufs_ok p" "prefetch p = None" "hello_sent p" "upstream_fd p \<noteq> -1"
    and "needle (req p) = 0" "needle (rsp p) = 0" "up_wr p = []" "down_wr p = []"
    and "down_in p = Avail q # ds" "length q = NBD_REQUEST_SIZE" "rq_type (req_of q) = REQUEST_READ"
    and "up_in p = Avail h # Avail d # us" "length h = NBD_REPLY_SIZE" "rp_magic (rep_of h) = REPLY_MAGIC"
    and "length d = unat (rq_len (req_of q))" "d \<noteq> []" "unat (rq_len (req_of q)) \<le> NBD_MAX_SIZE"
  shows "\<exists>s'. proxy_turns (replicate 5 (ready_tick T)) s = Some s' \<and> sstate s' = READ_FROM_DOWNSTREAM
    \<and> up_out (prx s') = up_out p @ q \<and> down_out (prx s') = down_out p @ h @ d \<and> req_count (prx s') = req_count p + 1
    \<and> down_in (prx s') = ds \<and> up_in (prx s') = us"
  using assms by (rule read_relayed)

theorem proxy_serves_read_witness:
  "\<exists>s'. proxy_turns (replicate 5 (ready_tick 0)) sample_session = Some s' \<and> sstate s' = READ_FROM_DOWNSTREAM
    \<and> up_out (prx s') = sample_request \<and> down_out (prx s') = success_reply 7 @ [1, 2] \<and> req_count (prx s') = 1"
proof -
  have "rp_magic (rep_of (success_reply 7)) = REPLY_MAGIC" by (simp add: reply_bytes_def rep_of_def)
  then show ?thesis
    using proxy_serves_read [of sample_session "sample_proxy\<lparr>hello_sent := True\<rparr>" sample_request "[]" "success_reply 7" "[1, 2]" "[]" 0]
      sample_proxy_facts sample_request_facts
    by (auto simp: sample_session_def NBD_MAX_SIZE_def bufs_ok_def)
qed

text \<open>An error reply to a read is never relayed.  Upstream answers a read with an error, which carries
  no payload; the proxy waits for the payload all the same, and when its timeout has passed goes back to
  connect, with the same request and nothing written downstream.\<close>

theorem error_reply_to_read_never_relayed:
  assumes "sstate s = READ_FROM_UPSTREAM" "old_state s \<noteq> READ_FROM_UPSTREAM" "\<not> broken_off s" "upstream_fd (prx s) \<noteq> -1"
    and "prefetch (prx s) = None" "needle (rsp (prx s)) = 0" "length (buf (rsp (prx s))) = NBD_MAX_SIZE + NBD_REPLY_SIZE"
    and "rq_type (req_hdr (prx s)) = REQUEST_READ" "0 < unat (rq_len (req_hdr (prx s)))"
    and "up_in (prx s) = [Avail (reply_raw_bytes (nbd_h2r_reply \<lparr>rp_magic = REPLY_MAGIC, rp_error = e, rp_handle = hdl\<rparr>))]" "e \<noteq> 0"
    and "t_select t = SelectTimeout" "t_end t - T > upstream_timeout_ms (prx s)"
  shows "\<exists>s'. proxy_turns [ready_tick T, t] s = Some s' \<and> sstate s' = CONNECT_TO_UPSTREAM
    \<and> down_out (prx s') = down_out (prx s) \<and> req (prx s') = req (prx s) \<and> req_hdr (prx s') = req_hdr (prx s)"
proof -
  let ?h = "reply_raw_bytes (nbd_h2r_reply \<lparr>rp_magic = REPLY_MAGIC, rp_error = e, rp_handle = hdl\<rparr>)" and ?p = "prx s"
  define p1 where "p1 = ?p\<lparr>rsp := \<lparr>buf = ?h @ drop NBD_REPLY_SIZE (buf (rsp ?p)), iob_size = NBD_REPLY_SIZE + unat (rq_len (req_hdr ?p)),
      needle = NBD_REPLY_SIZE\<rparr>, up_in := [], rsp_hdr := rep_of ?h\<rparr>"
  have "proxy_read_from_upstream ?p = Some (READ_FROM_UPSTREAM, p1)"
    using read_header_at_once [OF assms(10,6) _ _ _ assms(8,9)] assms(7) by (simp add: p1_def rep_of_def)
  then have "proxy_turn_handler (ready_tick T) READ_FROM_UPSTREAM ?p = Some (READ_FROM_UPSTREAM, p1)"
    using assms(5) by (simp add: proxy_turn_handler_def proxy_prefetches_def p1_def)
  from ready_turn [OF this assms(1) refl] assms(2,4) obtain s1 where s1: "proxy_turn (ready_tick T) s = Some s1" "prx s1 = p1"
    "sstate s1 = READ_FROM_UPSTREAM" "old_state s1 = READ_FROM_UPSTREAM" "broken_off s1 = broken_off s" "state_started s1 = T" by auto
  have p1: "upstream_fd p1 = upstream_fd ?p" "prefetch p1 = None" "upstream_timeout_ms p1 = upstream_timeout_ms ?p"
    "down_out p1 = down_out ?p" "req p1 = req ?p" "req_hdr p1 = req_hdr ?p"
    using assms(5) by (simp_all add: p1_def)
  have "\<exists>s'. proxy_turn t s1 = Some s' \<and> sstate s' = CONNECT_TO_UPSTREAM \<and> prx s' = p1"
    using s1 p1 assms(4,12,13)
    by (simp add: proxy_turn_def proxy_turn_begin_def proxy_turn_handler_def proxy_turn_end_def proxy_prefetches_def
        proxy_state_upstream_def Let_def)
  then show ?thesis using s1 p1 assms(1,3) by auto
qed

theorem error_reply_to_read_never_relayed_witness:
  "\<exists>s'. proxy_turns [ready_tick 0, \<lparr>t_start = 0, t_select = SelectTimeout, t_end = 30001, t_connect = NoSocket, t_so_error = None\<rparr>]
       (sample_session\<lparr>sstate := READ_FROM_UPSTREAM, prx := sample_proxy\<lparr>req_hdr := req_of sample_request,
          up_in := [Avail (reply_raw_bytes (nbd_h2r_reply \<lparr>rp_magic = REPLY_MAGIC, rp_error = 28, rp_handle = 7\<rparr>))]\<rparr>\<rparr>) = Some s'
     \<and> sstate s' = CONNECT_TO_UPSTREAM \<and> down_out (prx s') = []"
  using error_reply_to_read_never_relayed [of "sample_session\<lparr>sstate := READ_FROM_UPSTREAM, prx := sample_proxy\<lparr>req_hdr := req_of sample_request,
          up_in := [Avail (reply_raw_bytes (nbd_h2r_reply \<lparr>rp_magic = REPLY_MAGIC, rp_error = 28, rp_handle = 7\<rparr>))]\<rparr>\<rparr>" 28 7
      "\<lparr>t_start = 0, t_select = SelectTimeout, t_end = 30001, t_connect = NoSocket, t_so_error = None\<rparr>" 0]
    sample_proxy_facts sample_request_facts
  by (simp add: sample_session_def bufs_ok_def del: proxy_turns.simps) blast

end
