(* ===== verification/Service.thy ===== *)
theory Service
  imports Client Relay
begin

text \<open>
  What the server and the proxy promise to whoever talks to them: each is a disk behind the NBD protocol.
  The specification is a list of bytes with reads, writes and flushes (\<open>disk_answer\<close>, \<open>disk_after\<close>); the
  locale \<open>nbd_service\<close> is the promise to answer every request the way the disk does, and its lemmas lift
  the promise from one request to sequences of them (\<open>serve_ops_disk\<close>) and through a proxy session in
  front of any service (\<open>proxied_service\<close>).  The locale is interpreted on the client thread of the server
  (\<open>thread\<close>) and, through \<open>proxied_service\<close>, on the proxy in front of that thread (\<open>via_proxy\<close>).
\<close>

subsection \<open>The specification: a disk\<close>

type_synonym nbd_op = "nbd_request \<times> byte list"

definition op_bytes :: "nbd_op \<Rightarrow> byte list" where
  "op_bytes opn = request_raw_bytes (nbd_h2r_request (fst opn)) @ snd opn"

definition disk_answer :: "nbd_op \<Rightarrow> byte list \<Rightarrow> byte list" where
  "disk_answer opn disk = (case opn of (rq, data) \<Rightarrow>
     reply_bytes (rq_handle rq) 0
       @ (if rq_type rq = REQUEST_READ then mem_slice (unat (rq_from rq)) (unat (rq_len rq)) disk else []))"

definition disk_after :: "nbd_op \<Rightarrow> byte list \<Rightarrow> byte list" where
  "disk_after opn disk = (case opn of (rq, data) \<Rightarrow>
     if rq_type rq = REQUEST_WRITE
     then take (unat (rq_from rq)) disk @ data @ drop (unat (rq_from rq) + length data) disk else disk)"

fun disk_run :: "nbd_op list \<Rightarrow> byte list \<Rightarrow> byte list list \<times> byte list" where
  "disk_run [] disk = ([], disk)"
| "disk_run (opn # opns) disk =
     (case disk_run opns (disk_after opn disk) of (as, disk') \<Rightarrow> (disk_answer opn disk # as, disk'))"

text \<open>The requests a disk of \<open>sz\<close> bytes takes: reads and writes of at least one byte and at most \<open>limit\<close>,
  and flushes, all in range.\<close>

definition op_ok :: "nat \<Rightarrow> nat \<Rightarrow> nbd_op \<Rightarrow> bool" where
  "op_ok limit sz opn = (case opn of (rq, data) \<Rightarrow>
     rq_magic rq = REQUEST_MAGIC \<and> unat (rq_from rq) + unat (rq_len rq) \<le> sz
     \<and> (rq_type rq = REQUEST_FLUSH \<or> (rq_type rq = REQUEST_READ \<or> rq_type rq = REQUEST_WRITE)
           \<and> 0 < unat (rq_len rq) \<and> unat (rq_len rq) \<le> limit)
     \<and> length data = (if rq_type rq = REQUEST_WRITE then unat (rq_len rq) else 0))"

lemma op_ok_cases [consumes 1, case_names reads writes flushes]:
  assumes "op_ok limit sz (rq, data)"
  obtains "rq_type rq = REQUEST_READ" "data = []" "0 < unat (rq_len rq)" "unat (rq_len rq) \<le> limit"
      "rq_magic rq = REQUEST_MAGIC" "unat (rq_from rq) + unat (rq_len rq) \<le> sz"
    | "rq_type rq = REQUEST_WRITE" "length data = unat (rq_len rq)" "0 < unat (rq_len rq)" "unat (rq_len rq) \<le> limit"
      "rq_magic rq = REQUEST_MAGIC" "unat (rq_from rq) + unat (rq_len rq) \<le> sz"
    | "rq_type rq = REQUEST_FLUSH" "data = []"
      "rq_magic rq = REQUEST_MAGIC" "unat (rq_from rq) + unat (rq_len rq) \<le> sz"
  using assms by (auto simp: op_ok_def request_types split: if_splits)

lemma op_ok_mono: "op_ok limit sz opn \<Longrightarrow> limit \<le> limit' \<Longrightarrow> op_ok limit' sz opn"
  by (auto simp: op_ok_def)

lemma length_disk_after: "op_ok limit (length disk) opn \<Longrightarrow> length (disk_after opn disk) = length disk"
  by (cases opn) (auto simp: op_ok_def disk_after_def)

lemma disk_after_write:
  "rq_type rq = REQUEST_WRITE \<Longrightarrow> mem_write (unat (rq_from rq)) data disk = Some m \<Longrightarrow> disk_after (rq, data) disk = m"
  by (auto simp: disk_after_def mem_write.simps split: if_splits)

text \<open>What was written is what is read, until it is overwritten.\<close>

lemma disk_read_back:
  assumes "op_ok limit (length disk) (w, data)" "rq_type w = REQUEST_WRITE"
    "rq_type r = REQUEST_READ" "rq_from r = rq_from w" "rq_len r = rq_len w"
  shows "disk_answer (r, []) (disk_after (w, data) disk) = reply_bytes (rq_handle r) 0 @ data"
  using assms by (auto simp: op_ok_def disk_answer_def disk_after_def mem_slice_def request_types)

lemma disk_after_nth:
  assumes "op_ok limit (length disk) (w, data)" "p < length disk"
  shows "disk_after (w, data) disk ! p =
    (if rq_type w = REQUEST_WRITE \<and> unat (rq_from w) \<le> p \<and> p < unat (rq_from w) + length data
     then data ! (p - unat (rq_from w)) else disk ! p)"
proof (cases "rq_type w = REQUEST_WRITE")
  case True
  with assms have "unat (rq_from w) + length data \<le> length disk" by (simp add: op_ok_def)
  then have "mem_write (unat (rq_from w)) data disk = Some (disk_after (w, data) disk)"
    using True by (simp add: mem_write.simps disk_after_def)
  from mem_write_nth [OF this assms(2)] True show ?thesis by simp
qed (simp add: disk_after_def)

lemma disk_after_disjoint:
  assumes opn: "op_ok limit (length disk) (w, data)"
    and apart: "from + n \<le> unat (rq_from w) \<or> unat (rq_from w) + unat (rq_len w) \<le> from" and le: "from + n \<le> length disk"
  shows "mem_slice from n (disk_after (w, data) disk) = mem_slice from n disk"
proof (rule nth_equalityI)
  show "length (mem_slice from n (disk_after (w, data) disk)) = length (mem_slice from n disk)"
    using length_disk_after [OF opn] by (simp add: mem_slice_def)
  fix i assume "i < length (mem_slice from n (disk_after (w, data) disk))"
  then have i: "i < n" by (simp add: mem_slice_def)
  have "length data \<le> unat (rq_len w)" using opn by (simp add: op_ok_def split: if_splits)
  with i apart le have "disk_after (w, data) disk ! (from + i) = disk ! (from + i)"
    by (subst disk_after_nth [OF opn]) auto
  with i le length_disk_after [OF opn] show "mem_slice from n (disk_after (w, data) disk) ! i = mem_slice from n disk ! i"
    by (simp add: mem_slice_def)
qed

subsection \<open>The interface\<close>

fun serve_ops :: "(byte list \<Rightarrow> 's \<Rightarrow> (byte list \<times> 's) option) \<Rightarrow> nbd_op list \<Rightarrow> 's \<Rightarrow> (byte list list \<times> 's) option" where
  "serve_ops handle [] s = Some ([], s)"
| "serve_ops handle (opn # opns) s =
     (case handle (op_bytes opn) s of
        None \<Rightarrow> None
      | Some (a, s1) \<Rightarrow> (case serve_ops handle opns s1 of None \<Rightarrow> None | Some (as, s2) \<Rightarrow> Some (a # as, s2)))"

locale nbd_service =
  fixes ready :: "'s \<Rightarrow> bool"
    and contents :: "'s \<Rightarrow> byte list"
    and handle :: "byte list \<Rightarrow> 's \<Rightarrow> (byte list \<times> 's) option"
    and limit :: nat
  assumes serves: "ready s \<Longrightarrow> op_ok limit (length (contents s)) opn \<Longrightarrow>
    \<exists>s'. handle (op_bytes opn) s = Some (disk_answer opn (contents s), s') \<and> ready s' \<and> contents s' = disk_after opn (contents s)"
begin

lemma serve_ops_disk:
  assumes "ready s" "list_all (op_ok limit (length (contents s))) opns"
  shows "\<exists>s'. serve_ops handle opns s = Some (fst (disk_run opns (contents s)), s')
    \<and> ready s' \<and> contents s' = snd (disk_run opns (contents s))"
  using assms
proof (induction opns arbitrary: s)
  case (Cons opn opns)
  then obtain s1 where s1: "handle (op_bytes opn) s = Some (disk_answer opn (contents s), s1)" "ready s1"
      "contents s1 = disk_after opn (contents s)" using serves by fastforce
  with Cons.prems(2) length_disk_after [of limit "contents s" opn]
  have "list_all (op_ok limit (length (contents s1))) opns" by simp
  with Cons.IH s1(2) obtain s' where "serve_ops handle opns s1 = Some (fst (disk_run opns (contents s1)), s')"
      "ready s'" "contents s' = snd (disk_run opns (contents s1))" by blast
  with s1 show ?case by (simp split: prod.split)
qed simp

end

subsection \<open>The client thread of the server\<close>

text \<open>One turn of the request loop, given the bytes of one request, with a network that takes what is
  written and a disk that does not refuse to sync.\<close>

definition thread_answers :: "byte list \<Rightarrow> client \<Rightarrow> (byte list \<times> client) option" where
  "thread_answers q c =
     (case client_serve_request SocketReadable (c\<lparr>sock_in := [Avail q], sock_wr := [], msync_fails := []\<rparr>) of
        Ret False c' \<Rightarrow> Some (drop (length (sock_out c)) (sock_out c'), c')
      | _ \<Rightarrow> None)"

definition thread_ready :: "client \<Rightarrow> bool" where
  "thread_ready c \<longleftrightarrow> srv_ok (serve c) \<and> allocation_map_built (serve c) \<and> \<not> server_closed (serve c)
     \<and> \<not> stream_enabled (allocation_map (serve c)) \<and> unat (serve_size (serve c)) \<le> 2 ^ 63"

lemma thread_serves:
  assumes rd: "thread_ready c" and opn: "op_ok limit (length (file_map (serve c))) (rq, data)"
  shows "\<exists>c'. thread_answers (op_bytes (rq, data)) c = Some (disk_answer (rq, data) (file_map (serve c)), c')
    \<and> thread_ready c' \<and> file_map (serve c') = disk_after (rq, data) (file_map (serve c))"
proof -
  let ?c = "c\<lparr>sock_in := [Avail (op_bytes (rq, data))], sock_wr := [], msync_fails := []\<rparr>"
  have sv: "srv_ok (serve ?c)" "allocation_map_built (serve ?c)" "\<not> server_closed (serve ?c)"
      "length (file_map (serve ?c)) = unat (serve_size (serve ?c))" "unat (serve_size (serve ?c)) \<le> 2 ^ 63"
      "room (serve ?c) k" for k
    using rd by (simp_all add: thread_ready_def srv_ok_def room_def)
  have inp: "rd_data (sock_in ?c) = request_raw_bytes (nbd_h2r_request rq) @ data @ []"
    using request_bytes_ne by (simp add: op_bytes_def)
  have wc: "wr_clean (sock_wr ?c)" "\<forall>e. WrFail e \<notin> set (sock_wr ?c)" "msync_fails ?c = []" by (simp_all add: wr_clean_def)
  from opn show ?thesis
  proof (cases rule: op_ok_cases)
    case reads
    obtain c' where "client_serve_request SocketReadable ?c = Ret False c'" "serve c' = serve c"
        "sock_out c' = sock_out c @ disk_answer (rq, data) (file_map (serve c))"
      using serve_read_ok [of ?c rq "[]"] inp reads sv wc by (auto simp: disk_answer_def)
    with rd reads show ?thesis by (auto simp: thread_answers_def thread_ready_def disk_after_def request_types)
  next
    case writes
    obtain c' k where c': "client_serve_request SocketReadable ?c = Ret False c'"
        "mem_write (unat (rq_from rq)) data (file_map (serve c)) = Some (file_map (serve c'))"
        "wrote k (unat (rq_from rq)) data (serve c) (serve c')"
        "sock_out c' = sock_out c @ reply_bytes (rq_handle rq) 0"
      using serve_write_ok [OF inp] writes sv wc by auto
    have "thread_ready c'"
      using rd wroteD(2) [OF c'(3)] wrote_kept [OF c'(3)] by (simp add: thread_ready_def)
    with c' writes disk_after_write [OF writes(1) c'(2)] show ?thesis
      by (auto simp: thread_answers_def disk_answer_def request_types)
  next
    case flushes
    obtain c' where "client_serve_request SocketReadable ?c = Ret False c'" "serve c' = serve c"
        "sock_out c' = sock_out c @ reply_bytes (rq_handle rq) 0"
      using serve_flush_ok [of ?c rq "[]"] inp flushes sv wc by auto
    with rd flushes show ?thesis
      by (auto simp: thread_answers_def thread_ready_def disk_answer_def disk_after_def request_types)
  qed
qed

interpretation thread: nbd_service thread_ready "\<lambda>c. file_map (serve c)" thread_answers limit
  by unfold_locales (use thread_serves in \<open>metis surj_pair\<close>)

subsection \<open>A proxy session in front of a service\<close>

definition message_chunks :: "nat \<Rightarrow> byte list \<Rightarrow> rd list" where
  "message_chunks n m = (if length m \<le> n then [Avail m] else [Avail (take n m), Avail (drop n m)])"

definition turns_for :: "rd list \<Rightarrow> tick list" where
  "turns_for es = replicate (length es + 1) (ready_tick 0)"

text \<open>The bytes of a request arrive at a waiting session, which sends them upstream; the service answers;
  the answer arrives at the session, which sends it downstream.\<close>

definition proxied :: "(byte list \<Rightarrow> 's \<Rightarrow> (byte list \<times> 's) option)
    \<Rightarrow> byte list \<Rightarrow> session \<times> 's \<Rightarrow> (byte list \<times> session \<times> 's) option" where
  "proxied handle q st = (case st of (s, u) \<Rightarrow>
     let req_in = message_chunks NBD_REQUEST_SIZE q in
     case proxy_turns (turns_for req_in) (s\<lparr>prx := (prx s)\<lparr>down_in := req_in\<rparr>\<rparr>) of
       None \<Rightarrow> None
     | Some s1 \<Rightarrow>
         (case handle (drop (length (up_out (prx s))) (up_out (prx s1))) u of
            None \<Rightarrow> None
          | Some (a, u') \<Rightarrow>
              let rsp_in = message_chunks NBD_REPLY_SIZE a in
              (case proxy_turns (turns_for rsp_in) (s1\<lparr>prx := (prx s1)\<lparr>up_in := rsp_in\<rparr>\<rparr>) of
                 None \<Rightarrow> None
               | Some s2 \<Rightarrow> Some (drop (length (down_out (prx s))) (down_out (prx s2)), s2, u'))))"

definition link_ok :: "proxier \<Rightarrow> bool" where
  "link_ok p \<longleftrightarrow> bufs_ok p \<and> prefetch p = None \<and> hello_sent p \<and> upstream_fd p \<noteq> -1
     \<and> needle (req p) = 0 \<and> needle (rsp p) = 0 \<and> up_wr p = [] \<and> down_wr p = [] \<and> down_in p = [] \<and> up_in p = []"

definition session_ready :: "session \<Rightarrow> bool" where
  "session_ready s \<longleftrightarrow> sstate s = READ_FROM_DOWNSTREAM \<and> \<not> broken_off s \<and> link_ok (prx s)"

definition awaiting_reply :: "nbd_request \<Rightarrow> session \<Rightarrow> bool" where
  "awaiting_reply rq s \<longleftrightarrow> sstate s = READ_FROM_UPSTREAM \<and> old_state s = WRITE_TO_UPSTREAM \<and> \<not> broken_off s
     \<and> link_ok (prx s) \<and> req_hdr (prx s) = rq"

lemma turns_for_simps:
  "turns_for [e] = [ready_tick 0, ready_tick 0]" "turns_for [e, e'] = [ready_tick 0, ready_tick 0, ready_tick 0]"
  by (simp_all add: turns_for_def numeral_eq_Suc)

lemma turns_step:
  assumes "proxy_turn_handler (ready_tick 0) (sstate s) (prx s) = Some (st', p')"
    "sstate s \<noteq> CONNECT_TO_UPSTREAM" "sstate s \<noteq> EXIT" "\<not> broken_off s" "upstream_fd (prx s) \<noteq> -1"
    "st' = sstate s \<Longrightarrow> proxy_state_upstream (sstate s) \<Longrightarrow> old_state s \<noteq> sstate s"
  obtains s' where "\<And>ts. proxy_turns (ready_tick 0 # ts) s = proxy_turns ts s'"
    "prx s' = p'" "sstate s' = st'" "old_state s' = sstate s" "\<not> broken_off s'"
  using ready_turn [OF assms(1) refl refl assms(2,3,5)] assms(3,4,6) by fastforce

lemma header_only_sent:
  assumes rd: "link_ok p" and q: "length q = NBD_REQUEST_SIZE" "allowed (req_of q)" "rq_type (req_of q) \<noteq> REQUEST_WRITE"
  shows "\<exists>p1. proxy_turn_handler (ready_tick T) READ_FROM_DOWNSTREAM (p\<lparr>down_in := [Avail q]\<rparr>) = Some (WRITE_TO_UPSTREAM, p1)
    \<and> link_ok p1 \<and> all_of (req p1) = q \<and> req_hdr p1 = req_of q \<and> up_out p1 = up_out p \<and> down_out p1 = down_out p"
proof -
  let ?p = "p\<lparr>down_in := [Avail q]\<rparr>"
  have b: "NBD_REQUEST_SIZE \<le> length (buf (req ?p))" using rd by (simp add: link_ok_def bufs_ok_def)
  note r = read_request_at_once [of ?p q "[]", OF _ _ q(1) b q(2,3)]
  show ?thesis
    using r rd q(1) b
    by (auto simp: proxy_turn_handler_def Let_def link_ok_def proxy_prefetches_def bufs_ok_def iobuf_ok_def mem_slice_def)
qed

lemma header_and_payload_sent:
  assumes rd: "link_ok p" and q: "length q = NBD_REQUEST_SIZE" "allowed (req_of q)" "rq_type (req_of q) = REQUEST_WRITE"
    and d: "length d = unat (rq_len (req_of q))" "d \<noteq> []"
  shows "\<exists>p0 p1. proxy_turn_handler (ready_tick T) READ_FROM_DOWNSTREAM (p\<lparr>down_in := [Avail q, Avail d]\<rparr>)
        = Some (READ_FROM_DOWNSTREAM, p0) \<and> upstream_fd p0 \<noteq> -1
    \<and> proxy_turn_handler (ready_tick T) READ_FROM_DOWNSTREAM p0 = Some (WRITE_TO_UPSTREAM, p1)
    \<and> link_ok p1 \<and> all_of (req p1) = q @ d \<and> req_hdr p1 = req_of q \<and> up_out p1 = up_out p \<and> down_out p1 = down_out p"
proof -
  let ?p = "p\<lparr>down_in := [Avail q, Avail d]\<rparr>"
  have b: "length (buf (req ?p)) = NBD_MAX_SIZE + NBD_REQUEST_SIZE" "needle (req ?p) = 0" "\<not> proxy_prefetches ?p"
    using rd by (simp_all add: link_ok_def bufs_ok_def proxy_prefetches_def)
  have n: "length d \<le> NBD_MAX_SIZE" "0 < unat (rq_len (req_of q))"
    using q(2,3) d by (auto simp: allowed_def) (metis length_greater_0_conv)
  let ?pa = "?p\<lparr>req := \<lparr>buf = q @ drop NBD_REQUEST_SIZE (buf (req ?p)), iob_size = NBD_REQUEST_SIZE + unat (rq_len (req_of q)),
                 needle = NBD_REQUEST_SIZE\<rparr>, down_in := [Avail d], req_hdr := req_of q\<rparr>"
  have "proxy_read_from_downstream ?p = Some (READ_FROM_DOWNSTREAM, ?pa)"
    using b by (intro read_write_header_at_once) (use q n in simp_all)
  then have 0: "proxy_turn_handler (ready_tick T) READ_FROM_DOWNSTREAM ?p = Some (READ_FROM_DOWNSTREAM, ?pa)"
    by (simp add: proxy_turn_handler_def Let_def)
  let ?pb = "?pa\<lparr>req := (req ?pa)\<lparr>buf := take NBD_REQUEST_SIZE (buf (req ?pa)) @ d
       @ drop (NBD_REQUEST_SIZE + length d) (buf (req ?pa)), needle := 0\<rparr>, down_in := []\<rparr>"
  have "proxy_read_from_downstream ?pa = Some (WRITE_TO_UPSTREAM, ?pb)"
    using b n by (intro read_write_payload_at_once) (use q(1) d in simp_all)
  then have 1: "proxy_turn_handler (ready_tick T) READ_FROM_DOWNSTREAM ?pa = Some (WRITE_TO_UPSTREAM, ?pb)"
    using b(3) by (simp add: proxy_turn_handler_def Let_def proxy_prefetches_def)
  have "all_of (req ?pb) = q @ d" using q(1) d by (simp add: mem_slice_def)
  moreover have "link_ok ?pb" using rd q(1) d n b(1) by (simp add: link_ok_def bufs_ok_def iobuf_ok_def)
  moreover have "upstream_fd ?pa \<noteq> -1" using rd by (simp add: link_ok_def)
  ultimately show ?thesis using 0 1 by (intro exI [of _ ?pa] exI [of _ ?pb]) simp
qed

lemma request_sent_up:
  assumes "link_ok p"
  shows "proxy_turn_handler (ready_tick T) WRITE_TO_UPSTREAM p = Some (READ_FROM_UPSTREAM, p\<lparr>up_out := up_out p @ all_of (req p)\<rparr>)"
    "link_ok (p\<lparr>up_out := up_out p @ all_of (req p)\<rparr>)"
  using assms write_request_at_once [of p] by (simp_all add: proxy_turn_handler_def link_ok_def bufs_ok_def iobuf_ok_def)

lemma reply_sent_down:
  assumes "link_ok p"
  shows "\<exists>p'. proxy_turn_handler (ready_tick T) WRITE_TO_DOWNSTREAM p = Some (READ_FROM_DOWNSTREAM, p')
    \<and> link_ok p' \<and> down_out p' = down_out p @ all_of (rsp p) \<and> up_out p' = up_out p"
  using assms write_reply_at_once [of p] by (simp add: proxy_turn_handler_def link_ok_def bufs_ok_def iobuf_ok_def)

lemma short_reply_read:
  assumes rd: "link_ok p" and h: "length h = NBD_REPLY_SIZE" "rp_magic (rep_of h) = REPLY_MAGIC" "rq_type (req_hdr p) \<noteq> REQUEST_READ"
  shows "\<exists>p1. proxy_turn_handler (ready_tick T) READ_FROM_UPSTREAM (p\<lparr>up_in := [Avail h]\<rparr>) = Some (WRITE_TO_DOWNSTREAM, p1)
    \<and> link_ok p1 \<and> all_of (rsp p1) = h \<and> up_out p1 = up_out p \<and> down_out p1 = down_out p"
proof -
  let ?p = "p\<lparr>up_in := [Avail h]\<rparr>"
  have b: "NBD_REPLY_SIZE \<le> length (buf (rsp ?p))" using rd by (simp add: link_ok_def bufs_ok_def)
  note r = read_short_reply_at_once [of ?p h "[]", OF _ _ h(1) b h(2)]
  show ?thesis
    using r rd h(1,3) b
    by (auto simp: proxy_turn_handler_def Let_def link_ok_def proxy_prefetches_def bufs_ok_def iobuf_ok_def mem_slice_def)
qed

lemma long_reply_read:
  assumes rd: "link_ok p" and h: "length h = NBD_REPLY_SIZE" "rp_magic (rep_of h) = REPLY_MAGIC" "rq_type (req_hdr p) = REQUEST_READ"
    and d: "length d = unat (rq_len (req_hdr p))" "d \<noteq> []" "length d \<le> NBD_MAX_SIZE"
  shows "\<exists>p0 p1. proxy_turn_handler (ready_tick T) READ_FROM_UPSTREAM (p\<lparr>up_in := [Avail h, Avail d]\<rparr>) = Some (READ_FROM_UPSTREAM, p0)
    \<and> upstream_fd p0 \<noteq> -1 \<and> proxy_turn_handler (ready_tick T) READ_FROM_UPSTREAM p0 = Some (WRITE_TO_DOWNSTREAM, p1)
    \<and> link_ok p1 \<and> all_of (rsp p1) = h @ d \<and> up_out p1 = up_out p \<and> down_out p1 = down_out p"
proof -
  let ?p = "p\<lparr>up_in := [Avail h, Avail d]\<rparr>"
  have b: "length (buf (rsp ?p)) = NBD_MAX_SIZE + NBD_REPLY_SIZE" "needle (rsp ?p) = 0" "\<not> proxy_prefetches ?p"
    using rd by (simp_all add: link_ok_def bufs_ok_def proxy_prefetches_def)
  have n: "0 < unat (rq_len (req_hdr ?p))" using d by (simp flip: d(1))
  let ?pa = "?p\<lparr>rsp := \<lparr>buf = h @ drop NBD_REPLY_SIZE (buf (rsp ?p)), iob_size = NBD_REPLY_SIZE + unat (rq_len (req_hdr ?p)),
                 needle = NBD_REPLY_SIZE\<rparr>, up_in := [Avail d], rsp_hdr := rep_of h\<rparr>"
  have "proxy_read_from_upstream ?p = Some (READ_FROM_UPSTREAM, ?pa)"
    using b n by (intro read_header_at_once) (use h in simp_all)
  then have 0: "proxy_turn_handler (ready_tick T) READ_FROM_UPSTREAM ?p = Some (READ_FROM_UPSTREAM, ?pa)"
    by (simp add: proxy_turn_handler_def Let_def)
  let ?pb = "?pa\<lparr>rsp := (rsp ?pa)\<lparr>buf := take NBD_REPLY_SIZE (buf (rsp ?pa)) @ d
       @ drop (NBD_REPLY_SIZE + length d) (buf (rsp ?pa)), needle := 0\<rparr>, up_in := []\<rparr>"
  have "proxy_read_from_upstream ?pa = Some (WRITE_TO_DOWNSTREAM, ?pb)"
    using b n by (intro read_payload_at_once) (use h(1) d in simp_all)
  then have 1: "proxy_turn_handler (ready_tick T) READ_FROM_UPSTREAM ?pa = Some (WRITE_TO_DOWNSTREAM, ?pb)"
    using b(3) by (simp add: proxy_turn_handler_def Let_def proxy_prefetches_def)
  have "all_of (rsp ?pb) = h @ d" using h(1) d by (simp add: mem_slice_def)
  moreover have "link_ok ?pb" using rd h(1) d n b(1) by (simp add: link_ok_def bufs_ok_def iobuf_ok_def)
  moreover have "upstream_fd ?pa \<noteq> -1" using rd by (simp add: link_ok_def)
  ultimately show ?thesis using 0 1 by (intro exI [of _ ?pa] exI [of _ ?pb]) simp
qed

lemma op_bytes_request:
  assumes "op_ok limit sz (rq, data)" "limit \<le> NBD_MAX_SIZE"
  shows "length (request_raw_bytes (nbd_h2r_request rq)) = NBD_REQUEST_SIZE"
    "req_of (request_raw_bytes (nbd_h2r_request rq)) = rq" "allowed rq"
  using assms by (auto simp: req_of_def op_ok_def allowed_def request_types)

text \<open>The first turns bring the whole request into the buffer, one more sends it upstream.\<close>

lemma request_buffered:
  assumes rd: "session_ready s" and opn: "op_ok limit sz (rq, data)" "limit \<le> NBD_MAX_SIZE"
  defines "es \<equiv> message_chunks NBD_REQUEST_SIZE (op_bytes (rq, data))"
  obtains s1 where "proxy_turns (turns_for es) (s\<lparr>prx := (prx s)\<lparr>down_in := es\<rparr>\<rparr>) = proxy_turns [ready_tick 0] s1"
    "sstate s1 = WRITE_TO_UPSTREAM" "\<not> broken_off s1" "link_ok (prx s1)" "all_of (req (prx s1)) = op_bytes (rq, data)"
    "req_hdr (prx s1) = rq" "up_out (prx s1) = up_out (prx s)" "down_out (prx s1) = down_out (prx s)"
proof -
  let ?q = "request_raw_bytes (nbd_h2r_request rq)" and ?s = "s\<lparr>prx := (prx s)\<lparr>down_in := es\<rparr>\<rparr>"
  note q = op_bytes_request [OF opn]
  have lk: "link_ok (prx s)" and st: "sstate ?s = READ_FROM_DOWNSTREAM" "\<not> broken_off ?s" "upstream_fd (prx ?s) \<noteq> -1"
    using rd by (simp_all add: session_ready_def link_ok_def)
  show thesis
  proof (cases "data = []")
    case True
    then have es: "es = [Avail ?q]" and nw: "rq_type rq \<noteq> REQUEST_WRITE"
      using q(1) opn(1) by (auto simp: es_def message_chunks_def op_bytes_def op_ok_def request_types)
    from header_only_sent [OF lk q(1), unfolded q(2), OF q(3) nw] obtain p1 where
      h: "proxy_turn_handler (ready_tick 0) (sstate ?s) (prx ?s) = Some (WRITE_TO_UPSTREAM, p1)"
      "link_ok p1" "all_of (req p1) = ?q" "req_hdr p1 = rq" "up_out p1 = up_out (prx s)" "down_out p1 = down_out (prx s)"
      using st(1) es by auto
    obtain s1 where s1: "\<And>ts. proxy_turns (ready_tick 0 # ts) ?s = proxy_turns ts s1" "prx s1 = p1"
        "sstate s1 = WRITE_TO_UPSTREAM" "\<not> broken_off s1"
      by (rule turns_step [OF h(1)]) (use st in \<open>simp_all add: proxy_state_upstream_def del: proxy_turns.simps\<close>)
    show thesis
      by (rule that [of s1]) (use s1 h True es in \<open>simp_all add: turns_for_simps op_bytes_def del: proxy_turns.simps\<close>)
  next
    case False
    then have es: "es = [Avail ?q, Avail data]" and w: "rq_type rq = REQUEST_WRITE" "length data = unat (rq_len rq)"
      using q(1) opn(1) by (auto simp: es_def message_chunks_def op_bytes_def op_ok_def request_types split: if_splits)
    from header_and_payload_sent [OF lk q(1), unfolded q(2), OF q(3) w False, of 0] obtain p0 p1 where
      h: "proxy_turn_handler (ready_tick 0) (sstate ?s) (prx ?s) = Some (READ_FROM_DOWNSTREAM, p0)" "upstream_fd p0 \<noteq> -1"
      "proxy_turn_handler (ready_tick 0) READ_FROM_DOWNSTREAM p0 = Some (WRITE_TO_UPSTREAM, p1)"
      "link_ok p1" "all_of (req p1) = ?q @ data" "req_hdr p1 = rq" "up_out p1 = up_out (prx s)" "down_out p1 = down_out (prx s)"
      using st(1) es by auto
    obtain s0 where s0: "\<And>ts. proxy_turns (ready_tick 0 # ts) ?s = proxy_turns ts s0" "prx s0 = p0"
        "sstate s0 = READ_FROM_DOWNSTREAM" "\<not> broken_off s0"
      by (rule turns_step [OF h(1)]) (use st in \<open>simp_all add: proxy_state_upstream_def del: proxy_turns.simps\<close>)
    obtain s1 where s1: "\<And>ts. proxy_turns (ready_tick 0 # ts) s0 = proxy_turns ts s1" "prx s1 = p1"
        "sstate s1 = WRITE_TO_UPSTREAM" "\<not> broken_off s1"
      by (rule turns_step [of s0 WRITE_TO_UPSTREAM p1]) (use s0 h(2,3) in \<open>simp_all del: proxy_turns.simps\<close>)
    show thesis by (rule that [of s1]) (use s0(1) s1 h es in \<open>simp_all add: turns_for_simps op_bytes_def del: proxy_turns.simps\<close>)
  qed
qed

lemma request_goes_up:
  assumes "session_ready s" "op_ok limit sz (rq, data)" "limit \<le> NBD_MAX_SIZE"
  defines "es \<equiv> message_chunks NBD_REQUEST_SIZE (op_bytes (rq, data))"
  obtains s1 where "proxy_turns (turns_for es) (s\<lparr>prx := (prx s)\<lparr>down_in := es\<rparr>\<rparr>) = Some s1"
    "awaiting_reply rq s1" "up_out (prx s1) = up_out (prx s) @ op_bytes (rq, data)" "down_out (prx s1) = down_out (prx s)"
proof -
  obtain s1 where s1: "proxy_turns (turns_for es) (s\<lparr>prx := (prx s)\<lparr>down_in := es\<rparr>\<rparr>) = proxy_turns [ready_tick 0] s1"
    "sstate s1 = WRITE_TO_UPSTREAM" "\<not> broken_off s1" and p: "link_ok (prx s1)" "all_of (req (prx s1)) = op_bytes (rq, data)"
    "req_hdr (prx s1) = rq" "up_out (prx s1) = up_out (prx s)" "down_out (prx s1) = down_out (prx s)"
    unfolding es_def by (rule request_buffered [OF assms(1-3)])
  note up = request_sent_up [OF p(1)]
  obtain s2 where "\<And>ts. proxy_turns (ready_tick 0 # ts) s1 = proxy_turns ts s2" "sstate s2 = READ_FROM_UPSTREAM"
      "old_state s2 = WRITE_TO_UPSTREAM" "\<not> broken_off s2" "prx s2 = (prx s1)\<lparr>up_out := up_out (prx s1) @ all_of (req (prx s1))\<rparr>"
    by (rule turns_step [of s1, unfolded s1(2), OF up(1)]) (use s1 p(1) in \<open>simp_all add: link_ok_def del: proxy_turns.simps\<close>)
  with s1(1) p up(2) show thesis by (intro that [of s2]) (simp_all add: awaiting_reply_def del: proxy_turns.simps(2))
qed

lemma reply_buffered:
  assumes aw: "awaiting_reply rq s" and opn: "op_ok limit (length disk) (rq, data)" "limit \<le> NBD_MAX_SIZE"
  defines "es \<equiv> message_chunks NBD_REPLY_SIZE (disk_answer (rq, data) disk)"
  obtains s1 where "proxy_turns (turns_for es) (s\<lparr>prx := (prx s)\<lparr>up_in := es\<rparr>\<rparr>) = proxy_turns [ready_tick 0] s1"
    "sstate s1 = WRITE_TO_DOWNSTREAM" "\<not> broken_off s1" "link_ok (prx s1)" "all_of (rsp (prx s1)) = disk_answer (rq, data) disk"
    "up_out (prx s1) = up_out (prx s)" "down_out (prx s1) = down_out (prx s)"
proof -
  let ?h = "reply_bytes (rq_handle rq) 0" and ?s = "s\<lparr>prx := (prx s)\<lparr>up_in := es\<rparr>\<rparr>"
  let ?d = "mem_slice (unat (rq_from rq)) (unat (rq_len rq)) disk"
  have h: "length ?h = NBD_REPLY_SIZE" "rp_magic (rep_of ?h) = REPLY_MAGIC" by (simp_all add: rep_of_def reply_bytes_def)
  have lk: "link_ok (prx s)" and hdr: "req_hdr (prx s) = rq" and st: "sstate ?s = READ_FROM_UPSTREAM" "old_state ?s = WRITE_TO_UPSTREAM"
      "\<not> broken_off ?s" "upstream_fd (prx ?s) \<noteq> -1"
    using aw by (simp_all add: awaiting_reply_def link_ok_def)
  show thesis
  proof (cases "rq_type rq = REQUEST_READ")
    case False
    then have es: "es = [Avail ?h]" "disk_answer (rq, data) disk = ?h"
      using h(1) by (simp_all add: es_def message_chunks_def disk_answer_def)
    from short_reply_read [OF lk h] False hdr obtain p1 where
      p: "proxy_turn_handler (ready_tick 0) (sstate ?s) (prx ?s) = Some (WRITE_TO_DOWNSTREAM, p1)"
      "link_ok p1" "all_of (rsp p1) = ?h" "up_out p1 = up_out (prx s)" "down_out p1 = down_out (prx s)"
      using st(1) es(1) by auto
    obtain s1 where s1: "\<And>ts. proxy_turns (ready_tick 0 # ts) ?s = proxy_turns ts s1" "prx s1 = p1"
        "sstate s1 = WRITE_TO_DOWNSTREAM" "\<not> broken_off s1"
      by (rule turns_step [OF p(1)]) (use st in \<open>simp_all del: proxy_turns.simps\<close>)
    show thesis
      by (rule that [of s1]) (use s1 p es in \<open>simp_all add: turns_for_simps del: proxy_turns.simps\<close>)
  next
    case True
    then have len: "length ?d = unat (rq_len rq)" "0 < unat (rq_len rq)" "unat (rq_len rq) \<le> NBD_MAX_SIZE"
      using opn by (auto simp: op_ok_def request_types)
    then have d: "length ?d = unat (rq_len (req_hdr (prx s)))" "?d \<noteq> []" "length ?d \<le> NBD_MAX_SIZE"
      unfolding hdr by (simp_all flip: length_greater_0_conv)
    have es: "es = [Avail ?h, Avail ?d]" "disk_answer (rq, data) disk = ?h @ ?d"
      using True h(1) d(2) by (simp_all add: es_def message_chunks_def disk_answer_def)
    from long_reply_read [OF lk h _ d, of 0] True hdr obtain p0 p1 where
      p: "proxy_turn_handler (ready_tick 0) (sstate ?s) (prx ?s) = Some (READ_FROM_UPSTREAM, p0)" "upstream_fd p0 \<noteq> -1"
      "proxy_turn_handler (ready_tick 0) READ_FROM_UPSTREAM p0 = Some (WRITE_TO_DOWNSTREAM, p1)"
      "link_ok p1" "all_of (rsp p1) = ?h @ ?d" "up_out p1 = up_out (prx s)" "down_out p1 = down_out (prx s)"
      using st(1) es(1) by auto
    obtain s0 where s0: "\<And>ts. proxy_turns (ready_tick 0 # ts) ?s = proxy_turns ts s0" "prx s0 = p0"
        "sstate s0 = READ_FROM_UPSTREAM" "\<not> broken_off s0"
      by (rule turns_step [OF p(1)]) (use st in \<open>simp_all del: proxy_turns.simps\<close>)
    obtain s1 where s1: "\<And>ts. proxy_turns (ready_tick 0 # ts) s0 = proxy_turns ts s1" "prx s1 = p1"
        "sstate s1 = WRITE_TO_DOWNSTREAM" "\<not> broken_off s1"
      by (rule turns_step [of s0 WRITE_TO_DOWNSTREAM p1]) (use s0 p(2,3) in \<open>simp_all del: proxy_turns.simps\<close>)
    show thesis by (rule that [of s1]) (use s0(1) s1 p es in \<open>simp_all add: turns_for_simps del: proxy_turns.simps\<close>)
  qed
qed

lemma reply_goes_down:
  assumes "awaiting_reply rq s" "op_ok limit (length disk) (rq, data)" "limit \<le> NBD_MAX_SIZE"
  defines "es \<equiv> message_chunks NBD_REPLY_SIZE (disk_answer (rq, data) disk)"
  obtains s1 where "proxy_turns (turns_for es) (s\<lparr>prx := (prx s)\<lparr>up_in := es\<rparr>\<rparr>) = Some s1"
    "session_ready s1" "down_out (prx s1) = down_out (prx s) @ disk_answer (rq, data) disk" "up_out (prx s1) = up_out (prx s)"
proof -
  obtain s1 where s1: "proxy_turns (turns_for es) (s\<lparr>prx := (prx s)\<lparr>up_in := es\<rparr>\<rparr>) = proxy_turns [ready_tick 0] s1"
    "sstate s1 = WRITE_TO_DOWNSTREAM" "\<not> broken_off s1" and p: "link_ok (prx s1)" "all_of (rsp (prx s1)) = disk_answer (rq, data) disk"
    "up_out (prx s1) = up_out (prx s)" "down_out (prx s1) = down_out (prx s)"
    unfolding es_def by (rule reply_buffered [OF assms(1-3)])
  from reply_sent_down [OF p(1), of 0] obtain p2 where p2: "proxy_turn_handler (ready_tick 0) WRITE_TO_DOWNSTREAM (prx s1)
      = Some (READ_FROM_DOWNSTREAM, p2)" "link_ok p2" "down_out p2 = down_out (prx s) @ disk_answer (rq, data) disk"
      "up_out p2 = up_out (prx s)" unfolding p by blast
  obtain s2 where "\<And>ts. proxy_turns (ready_tick 0 # ts) s1 = proxy_turns ts s2" "sstate s2 = READ_FROM_DOWNSTREAM"
      "\<not> broken_off s2" "prx s2 = p2"
    by (rule turns_step [of s1, unfolded s1(2), OF p2(1)]) (use s1 p(1) in \<open>simp_all add: link_ok_def del: proxy_turns.simps\<close>)
  with s1(1) p2 show thesis by (intro that [of s2]) (simp_all add: session_ready_def del: proxy_turns.simps(2))
qed

context nbd_service
begin

lemma proxied_serves:
  assumes rd: "session_ready s" "ready u" and opn: "op_ok (min limit NBD_MAX_SIZE) (length (contents u)) (rq, data)"
  shows "\<exists>s' u'. proxied handle (op_bytes (rq, data)) (s, u) = Some (disk_answer (rq, data) (contents u), s', u')
    \<and> session_ready s' \<and> ready u' \<and> contents u' = disk_after (rq, data) (contents u)"
proof -
  have lim: "min limit NBD_MAX_SIZE \<le> NBD_MAX_SIZE" by simp
  from serves [OF rd(2) op_ok_mono [OF opn]] obtain u' where
    u': "handle (op_bytes (rq, data)) u = Some (disk_answer (rq, data) (contents u), u')" "ready u'"
      "contents u' = disk_after (rq, data) (contents u)" by auto
  obtain s1 where s1: "proxy_turns (turns_for (message_chunks NBD_REQUEST_SIZE (op_bytes (rq, data))))
        (s\<lparr>prx := (prx s)\<lparr>down_in := message_chunks NBD_REQUEST_SIZE (op_bytes (rq, data))\<rparr>\<rparr>) = Some s1" "awaiting_reply rq s1"
      "up_out (prx s1) = up_out (prx s) @ op_bytes (rq, data)" "down_out (prx s1) = down_out (prx s)"
    by (rule request_goes_up [OF rd(1) opn lim])
  obtain s2 where "proxy_turns (turns_for (message_chunks NBD_REPLY_SIZE (disk_answer (rq, data) (contents u))))
        (s1\<lparr>prx := (prx s1)\<lparr>up_in := message_chunks NBD_REPLY_SIZE (disk_answer (rq, data) (contents u))\<rparr>\<rparr>) = Some s2" "session_ready s2"
      "down_out (prx s2) = down_out (prx s1) @ disk_answer (rq, data) (contents u)"
    by (rule reply_goes_down [OF s1(2) opn lim])
  with s1 u' show ?thesis by (simp add: proxied_def Let_def)
qed

lemma proxied_service:
  "nbd_service (\<lambda>(s, u). session_ready s \<and> ready u) (\<lambda>(s, u). contents u) (proxied handle) (min limit NBD_MAX_SIZE)"
  by unfold_locales (use proxied_serves in fastforce)

end

interpretation via_proxy: nbd_service "\<lambda>(s, c). session_ready s \<and> thread_ready c" "\<lambda>(s, c). file_map (serve c)"
    "proxied thread_answers" NBD_MAX_SIZE
  using thread.proxied_service [of NBD_MAX_SIZE] by simp

subsection \<open>Properties\<close>

text \<open>C2: the client thread of the server is a disk.  Any sequence of in-range reads, writes and flushes, sent to a
  thread of a server that is not being mirrored, is answered request by request with exactly the
  answers a plain array of bytes gives, and leaves the file as that array: every read sees the writes before
  it, holes are invisible, and nothing else changes.\<close>

theorem client_thread_is_disk:
  assumes "thread_ready c" "list_all (op_ok limit (length (file_map (serve c)))) opns"
  shows "\<exists>c'. serve_ops thread_answers opns c = Some (fst (disk_run opns (file_map (serve c))), c')
    \<and> thread_ready c' \<and> file_map (serve c') = snd (disk_run opns (file_map (serve c)))"
  using assms by (rule thread.serve_ops_disk)

definition ex_read_back :: nbd_request where
  "ex_read_back = ex_write\<lparr>rq_type := REQUEST_READ, rq_handle := 8\<rparr>"

definition ex_flush_all :: nbd_request where
  "ex_flush_all = ex_write\<lparr>rq_type := REQUEST_FLUSH, rq_handle := 9\<rparr>"

definition ex_ops :: "nbd_op list" where
  "ex_ops = [(ex_write, [9, 8, 7]), (ex_read_back, []), (ex_flush_all, [])]"

lemma ex_ops_facts:
  "thread_ready (ex_client es)" "list_all (op_ok NBD_MAX_SIZE (length (file_map (serve (ex_client es))))) ex_ops"
  "fst (disk_run ex_ops (file_map (serve (ex_client es)))) = [reply_bytes 7 0, reply_bytes 8 0 @ [9, 8, 7], reply_bytes 9 0]"
proof -
  have c: "serve (ex_client es) = ex_server" "length (file_map ex_server) = 8192" by (simp_all add: ex_client_def ex_server_def)
  have "\<not> stream_enabled (allocation_map ex_server)" "allocation_map_built ex_server" "\<not> server_closed ex_server"
      "unat (serve_size ex_server) \<le> 2 ^ 63"
    by (simp_all add: ex_server_def bitset_alloc_def)
  with ex_server_ok(1) show "thread_ready (ex_client es)" by (simp add: thread_ready_def c(1))
  have w: "op_ok NBD_MAX_SIZE (length (file_map ex_server)) (ex_write, [9, 8, 7])" "rq_type ex_write = REQUEST_WRITE"
    by (simp_all add: c(2) op_ok_def ex_write_def NBD_MAX_SIZE_def request_types)
  then show "list_all (op_ok NBD_MAX_SIZE (length (file_map (serve (ex_client es))))) ex_ops"
    unfolding c by (simp add: ex_ops_def op_ok_def ex_read_back_def ex_flush_all_def ex_write_def request_types)
  have "disk_answer (ex_read_back, []) (disk_after (ex_write, [9, 8, 7]) (file_map ex_server)) = reply_bytes 8 0 @ [9, 8, 7]"
    using disk_read_back [OF w, of ex_read_back] by (simp add: ex_read_back_def)
  moreover have "disk_answer (ex_write, [9, 8, 7]) disk = reply_bytes 7 0" "disk_answer (ex_flush_all, []) disk = reply_bytes 9 0" for disk
    by (simp_all add: disk_answer_def ex_write_def ex_flush_all_def request_types)
  ultimately show "fst (disk_run ex_ops (file_map (serve (ex_client es)))) = [reply_bytes 7 0, reply_bytes 8 0 @ [9, 8, 7], reply_bytes 9 0]"
    unfolding c(1) by (simp add: ex_ops_def)
qed

theorem client_thread_is_disk_witness:
  "\<exists>c'. serve_ops thread_answers ex_ops (ex_client []) = Some ([reply_bytes 7 0, reply_bytes 8 0 @ [9, 8, 7], reply_bytes 9 0], c')"
  using client_thread_is_disk [OF ex_ops_facts(1,2), of "[]"] unfolding ex_ops_facts(3) by blast

text \<open>C3: the proxy in front of the server is a disk too.  Any sequence of in-range reads, writes and flushes no longer than
  the proxy's buffers, sent to a waiting proxy session without a cache whose upstream is a client thread of the
  server, is answered by the proxy exactly as the disk answers it, and leaves the file of the server as the disk.\<close>

theorem proxied_thread_is_disk:
  assumes "session_ready s" "thread_ready c" "list_all (op_ok NBD_MAX_SIZE (length (file_map (serve c)))) opns"
  shows "\<exists>s' c'. serve_ops (proxied thread_answers) opns (s, c) = Some (fst (disk_run opns (file_map (serve c))), s', c')
    \<and> session_ready s' \<and> thread_ready c' \<and> file_map (serve c') = snd (disk_run opns (file_map (serve c)))"
  using via_proxy.serve_ops_disk [of "(s, c)" opns] assms by auto

theorem proxied_thread_is_disk_witness:
  "\<exists>s' c'. serve_ops (proxied thread_answers) ex_ops (sample_session\<lparr>prx := sample_proxy\<lparr>hello_sent := True, down_in := [], up_in := []\<rparr>\<rparr>, ex_client [])
      = Some ([reply_bytes 7 0, reply_bytes 8 0 @ [9, 8, 7], reply_bytes 9 0], s', c')"
proof -
  have "session_ready (sample_session\<lparr>prx := sample_proxy\<lparr>hello_sent := True, down_in := [], up_in := []\<rparr>\<rparr>)"
    using sample_proxy_facts by (auto simp: session_ready_def link_ok_def sample_session_def bufs_ok_def)
  from proxied_thread_is_disk [OF this ex_ops_facts(1,2), of "[]"] show ?thesis unfolding ex_ops_facts(3) by blast
qed

end
