(* ===== verification/Readwrite.thy ===== *)
theory Readwrite
  imports Ioutil
begin

text \<open>
  The requesting side of the protocol, \<^verbatim>\<open>src/src/common/readwrite.c\<close>: what \<^verbatim>\<open>flexnbd read\<close> and
  \<^verbatim>\<open>flexnbd write\<close> do on a connection.  \<open>nbd_conn\<close> is the socket: what will be read from it, what writes
  to it will do, what has been written.  \<open>rand1\<close> and \<open>rand2\<close> are the two results of \<^verbatim>\<open>rand()\<close> that make the
  handle; \<open>waited\<close> is what select() answers in \<open>wait_for_data\<close>.
\<close>

record nbd_conn =
  nc_in :: "rd list"
  nc_wr :: "wr list"
  nc_out :: "byte list"

type_synonym 'a conn_op = "nbd_conn \<Rightarrow> (nbd_conn, 'a) outcome"

datatype waited = WaitFailed | TimedOut | DataReady

definition conn_read :: "nat \<Rightarrow> nbd_conn \<Rightarrow> byte list \<times> bool \<times> nbd_conn" where
  "conn_read n k = (case readloop n (nc_in k) of (bs, r, es) \<Rightarrow> (bs, r = IoDone, k\<lparr>nc_in := es\<rparr>))"

definition conn_write :: "byte list \<Rightarrow> nbd_conn \<Rightarrow> bool \<times> nbd_conn" where
  "conn_write b k = (case writeloop b (nc_wr k) of (w, r, es) \<Rightarrow> (r = IoDone, k\<lparr>nc_wr := es, nc_out := nc_out k @ w\<rparr>))"

definition socket_connect :: "int \<Rightarrow> bool option \<Rightarrow> bool \<Rightarrow> int" where
  "socket_connect fd bind_ok connect_ok =
     (if fd < 0 then -1
      else if bind_ok = Some False then -1
      else if \<not> connect_ok then -1 else fd)"

definition socket_nbd_read_hello :: "nbd_conn \<Rightarrow> (u64 \<times> u32) option \<times> nbd_conn" where
  "socket_nbd_read_hello k =
     (case conn_read NBD_INIT_SIZE k of (bs, ok, k1) \<Rightarrow>
        (if \<not> ok then None else nbd_check_hello (init_raw_of bs), k1))"

definition socket_nbd_write_hello :: "byte list \<Rightarrow> u64 \<Rightarrow> u32 \<Rightarrow> nbd_conn \<Rightarrow> bool \<times> nbd_conn" where
  "socket_nbd_write_hello stack out_size out_flags k = conn_write (init_raw_bytes (nbd_hello_to_buf stack out_size out_flags)) k"

definition read_reply :: "u64 \<Rightarrow> nbd_reply conn_op" where
  "read_reply request_raw_handle k =
     (case conn_read NBD_REPLY_SIZE k of (bs, ok, k1) \<Rightarrow>
        if \<not> ok then Error k1
        else let reply = nbd_r2h_reply (reply_raw_of bs) in
             if rp_magic reply \<noteq> REPLY_MAGIC then Error k1
             else if rp_error reply \<noteq> 0 then Error k1
             else if request_raw_handle \<noteq> rpr_handle (reply_raw_of bs) then Error k1
             else Ret reply k1)"

definition wait_for_data :: "waited \<Rightarrow> unit conn_op" where
  "wait_for_data w k = (case w of WaitFailed \<Rightarrow> Fatal k | TimedOut \<Rightarrow> Error k | DataReady \<Rightarrow> Ret () k)"

definition splice_from :: "nat \<Rightarrow> (byte list) conn_op" where
  "splice_from len k =
     (case splice_via_pipe_loop (nc_in k) 0 len [] of
        None \<Rightarrow> Spins
      | Some (bs, r, es) \<Rightarrow> if r < 0 then Fatal (k\<lparr>nc_in := es\<rparr>) else Ret bs (k\<lparr>nc_in := es\<rparr>))"

definition splice_to :: "rd list \<Rightarrow> nat \<Rightarrow> unit conn_op" where
  "splice_to data len k =
     (case splice_via_pipe_loop data 0 len [] of
        None \<Rightarrow> Spins
      | Some (bs, r, _) \<Rightarrow>
          if r < 0 then Error (k\<lparr>nc_out := nc_out k @ bs\<rparr>) else Ret () (k\<lparr>nc_out := nc_out k @ bs\<rparr>))"

definition socket_nbd_read :: "u32 \<Rightarrow> u32 \<Rightarrow> waited \<Rightarrow> u64 \<Rightarrow> u32 \<Rightarrow> bool \<Rightarrow> (byte list) conn_op" where
  "socket_nbd_read rand1 rand2 w from len out_buf k =
     (let request_raw = fill_request rand1 rand2 REQUEST_READ 0 from len in
      case conn_write (request_raw_bytes request_raw) k of (ok, k1) \<Rightarrow>
        if \<not> ok then Fatal k1
        else and_then (wait_for_data w k1) (\<lambda>_ k2.
             and_then (read_reply (rqr_handle request_raw) k2) (\<lambda>_ k3.
             if out_buf then
               (case conn_read (unat len) k3 of (bs, ok2, k4) \<Rightarrow> if ok2 then Ret bs k4 else Fatal k4)
             else splice_from (unat len) k3)))"

datatype write_source = InBuf "byte list" | InFd "rd list"

definition socket_nbd_write :: "u32 \<Rightarrow> u32 \<Rightarrow> waited \<Rightarrow> u64 \<Rightarrow> u32 \<Rightarrow> write_source \<Rightarrow> unit conn_op" where
  "socket_nbd_write rand1 rand2 w from len src k =
     (let request_raw = fill_request rand1 rand2 REQUEST_WRITE 0 from len in
      case conn_write (request_raw_bytes request_raw) k of (ok, k1) \<Rightarrow>
        if \<not> ok then Error k1
        else and_then
               (case src of
                  InBuf b \<Rightarrow> if length b < unat len then Fault
                             else (case conn_write (take (unat len) b) k1 of (ok2, k2) \<Rightarrow> if ok2 then Ret () k2 else Error k2)
                | InFd data \<Rightarrow> splice_to data (unat len) k1) (\<lambda>_ k3.
             and_then (wait_for_data w k3) (\<lambda>_ k4.
             and_then (read_reply (rqr_handle request_raw) k4) (\<lambda>_ k5. Ret () k5))))"

definition socket_nbd_disconnect :: "u32 \<Rightarrow> u32 \<Rightarrow> bool conn_op" where
  "socket_nbd_disconnect rand1 rand2 k =
     (case conn_write (request_raw_bytes (fill_request rand1 rand2 REQUEST_DISCONNECT 0 0 0)) k of (ok, k1) \<Rightarrow>
        if ok then Ret True k1 else Fatal k1)"

definition CHECK_RANGE :: "u64 \<Rightarrow> u32 \<Rightarrow> unit conn_op" where
  "CHECK_RANGE from len k =
     (case socket_nbd_read_hello k of
        (None, k1) \<Rightarrow> Fatal k1
      | (Some (sz, flags), k1) \<Rightarrow>
          let endpoint = from + ucast len in
          if endpoint > sz \<or> endpoint < from then Fatal k1 else Ret () k1)"

definition do_read :: "int \<Rightarrow> u32 \<Rightarrow> u32 \<Rightarrow> waited \<Rightarrow> u64 \<Rightarrow> u32 \<Rightarrow> (byte list) conn_op" where
  "do_read fd rand1 rand2 w from len k =
     (if fd < 0 then Fatal k
      else and_then (CHECK_RANGE from len k) (\<lambda>_ k1. socket_nbd_read rand1 rand2 w from len False k1))"

definition do_write :: "int \<Rightarrow> u32 \<Rightarrow> u32 \<Rightarrow> waited \<Rightarrow> u64 \<Rightarrow> u32 \<Rightarrow> rd list \<Rightarrow> unit conn_op" where
  "do_write fd rand1 rand2 w from len data k =
     (if fd < 0 then Fatal k
      else and_then (CHECK_RANGE from len k) (\<lambda>_ k1. socket_nbd_write rand1 rand2 w from len (InFd data) k1))"

subsection \<open>When the server answers\<close>

lemma readloop_chunk: "bs \<noteq> [] \<Longrightarrow> readloop (length bs) (Avail bs # es) = (bs, IoDone, es)"
  by (simp add: readloop.simps [of "length bs"]) (simp add: readloop.simps [of 0])

lemma conn_read_chunk: "nc_in k = Avail bs # es \<Longrightarrow> bs \<noteq> [] \<Longrightarrow> length bs = n \<Longrightarrow> conn_read n k = (bs, True, k\<lparr>nc_in := es\<rparr>)"
  using readloop_chunk [of bs es] by (simp add: conn_read_def)

lemma conn_write_clean:
  assumes "wr_clean (nc_wr k)"
  obtains es where "conn_write b k = (True, k\<lparr>nc_wr := es, nc_out := nc_out k @ b\<rparr>)" "wr_clean es"
  using writeloop_clean [OF assms, of b] by (auto simp: conn_write_def)

lemma splice_chunk: "d \<noteq> [] \<Longrightarrow> splice_via_pipe_loop (Avail d # es) 0 (length d) [] = Some (d, 0, es)"
  by (simp add: splice_via_pipe_loop.simps [of _ 0] spliceloop_exact) (simp add: splice_via_pipe_loop.simps)

definition nbd_handle :: "u32 \<Rightarrow> u32 \<Rightarrow> u64" where
  "nbd_handle rand1 rand2 = push_bit 32 (ucast rand1) OR ucast rand2"

lemma fill_request_h2r:
  "fill_request rand1 rand2 type flags from len = nbd_h2r_request
     \<lparr>rq_magic = REQUEST_MAGIC, rq_flags = flags, rq_type = type, rq_handle = nbd_handle rand1 rand2, rq_from = from, rq_len = len\<rparr>"
  by (simp add: fill_request_def nbd_h2r_request_def nbd_handle_def)

abbreviation ok_reply :: "u64 \<Rightarrow> byte list" where
  "ok_reply handle \<equiv> reply_bytes handle 0"

lemma read_reply_ok:
  assumes "nc_in k = Avail (ok_reply h) # es"
  shows "\<exists>r. read_reply h k = Ret r (k\<lparr>nc_in := es\<rparr>)"
proof -
  have "ok_reply h \<noteq> []" by (rule length_greater_0_conv [THEN iffD1]) (simp add: NBD_REPLY_SIZE_def)
  then have "conn_read NBD_REPLY_SIZE k = (ok_reply h, True, k\<lparr>nc_in := es\<rparr>)" using assms by (intro conn_read_chunk) simp_all
  then show ?thesis by (simp add: read_reply_def Let_def reply_bytes_def nbd_h2r_reply_def nbd_r2h_reply_def)
qed

lemma CHECK_RANGE_ok:
  assumes "nc_in k = Avail hello # es" "length hello = NBD_INIT_SIZE" "nbd_check_hello (init_raw_of hello) = Some (sz, flags)"
    "unat from + unat len \<le> unat sz"
  shows "CHECK_RANGE from len k = Ret () (k\<lparr>nc_in := es\<rparr>)"
proof -
  have "hello \<noteq> []" using assms(2) by (auto simp: NBD_INIT_SIZE_def)
  then have "conn_read NBD_INIT_SIZE k = (hello, True, k\<lparr>nc_in := es\<rparr>)" using assms(1,2) by (intro conn_read_chunk) simp_all
  moreover have "unat (from + ucast len) = unat from + unat len"
    using order_le_less_trans [OF assms(4) unsigned_less] by (subst unat_add_u64) simp_all
  ultimately show ?thesis
    using assms(3,4) by (simp add: CHECK_RANGE_def socket_nbd_read_hello_def Let_def word_less_nat_alt)
qed

lemma do_read_answered:
  assumes "0 \<le> fd" "wr_clean (nc_wr k)" "nc_in k = [Avail hello, Avail (ok_reply (nbd_handle r1 r2)), Avail data]"
    "length hello = NBD_INIT_SIZE" "nbd_check_hello (init_raw_of hello) = Some (sz, flags)" "unat from + unat len \<le> unat sz"
    "length data = unat len" "data \<noteq> []"
  shows "\<exists>k'. do_read fd r1 r2 DataReady from len k = Ret data k'
     \<and> nc_out k' = nc_out k @ request_raw_bytes (fill_request r1 r2 REQUEST_READ 0 from len)"
proof -
  let ?r = "request_raw_bytes (fill_request r1 r2 REQUEST_READ 0 from len)"
  note c = CHECK_RANGE_ok [OF assms(3-6)]
  obtain es where w: "conn_write ?r (k\<lparr>nc_in := [Avail (ok_reply (nbd_handle r1 r2)), Avail data]\<rparr>)
      = (True, k\<lparr>nc_in := [Avail (ok_reply (nbd_handle r1 r2)), Avail data], nc_wr := es, nc_out := nc_out k @ ?r\<rparr>)"
    using conn_write_clean [of "k\<lparr>nc_in := [Avail (ok_reply (nbd_handle r1 r2)), Avail data]\<rparr>" ?r] assms(2) by auto
  let ?k = "k\<lparr>nc_in := [Avail (ok_reply (nbd_handle r1 r2)), Avail data], nc_wr := es, nc_out := nc_out k @ ?r\<rparr>"
  have h: "rqr_handle (fill_request r1 r2 REQUEST_READ 0 from len) = nbd_handle r1 r2" by (simp add: fill_request_def nbd_handle_def)
  obtain rp where rp: "read_reply (nbd_handle r1 r2) ?k = Ret rp (?k\<lparr>nc_in := [Avail data]\<rparr>)" using read_reply_ok [of ?k] by auto
  have "splice_from (unat len) (?k\<lparr>nc_in := [Avail data]\<rparr>) = Ret data (?k\<lparr>nc_in := []\<rparr>)"
    using splice_chunk [OF assms(8), of "[]"] assms(7) by (simp add: splice_from_def)
  with c w h rp assms(1) show ?thesis by (simp add: do_read_def socket_nbd_read_def wait_for_data_def)
qed

lemma do_write_answered:
  assumes "0 \<le> fd" "wr_clean (nc_wr k)" "nc_in k = [Avail hello, Avail (ok_reply (nbd_handle r1 r2))]"
    "length hello = NBD_INIT_SIZE" "nbd_check_hello (init_raw_of hello) = Some (sz, flags)" "unat from + unat len \<le> unat sz"
    "length data = unat len" "data \<noteq> []"
  shows "\<exists>k'. do_write fd r1 r2 DataReady from len [Avail data] k = Ret () k'
     \<and> nc_out k' = nc_out k @ request_raw_bytes (fill_request r1 r2 REQUEST_WRITE 0 from len) @ data"
proof -
  let ?r = "request_raw_bytes (fill_request r1 r2 REQUEST_WRITE 0 from len)"
  note c = CHECK_RANGE_ok [OF assms(3-6)]
  obtain es where w: "conn_write ?r (k\<lparr>nc_in := [Avail (ok_reply (nbd_handle r1 r2))]\<rparr>)
      = (True, k\<lparr>nc_in := [Avail (ok_reply (nbd_handle r1 r2))], nc_wr := es, nc_out := nc_out k @ ?r\<rparr>)"
    using conn_write_clean [of "k\<lparr>nc_in := [Avail (ok_reply (nbd_handle r1 r2))]\<rparr>" ?r] assms(2) by auto
  let ?k = "k\<lparr>nc_in := [Avail (ok_reply (nbd_handle r1 r2))], nc_wr := es, nc_out := nc_out k @ ?r\<rparr>"
  have h: "rqr_handle (fill_request r1 r2 REQUEST_WRITE 0 from len) = nbd_handle r1 r2" by (simp add: fill_request_def nbd_handle_def)
  have s: "splice_to [Avail data] (unat len) ?k = Ret () (?k\<lparr>nc_out := nc_out k @ ?r @ data\<rparr>)"
    using splice_chunk [OF assms(8), of "[]"] assms(7) by (simp add: splice_to_def)
  obtain rp where "read_reply (nbd_handle r1 r2) (?k\<lparr>nc_out := nc_out k @ ?r @ data\<rparr>) = Ret rp (?k\<lparr>nc_out := nc_out k @ ?r @ data, nc_in := []\<rparr>)"
    using read_reply_ok [of "?k\<lparr>nc_out := nc_out k @ ?r @ data\<rparr>"] by auto
  with c w h s assms(1) show ?thesis by (simp add: do_write_def socket_nbd_write_def wait_for_data_def)
qed

end
