(* ===== verification/Sockutil.thy ===== *)
theory Sockutil
  imports Ioutil Parse_Acl
begin

text \<open>
  The socket helpers of \<^verbatim>\<open>src/src/common/sockutil.c\<close> that have logic of their own: the retry loops around
  bind(), select(), connect() and close(), and the sequences of socket options.  A system call that may be
  repeated is the list of its results, each \<open>Inl errno\<close> for a failure or \<open>Inr\<close> its value.
\<close>

definition EADDRINUSE :: int where "EADDRINUSE = 98"
definition EADDRNOTAVAIL :: int where "EADDRNOTAVAIL = 99"
definition EINPROGRESS :: int where "EINPROGRESS = 115"
definition O_NONBLOCK :: int where "O_NONBLOCK = 2048"

definition sockaddr_size :: "sockaddr \<Rightarrow> nat" where
  "sockaddr_size sa = (case sa of AF_INET _ \<Rightarrow> 16 | AF_INET6 _ \<Rightarrow> 28 | AF_UNIX path \<Rightarrow> 2 + (2 + length (c_string path)))"

text \<open>The options of a socket and their values; \<open>ok\<close> says which ones the system lets be set.\<close>

datatype sock_option = SO_REUSEADDR | SO_KEEPALIVE | TCP_KEEPIDLE | TCP_KEEPINTVL | TCP_KEEPCNT | TCP_NODELAY | TCP_CORK

type_synonym sock_set = "(sock_option \<Rightarrow> int) \<Rightarrow> int \<times> (sock_option \<Rightarrow> int)"

definition setsockopt :: "(sock_option \<Rightarrow> bool) \<Rightarrow> sock_option \<Rightarrow> int \<Rightarrow> sock_set" where
  "setsockopt ok opt optval opts = (if ok opt then (0, opts(opt := optval)) else (-1, opts))"

definition sock_set_reuseaddr :: "(sock_option \<Rightarrow> bool) \<Rightarrow> int \<Rightarrow> sock_set" where
  "sock_set_reuseaddr ok = setsockopt ok SO_REUSEADDR"

definition sock_set_keepalive :: "(sock_option \<Rightarrow> bool) \<Rightarrow> int \<Rightarrow> sock_set" where
  "sock_set_keepalive ok = setsockopt ok SO_KEEPALIVE"

definition sock_set_tcp_keepidle :: "(sock_option \<Rightarrow> bool) \<Rightarrow> int \<Rightarrow> sock_set" where
  "sock_set_tcp_keepidle ok = setsockopt ok TCP_KEEPIDLE"

definition sock_set_tcp_keepintvl :: "(sock_option \<Rightarrow> bool) \<Rightarrow> int \<Rightarrow> sock_set" where
  "sock_set_tcp_keepintvl ok = setsockopt ok TCP_KEEPINTVL"

definition sock_set_tcp_keepcnt :: "(sock_option \<Rightarrow> bool) \<Rightarrow> int \<Rightarrow> sock_set" where
  "sock_set_tcp_keepcnt ok = setsockopt ok TCP_KEEPCNT"

definition sock_set_tcp_nodelay :: "(sock_option \<Rightarrow> bool) \<Rightarrow> int \<Rightarrow> sock_set" where
  "sock_set_tcp_nodelay ok = setsockopt ok TCP_NODELAY"

definition sock_set_tcp_cork :: "(sock_option \<Rightarrow> bool) \<Rightarrow> int \<Rightarrow> sock_set" where
  "sock_set_tcp_cork ok = setsockopt ok TCP_CORK"

definition sock_set_keepalive_params :: "(sock_option \<Rightarrow> bool) \<Rightarrow> int \<Rightarrow> int \<Rightarrow> int \<Rightarrow> sock_set" where
  "sock_set_keepalive_params ok time intvl probes opts =
     (case sock_set_keepalive ok 1 opts of (r1, o1) \<Rightarrow> if r1 \<noteq> 0 then (-1, o1) else
      case sock_set_tcp_keepidle ok time o1 of (r2, o2) \<Rightarrow> if r2 \<noteq> 0 then (-1, o2) else
      case sock_set_tcp_keepintvl ok intvl o2 of (r3, o3) \<Rightarrow> if r3 \<noteq> 0 then (-1, o3) else
      case sock_set_tcp_keepcnt ok probes o3 of (r4, o4) \<Rightarrow> if r4 \<noteq> 0 then (-1, o4) else (0, o4))"

definition sock_set_nonblock :: "int \<Rightarrow> bool \<Rightarrow> int option" where
  "sock_set_nonblock flags optval =
     (if flags = -1 then None
      else Some (if optval then flags OR O_NONBLOCK else flags AND NOT O_NONBLOCK))"

fun sock_try_bind_from :: "nat \<Rightarrow> (int + unit) list \<Rightarrow> (bool \<times> (int + unit) list) option" where
  "sock_try_bind_from retry [] = None"
| "sock_try_bind_from retry (Inr _ # rs) = Some (True, rs)"
| "sock_try_bind_from retry (Inl errno # rs) =
     (if errno = EADDRNOTAVAIL \<and> retry - 1 \<noteq> 0 then sock_try_bind_from (retry - 1) rs else Some (False, rs))"

definition sock_try_bind :: "(int + unit) list \<Rightarrow> (bool \<times> (int + unit) list) option" where
  "sock_try_bind rs = sock_try_bind_from 10 rs"

fun sock_try_select :: "(int + nat) list \<Rightarrow> ((int + nat) \<times> (int + nat) list) option" where
  "sock_try_select [] = None"
| "sock_try_select (Inr n # rs) = Some (Inr n, rs)"
| "sock_try_select (Inl errno # rs) = (if errno = EINTR then sock_try_select rs else Some (Inl errno, rs))"

fun connect_loop :: "(int + unit) list \<Rightarrow> (bool \<times> (int + unit) list) option" where
  "connect_loop [] = None"
| "connect_loop (Inr _ # rs) = Some (True, rs)"
| "connect_loop (Inl errno # rs) =
     (if errno = EINPROGRESS then Some (True, rs)
      else if errno = EAGAIN \<or> errno = EINTR then connect_loop rs
      else Some (False, rs))"

definition connect_finish :: "(int + nat) list \<Rightarrow> bool \<Rightarrow> int option \<Rightarrow> bool option" where
  "connect_finish selects writable so_error =
     (case sock_try_select selects of
        None \<Rightarrow> None
      | Some (Inl _, _) \<Rightarrow> Some False
      | Some (Inr _, _) \<Rightarrow>
          Some (writable \<and> (case so_error of None \<Rightarrow> False
                              | Some e \<Rightarrow> (if e = EINPROGRESS then ETIMEDOUT else e) = 0)))"

definition sock_try_connect ::
  "bool \<Rightarrow> (int + unit) list \<Rightarrow> (int + nat) list \<Rightarrow> bool \<Rightarrow> int option \<Rightarrow> bool \<Rightarrow> bool option"
where
  "sock_try_connect nonblock_ok connects selects writable so_error block_ok =
     (if \<not> nonblock_ok then (case connects of [] \<Rightarrow> None | r # _ \<Rightarrow> Some (r = Inr ()))
      else case connect_loop connects of
             None \<Rightarrow> None
           | Some (started, _) \<Rightarrow>
               (case (if started then connect_finish selects writable so_error else Some False) of
                  None \<Rightarrow> None
                | Some connected \<Rightarrow> Some (connected \<and> block_ok)))"

definition sock_try_close :: "int + unit \<Rightarrow> bool" where
  "sock_try_close r = (r = Inr ())"

text \<open>How \<open>sock_try_bind\<close> ends: it stops at the first result that is not EADDRNOTAVAIL, and after ten of
  those.\<close>

lemma sock_try_bind_from_spec:
  assumes "0 < retry" "list_all (\<lambda>r. r = Inl EADDRNOTAVAIL) bad"
  shows "length bad < retry \<Longrightarrow> r \<noteq> Inl EADDRNOTAVAIL \<Longrightarrow> sock_try_bind_from retry (bad @ r # rs) = Some (r = Inr (), rs)"
    and "length bad = retry \<Longrightarrow> sock_try_bind_from retry (bad @ rs) = Some (False, rs)"
  using assms
proof (induction bad arbitrary: retry)
  case Nil
  { case 1 then show ?case by (cases r) auto }
  { case 2 then show ?case by simp }
next
  case (Cons b bad)
  { case 1 then show ?case using Cons.IH(1) [of "retry - 1"] by auto }
  { case 2 then show ?case using Cons.IH(2) [of "retry - 1"] by (cases bad) auto }
qed

text \<open>Keepalive is all or an error: success means that all four options have their values.\<close>

lemma keepalive_params_set:
  assumes "sock_set_keepalive_params ok time intvl probes opts = (r, opts')"
  shows "r = 0 \<or> r = -1"
    and "r = 0 \<longleftrightarrow> ok SO_KEEPALIVE \<and> ok TCP_KEEPIDLE \<and> ok TCP_KEEPINTVL \<and> ok TCP_KEEPCNT"
    and "r = 0 \<Longrightarrow> opts' = opts(SO_KEEPALIVE := 1, TCP_KEEPIDLE := time, TCP_KEEPINTVL := intvl, TCP_KEEPCNT := probes)"
  using assms
  by (auto simp: sock_set_keepalive_params_def sock_set_keepalive_def sock_set_tcp_keepidle_def sock_set_tcp_keepintvl_def
      sock_set_tcp_keepcnt_def setsockopt_def split: if_splits)

end
