(* ===== verification/Serve.thy ===== *)
theory Serve
  imports Client Sockutil
begin

text \<open>
  The server's main thread, \<^verbatim>\<open>src/src/server/serve.c\<close>: the table of clients, the access list and its audit,
  the accept loop, shutdown.  \<open>serving\<close> is the part of \<^verbatim>\<open>struct server\<close> that this thread owns; its field
  \<open>core\<close> is the part shared with the client threads.  Joins, socket calls and thread creation are inputs.
  The signal pipes are counters of unread bytes and writing to them succeeds.  The lock flags say whether the
  thread at hand holds the lock: it would wait for ever for a lock of its own, and other threads hold
  theirs for a few statements only.
\<close>

subsection \<open>State\<close>

definition EBUSY :: int where "EBUSY = 16"
definition MAX_NBD_CLIENTS :: nat where "MAX_NBD_CLIENTS = 16"

record slot_client =
  cl_stopped :: bool
  cl_stop_signal :: nat

record client_tbl_entry =
  ce_thread :: nat
  ce_address :: sockaddr
  ce_client :: "slot_client option"

record serving =
  core :: server
  bind_to :: sockaddr
  bind_port :: u16
  sv_acl :: "acl option"
  acl_updated_signal :: nat
  l_start_mirror :: bool
  mirror_super :: bool
  mirror_can_start :: bool
  server_fd :: int
  control_open :: bool
  max_nbd_clients :: nat
  nbd_client :: "client_tbl_entry list"
  closed_fds :: "int list"

type_synonym 'a serve_op = "serving \<Rightarrow> (serving, 'a) outcome"

definition empty_slot :: client_tbl_entry where
  "empty_slot = \<lparr>ce_thread = 0, ce_address = AF_INET [0, 0, 0, 0], ce_client = None\<rparr>"

definition on_core :: "(server \<Rightarrow> server) \<Rightarrow> serving \<Rightarrow> serving" where
  "on_core f s = s\<lparr>core := f (core s)\<rparr>"

definition server_forbid_new_clients :: "serving \<Rightarrow> serving" where
  "server_forbid_new_clients = on_core (\<lambda>c. c\<lparr>allow_new_clients := False\<rparr>)"

definition server_allow_new_clients :: "serving \<Rightarrow> serving" where
  "server_allow_new_clients = on_core (\<lambda>c. c\<lparr>allow_new_clients := True\<rparr>)"

definition new_serving :: "sockaddr \<Rightarrow> u16 \<Rightarrow> acl \<Rightarrow> nat \<Rightarrow> bool \<Rightarrow> bool \<Rightarrow> bool \<Rightarrow> serving" where
  "new_serving addr port l max_clients use_ks succ ctl =
     \<lparr>core = \<lparr>file_map = [], serve_size = 0, allocation_map = bitset_alloc 0 0 4096,
        allocation_map_built = False, allocation_map_not_built = False, allow_new_clients = True,
        use_killswitch = use_ks, server_closed = False, acl_locked = False, success = succ, close_signalled = False\<rparr>,
      bind_to = addr, bind_port = port, sv_acl = Some l, acl_updated_signal = 0, l_start_mirror = False,
      mirror_super = False, mirror_can_start = True, server_fd = 0, control_open = ctl, max_nbd_clients = max_clients,
      nbd_client = replicate max_clients empty_slot, closed_fds = []\<rparr>"

definition server_create ::
  "byte list option \<Rightarrow> byte list option \<Rightarrow> bool \<Rightarrow> bool \<Rightarrow> byte list list \<Rightarrow> nat \<Rightarrow> bool \<Rightarrow> bool \<Rightarrow> bool \<Rightarrow> (unit, serving) outcome"
where
  "server_create s_ip_address s_port has_file default_deny s_acl_entries max_clients use_ks succ ctl =
     (case (s_ip_address, s_port) of
        (Some ip, Some port) \<Rightarrow>
          if \<not> has_file then Fatal ()
          else (case parse_ip_to_sockaddr ip of
                  Done (Some a) \<Rightarrow>
                    (case acl_create s_acl_entries default_deny of
                       Done l \<Rightarrow>
                         if length (acl_entries l) \<noteq> length s_acl_entries then Fatal ()
                         else and_then (parse_port port) (\<lambda>p _. Ret (new_serving a p l max_clients use_ks succ ctl) ())
                     | _ \<Rightarrow> Fault)
                | Done None \<Rightarrow> Fatal ()
                | _ \<Rightarrow> Fault)
      | _ \<Rightarrow> Fatal ())"

subsection \<open>Locks and the mirror flag\<close>

definition server_lock_acl :: "unit serve_op" where
  "server_lock_acl s = (if acl_locked (core s) then Asleep s else Ret () (on_core (\<lambda>c. c\<lparr>acl_locked := True\<rparr>) s))"

definition server_unlock_acl :: "serving \<Rightarrow> serving" where
  "server_unlock_acl = on_core (\<lambda>c. c\<lparr>acl_locked := False\<rparr>)"

text \<open>Whether this thread holds a lock.\<close>

definition server_acl_locked :: "serving \<Rightarrow> bool" where
  [simp]: "server_acl_locked s = acl_locked (core s)"

definition server_start_mirror_locked :: "serving \<Rightarrow> bool" where
  [simp]: "server_start_mirror_locked s = l_start_mirror s"

definition server_lock_start_mirror :: "unit serve_op" where
  "server_lock_start_mirror s = (if l_start_mirror s then Asleep s else Ret () (s\<lparr>l_start_mirror := True\<rparr>))"

definition server_unlock_start_mirror :: "serving \<Rightarrow> serving" where
  "server_unlock_start_mirror s = s\<lparr>l_start_mirror := False\<rparr>"

definition server_prevent_mirror_start :: "serving \<Rightarrow> serving" where
  "server_prevent_mirror_start s = s\<lparr>mirror_can_start := False\<rparr>"

definition server_allow_mirror_start :: "serving \<Rightarrow> serving" where
  "server_allow_mirror_start s = s\<lparr>mirror_can_start := True\<rparr>"

definition server_mirror_can_start :: "serving \<Rightarrow> bool" where
  [simp]: "server_mirror_can_start s = mirror_can_start s"

definition server_is_mirroring :: "serving \<Rightarrow> bool" where
  [simp]: "server_is_mirroring s = mirror_super s"

definition server_is_in_control :: "serving \<Rightarrow> bool" where
  [simp]: "server_is_in_control s = success (core s)"

definition server_abandon_mirror :: "serving \<Rightarrow> serving" where
  "server_abandon_mirror s =
     (if mirror_super s then (server_allow_mirror_start s)\<lparr>mirror_super := False\<rparr> else s)"

definition serve_shutdown_is_graceful :: "bool serve_op" where
  "serve_shutdown_is_graceful s =
     and_then (server_lock_start_mirror s) (\<lambda>_ s1.
       let s2 = (if server_is_mirroring s1 then server_prevent_mirror_start s1 else s1)
       in Ret (\<not> server_is_mirroring s1) (server_unlock_start_mirror s2))"

subsection \<open>The listening socket and the allocation map\<close>

record open_results =
  or_socket :: int
  or_reuseaddr :: bool
  or_nodelay :: bool
  or_binds :: "(int + unit) list"
  or_listen :: bool

definition serve_open_server_socket :: "open_results \<Rightarrow> unit serve_op" where
  "serve_open_server_socket r s =
     (let s1 = s\<lparr>server_fd := or_socket r\<rparr> in
      if or_socket r < 0 \<or> \<not> or_reuseaddr r \<or> \<not> or_nodelay r then Fatal s1
      else case sock_try_bind (or_binds r) of
             None \<Rightarrow> Asleep s1
           | Some (bound, _) \<Rightarrow> if bound \<and> or_listen r then Ret () s1 else Fatal s1)"

definition build_allocation_map_thread :: "bool \<Rightarrow> fiemap \<Rightarrow> unit serve_op" where
  "build_allocation_map_thread open_ok ioctl s =
     (if \<not> open_ok then Fatal s
      else case build_allocation_map ioctl (allocation_map (core s)) of
             None \<Rightarrow> Spins
           | Some (Done (r, bs)) \<Rightarrow>
               let s1 = on_core (\<lambda>c. c\<lparr>allocation_map := bs\<rparr>) s in
               Ret () (if r \<noteq> 0 then on_core (\<lambda>c. c\<lparr>allocation_map_built := True\<rparr>) s1
                       else on_core (\<lambda>c. c\<lparr>allocation_map_not_built := True\<rparr>) s1)
           | Some (Blocked (r, bs)) \<Rightarrow> Asleep (on_core (\<lambda>c. c\<lparr>allocation_map := bs\<rparr>) s)
           | Some OutOfBounds \<Rightarrow> Fault)"

definition serve_init_allocation_map :: "bool \<Rightarrow> int \<Rightarrow> u64 \<Rightarrow> unit serve_op" where
  "serve_init_allocation_map open_ok lseek_result junk s =
     (if \<not> open_ok then Fatal s
      else let sz = (if lseek_result \<noteq> lseek_result AND NOT 0x1ff then lseek_result AND NOT 0x1ff else lseek_result);
               s1 = on_core (\<lambda>c. c\<lparr>serve_size := word_of_int sz\<rparr>) s
           in if sz < 0 then Fatal s1
              else Ret () (on_core (\<lambda>c. c\<lparr>allocation_map := bitset_alloc junk (word_of_int sz) 4096\<rparr>) s1))"

subsection \<open>The table of clients\<close>

definition tryjoin_client_thread :: "int \<Rightarrow> client_tbl_entry \<Rightarrow> (unit, bool \<times> client_tbl_entry) outcome" where
  "tryjoin_client_thread join_errno entry =
     (if ce_thread entry = 0 then Ret (False, entry) ()
      else if join_errno \<noteq> 0 then
        (case ce_client entry of
           None \<Rightarrow> Fault
         | Some cl \<Rightarrow> if \<not> cl_stopped cl \<and> join_errno \<noteq> EBUSY then Fatal () else Ret (False, entry) ())
      else (if ce_client entry = None then Fatal ()
            else Ret (True, entry\<lparr>ce_client := None, ce_thread := 0\<rparr>) ()))"

text \<open>Without waiting (\<^verbatim>\<open>pthread_tryjoin_np\<close>).\<close>

definition cleanup_client_thread :: "int \<Rightarrow> client_tbl_entry \<Rightarrow> (unit, bool \<times> client_tbl_entry) outcome" where
  [simp]: "cleanup_client_thread join_errno entry = tryjoin_client_thread join_errno entry"

text \<open>Waiting (\<^verbatim>\<open>pthread_join\<close>).\<close>

definition join_client_thread :: "int \<Rightarrow> client_tbl_entry \<Rightarrow> (unit, bool \<times> client_tbl_entry) outcome" where
  [simp]: "join_client_thread join_errno entry = tryjoin_client_thread join_errno entry"

fun cleanup_client_threads :: "(nat \<Rightarrow> int) \<Rightarrow> nat \<Rightarrow> client_tbl_entry list \<Rightarrow> (unit, client_tbl_entry list) outcome" where
  "cleanup_client_threads joins i [] = Ret [] ()"
| "cleanup_client_threads joins i (e # es) =
     and_then (cleanup_client_thread (joins i) e) (\<lambda>r _.
     and_then (cleanup_client_threads joins (i + 1) es) (\<lambda>es' _. Ret (snd r # es') ()))"

fun find_slot :: "nat \<Rightarrow> client_tbl_entry list \<Rightarrow> nat option" where
  "find_slot i [] = None"
| "find_slot i (e # es) = (if ce_thread e = 0 then Some i else find_slot (i + 1) es)"

definition in_table :: "(unit, client_tbl_entry list) outcome \<Rightarrow> serving \<Rightarrow> (serving, client_tbl_entry list) outcome" where
  "in_table r s =
     (case r of Ret es _ \<Rightarrow> Ret es s | Error _ \<Rightarrow> Error s | Fatal _ \<Rightarrow> Fatal s | Asleep _ \<Rightarrow> Asleep s | Spins \<Rightarrow> Spins | Fault \<Rightarrow> Fault)"

definition cleanup_and_find_client_slot :: "(nat \<Rightarrow> int) \<Rightarrow> (nat option) serve_op" where
  "cleanup_and_find_client_slot joins s =
     and_then (in_table (cleanup_client_threads joins 0 (nbd_client s)) s) (\<lambda>es s1.
       Ret (find_slot 0 es) (s1\<lparr>nbd_client := es\<rparr>))"

definition server_count_clients :: "(nat \<Rightarrow> int) \<Rightarrow> nat serve_op" where
  "server_count_clients joins s =
     and_then (in_table (cleanup_client_threads joins 0 (nbd_client s)) s) (\<lambda>es s1.
       Ret (length (filter (\<lambda>e. ce_thread e \<noteq> 0) es)) (s1\<lparr>nbd_client := es\<rparr>))"

subsection \<open>Access control\<close>

definition acl_accepts :: "acl option \<Rightarrow> sockaddr \<Rightarrow> (unit, bool) outcome" where
  "acl_accepts l a = (case l of None \<Rightarrow> Ret True () | Some acl \<Rightarrow> acl_includes acl a)"

definition server_acl_accepts :: "sockaddr \<Rightarrow> bool serve_op" where
  "server_acl_accepts a s =
     and_then (server_lock_acl s) (\<lambda>_ s1.
       case acl_accepts (sv_acl s1) a of
         Ret b _ \<Rightarrow> Ret b (server_unlock_acl s1)
       | Fatal _ \<Rightarrow> Fatal s1
       | _ \<Rightarrow> Fault)"

definition server_should_accept_client :: "bool \<Rightarrow> sockaddr \<Rightarrow> bool serve_op" where
  "server_should_accept_client printable a s = (if \<not> printable then Ret False s else server_acl_accepts a s)"

definition client_signal_stop :: "client_tbl_entry \<Rightarrow> client_tbl_entry option" where
  "client_signal_stop e =
     (case ce_client e of None \<Rightarrow> None | Some cl \<Rightarrow> Some (e\<lparr>ce_client := Some (cl\<lparr>cl_stop_signal := cl_stop_signal cl + 1\<rparr>)\<rparr>))"

definition server_audit_client :: "nat \<Rightarrow> unit serve_op" where
  "server_audit_client i s =
     (if ce_thread (nbd_client s ! i) = 0 then Ret () s
      else and_then (server_acl_accepts (ce_address (nbd_client s ! i)) s) (\<lambda>accepted s1.
             if accepted then Ret () s1
             else case client_signal_stop (nbd_client s1 ! i) of
                    None \<Rightarrow> Fatal s1
                  | Some e \<Rightarrow> Ret () (s1\<lparr>nbd_client := (nbd_client s1)[i := e]\<rparr>)))"

fun each_client :: "(nat \<Rightarrow> unit serve_op) \<Rightarrow> nat list \<Rightarrow> unit serve_op" where
  "each_client f [] s = Ret () s"
| "each_client f (i # is) s = and_then (f i s) (\<lambda>_. each_client f is)"

definition server_audit_clients :: "unit serve_op" where
  "server_audit_clients s = each_client server_audit_client [0..<max_nbd_clients s] s"

definition server_close_client :: "nat \<Rightarrow> unit serve_op" where
  "server_close_client i s =
     (if ce_thread (nbd_client s ! i) = 0 then Ret () s
      else case client_signal_stop (nbd_client s ! i) of
             None \<Rightarrow> Fatal s
           | Some e \<Rightarrow> Ret () (s\<lparr>nbd_client := (nbd_client s)[i := e]\<rparr>))"

definition server_close_clients :: "unit serve_op" where
  "server_close_clients s = each_client server_close_client [0..<max_nbd_clients s] s"

definition install_acl :: "acl \<Rightarrow> unit serve_op" where
  "install_acl new_acl s =
     and_then (server_lock_acl s) (\<lambda>_ s1. Ret () (server_unlock_acl (s1\<lparr>sv_acl := Some new_acl\<rparr>)))"

definition signal_acl_updated :: "serving \<Rightarrow> serving" where
  "signal_acl_updated s = s\<lparr>acl_updated_signal := acl_updated_signal s + 1\<rparr>"

definition clear_acl_updated :: "serving \<Rightarrow> serving" where
  "clear_acl_updated s = s\<lparr>acl_updated_signal := acl_updated_signal s - 1\<rparr>"

definition server_replace_acl :: "acl \<Rightarrow> unit serve_op" where
  "server_replace_acl new_acl s =
     and_then (install_acl new_acl s) (\<lambda>_ s1. Ret () (signal_acl_updated s1))"

subsection \<open>Accepting a connection\<close>

text \<open>What the system answers while one connection is dealt with: the descriptor and address of
  \<^verbatim>\<open>accept()\<close>, whether the socket options can be set, the address can be printed and the socket closed, what
  \<^verbatim>\<open>pthread_create()\<close> returns and leaves in the slot, and what each \<^verbatim>\<open>pthread_tryjoin_np()\<close> returns.\<close>

record conn =
  cn_fd :: int
  cn_address :: sockaddr
  cn_keepalive :: int
  cn_printable :: bool
  cn_close :: bool
  cn_spawn :: int
  cn_thread :: nat
  cn_joins :: "nat \<Rightarrow> int"

definition new_client :: slot_client where
  "new_client = \<lparr>cl_stopped = False, cl_stop_signal = 0\<rparr>"

definition close_client_fd :: "conn \<Rightarrow> unit serve_op" where
  "close_client_fd cn s =
     (if cn_close cn then Ret () (s\<lparr>closed_fds := closed_fds s @ [cn_fd cn]\<rparr>) else Fatal s)"

text \<open>The result of \<^verbatim>\<open>pthread_create\<close> is 0 or an error number.\<close>

definition spawn_client_thread :: "conn \<Rightarrow> int" where
  [simp]: "spawn_client_thread cn = cn_spawn cn"

definition start_client :: "conn \<Rightarrow> unit serve_op" where
  "start_client cn s =
     and_then (cleanup_and_find_client_slot (cn_joins cn) s) (\<lambda>found s1.
       case found of
         None \<Rightarrow> close_client_fd cn s1
       | Some slot \<Rightarrow>
           let entry = \<lparr>ce_thread = cn_thread cn, ce_address = cn_address cn,
                        ce_client = (if spawn_client_thread cn = 0 then Some new_client else None)\<rparr>;
               s2 = s1\<lparr>nbd_client := (nbd_client s1)[slot := entry]\<rparr>
           in if spawn_client_thread cn \<noteq> 0 then close_client_fd cn s2 else Ret () s2)"

definition accept_nbd_client :: "conn \<Rightarrow> unit serve_op" where
  "accept_nbd_client cn s =
     (if cn_keepalive cn < 0 then Fatal s
      else and_then (server_should_accept_client (cn_printable cn) (cn_address cn) s) (\<lambda>ok s1.
             if \<not> ok then close_client_fd cn s1 else start_client cn s1))"

subsection \<open>The accept loop\<close>

text \<open>One turn: what \<^verbatim>\<open>select()\<close> returns, whether a signal has arrived, and the connection waiting on the
  listening socket, if any.\<close>

record turn =
  tn_select :: "(int + nat) list"
  tn_signal :: bool
  tn_conn :: "conn option"

definition stop_signal_received :: "unit serve_op" where
  "stop_signal_received s =
     and_then (server_close_clients s) (\<lambda>_ s1.
       if server_is_in_control s1
       then and_then (serve_shutdown_is_graceful s1) (\<lambda>ok s2. Ret () (on_core (\<lambda>c. c\<lparr>success := ok\<rparr>) s2))
       else Ret () s1)"

definition take_connection :: "conn \<Rightarrow> unit serve_op" where
  "take_connection cn s =
     (if allow_new_clients (core s) then accept_nbd_client cn s
      else Ret () (s\<lparr>closed_fds := closed_fds s @ [cn_fd cn]\<rparr>))"

definition server_accept :: "turn \<Rightarrow> bool serve_op" where
  "server_accept t s =
     (case sock_try_select (tn_select t) of
        None \<Rightarrow> Asleep s
      | Some (Inl _, _) \<Rightarrow> Fatal s
      | Some (Inr _, _) \<Rightarrow>
          let close = close_signalled (core s); acl = (0 < acl_updated_signal s) in
          and_then (if close then server_close_clients s else Ret () s) (\<lambda>_ s1.
          and_then (if tn_signal t then stop_signal_received s1 else Ret () s1) (\<lambda>_ s2.
          and_then (if acl then server_audit_clients (clear_acl_updated s2)
                    else Ret () s2) (\<lambda>_ s3.
          and_then (case tn_conn t of None \<Rightarrow> Ret () s3 | Some cn \<Rightarrow> take_connection cn s3) (\<lambda>_ s4.
            Ret (\<not> close \<and> \<not> tn_signal t) s4)))))"

fun serve_accept_loop :: "turn list \<Rightarrow> unit serve_op" where
  "serve_accept_loop [] s = Asleep s"
| "serve_accept_loop (t # ts) s =
     and_then (server_accept t s) (\<lambda>continue s1. if continue then serve_accept_loop ts s1 else Ret () s1)"

subsection \<open>Shutting down\<close>

definition server_join_client :: "int \<Rightarrow> client_tbl_entry \<Rightarrow> client_tbl_entry" where
  "server_join_client err e = (if ce_thread e \<noteq> 0 \<and> err = 0 then e\<lparr>ce_thread := 0\<rparr> else e)"

definition server_join_clients :: "(nat \<Rightarrow> int) \<Rightarrow> serving \<Rightarrow> serving" where
  "server_join_clients joins s =
     s\<lparr>nbd_client := map (\<lambda>(i, e). server_join_client (joins i) e) (enumerate 0 (nbd_client s))\<rparr>"

definition cleanup_sockets :: "serving \<Rightarrow> serving" where
  "cleanup_sockets s =
     (let s1 = s\<lparr>control_open := False\<rparr> in
      if server_fd s1 \<noteq> 0
      then on_core (\<lambda>c. c\<lparr>server_closed := True\<rparr>) (s1\<lparr>closed_fds := closed_fds s1 @ [server_fd s1]\<rparr>)
      else s1)"

definition cleanup_mirror :: "unit serve_op" where
  "cleanup_mirror s =
     (let need_mirror_lock = (\<not> server_start_mirror_locked s) in
      and_then (if need_mirror_lock then server_lock_start_mirror s else Ret () s) (\<lambda>_ s1.
        let s2 = server_prevent_mirror_start (if server_is_mirroring s1 then server_abandon_mirror s1 else s1)
        in Ret () (if need_mirror_lock then server_unlock_start_mirror s2 else s2)))"

definition cleanup_locks :: "serving \<Rightarrow> serving" where
  "cleanup_locks s =
     (let s1 = (if server_start_mirror_locked s then server_unlock_start_mirror s else s)
      in if server_acl_locked s1 then server_unlock_acl s1 else s1)"

definition serve_cleanup :: "(nat \<Rightarrow> int) \<Rightarrow> unit serve_op" where
  "serve_cleanup joins s =
     and_then (cleanup_mirror (cleanup_sockets s)) (\<lambda>_ s1. Ret () (cleanup_locks (server_join_clients joins s1)))"

definition do_serve ::
  "open_results \<Rightarrow> bool \<Rightarrow> int \<Rightarrow> u64 \<Rightarrow> turn list \<Rightarrow> (nat \<Rightarrow> int) \<Rightarrow> bool serve_op"
where
  "do_serve opened open_ok lseek_result junk ts joins s =
     and_then (serve_open_server_socket opened s) (\<lambda>_ s1.
     and_then (serve_init_allocation_map open_ok lseek_result junk s1) (\<lambda>_ s2.
     and_then (serve_accept_loop ts s2) (\<lambda>_ s3.
     let ok = success (core s3) in
     and_then (serve_cleanup joins s3) (\<lambda>_ s4. Ret ok s4))))"

subsection \<open>Changes of the access list reach every client\<close>

text \<open>The steps of the main thread and of the control thread, as they can interleave: the control thread
  installs a list and later signals it, the main thread audits one entry at a time, checks a new address
  and later starts its client, and client threads stop on their own.\<close>

datatype main_at = Selecting | Auditing nat | Admitted conn

record audited =
  au_serve :: serving
  au_main :: main_at
  au_unsignalled :: nat

definition conn_ok :: "conn \<Rightarrow> bool" where
  "conn_ok cn \<longleftrightarrow> (cn_spawn cn = 0 \<longleftrightarrow> cn_thread cn \<noteq> 0)"

definition client_stops :: "nat \<Rightarrow> serving \<Rightarrow> serving" where
  "client_stops i s = s\<lparr>nbd_client := (nbd_client s)[i := (nbd_client s ! i)
     \<lparr>ce_client := map_option (\<lambda>cl. cl\<lparr>cl_stopped := True\<rparr>) (ce_client (nbd_client s ! i))\<rparr>]\<rparr>"

inductive acl_step :: "audited \<Rightarrow> audited \<Rightarrow> bool" where
  install: "install_acl l s = Ret () s' \<Longrightarrow> acl_step \<lparr>au_serve = s, au_main = m, au_unsignalled = u\<rparr> \<lparr>au_serve = s', au_main = m, au_unsignalled = Suc u\<rparr>"
| signal: "acl_step \<lparr>au_serve = s, au_main = m, au_unsignalled = Suc u\<rparr> \<lparr>au_serve = signal_acl_updated s, au_main = m, au_unsignalled = u\<rparr>"
| audit: "0 < acl_updated_signal s \<Longrightarrow> acl_step \<lparr>au_serve = s, au_main = Selecting, au_unsignalled = u\<rparr>
    \<lparr>au_serve = clear_acl_updated s, au_main = Auditing 0, au_unsignalled = u\<rparr>"
| audit_one: "i < max_nbd_clients s \<Longrightarrow> server_audit_client i s = Ret () s' \<Longrightarrow>
    acl_step \<lparr>au_serve = s, au_main = Auditing i, au_unsignalled = u\<rparr> \<lparr>au_serve = s', au_main = Auditing (Suc i), au_unsignalled = u\<rparr>"
| audited: "max_nbd_clients s \<le> i \<Longrightarrow>
    acl_step \<lparr>au_serve = s, au_main = Auditing i, au_unsignalled = u\<rparr> \<lparr>au_serve = s, au_main = Selecting, au_unsignalled = u\<rparr>"
| check: "server_should_accept_client p (cn_address cn) s = Ret True s' \<Longrightarrow> conn_ok cn \<Longrightarrow>
    acl_step \<lparr>au_serve = s, au_main = Selecting, au_unsignalled = u\<rparr> \<lparr>au_serve = s', au_main = Admitted cn, au_unsignalled = u\<rparr>"
| start: "start_client cn s = Ret () s' \<Longrightarrow>
    acl_step \<lparr>au_serve = s, au_main = Admitted cn, au_unsignalled = u\<rparr> \<lparr>au_serve = s', au_main = Selecting, au_unsignalled = u\<rparr>"
| reject: "close_client_fd cn s = Ret () s' \<Longrightarrow>
    acl_step \<lparr>au_serve = s, au_main = Selecting, au_unsignalled = u\<rparr> \<lparr>au_serve = s', au_main = Selecting, au_unsignalled = u\<rparr>"
| closing: "server_close_clients s = Ret () s' \<Longrightarrow>
    acl_step \<lparr>au_serve = s, au_main = Selecting, au_unsignalled = u\<rparr> \<lparr>au_serve = s', au_main = Selecting, au_unsignalled = u\<rparr>"
| stopping: "stop_signal_received s = Ret () s' \<Longrightarrow>
    acl_step \<lparr>au_serve = s, au_main = Selecting, au_unsignalled = u\<rparr> \<lparr>au_serve = s', au_main = Selecting, au_unsignalled = u\<rparr>"
| stopped: "acl_step \<lparr>au_serve = s, au_main = m, au_unsignalled = u\<rparr> \<lparr>au_serve = client_stops i s, au_main = m, au_unsignalled = u\<rparr>"

inductive_cases acl_stepE: "acl_step a a'"

definition settled :: "serving \<Rightarrow> nat \<Rightarrow> sockaddr \<Rightarrow> bool" where
  "settled s u a \<longleftrightarrow> acl_accepts (sv_acl s) a = Ret True () \<or> 0 < acl_updated_signal s \<or> 0 < u"

definition told_to_stop :: "client_tbl_entry \<Rightarrow> bool" where
  "told_to_stop e \<longleftrightarrow> (\<exists>cl. ce_client e = Some cl \<and> 0 < cl_stop_signal cl)"

definition entry_settled :: "serving \<Rightarrow> nat \<Rightarrow> client_tbl_entry \<Rightarrow> bool" where
  "entry_settled s u e \<longleftrightarrow> ce_thread e = 0 \<or> told_to_stop e \<or> settled s u (ce_address e)"

definition table_ok :: "serving \<Rightarrow> bool" where
  "table_ok s \<longleftrightarrow> length (nbd_client s) = max_nbd_clients s \<and> (\<forall>e \<in> set (nbd_client s). ce_thread e \<noteq> 0 \<longrightarrow> ce_client e \<noteq> None)"

fun audit_inv :: "audited \<Rightarrow> bool" where
  "audit_inv \<lparr>au_serve = s, au_main = m, au_unsignalled = u\<rparr> \<longleftrightarrow>
     \<not> acl_locked (core s) \<and> \<not> l_start_mirror s \<and> table_ok s
     \<and> (\<forall>i < length (nbd_client s). entry_settled s u (nbd_client s ! i) \<or> (\<exists>j. m = Auditing j \<and> j \<le> i))
     \<and> (\<forall>cn. m = Admitted cn \<longrightarrow> conn_ok cn \<and> settled s u (cn_address cn))"

lemma lock_unlock_acl [simp]: "\<not> acl_locked (core s) \<Longrightarrow> server_unlock_acl (on_core (\<lambda>c. c\<lparr>acl_locked := True\<rparr>) s) = s"
  by (simp add: server_unlock_acl_def on_core_def)

lemma server_acl_accepts_Ret:
  "\<not> acl_locked (core s) \<Longrightarrow> server_acl_accepts a s = Ret b s' \<longleftrightarrow> acl_accepts (sv_acl s) a = Ret b () \<and> s' = s"
  by (auto simp: server_acl_accepts_def server_lock_acl_def on_core_def server_unlock_acl_def split: outcome.splits)

lemma install_acl_Ret:
  "\<not> acl_locked (core s) \<Longrightarrow> install_acl l s = Ret () s' \<longleftrightarrow> s' = s\<lparr>sv_acl := Some l\<rparr>"
  by (auto simp: install_acl_def server_lock_acl_def on_core_def server_unlock_acl_def)

text \<open>Most operations only move the table on: entries are freed, told to stop, or left alone.\<close>

definition moves_on :: "client_tbl_entry \<Rightarrow> client_tbl_entry \<Rightarrow> bool" where
  "moves_on e e' \<longleftrightarrow> ce_thread e' = 0 \<or> (ce_thread e' = ce_thread e \<and> ce_address e' = ce_address e
     \<and> (ce_client e \<noteq> None \<longrightarrow> ce_client e' \<noteq> None) \<and> (told_to_stop e \<longrightarrow> told_to_stop e'))"

definition quiet :: "serving \<Rightarrow> serving \<Rightarrow> bool" where
  "quiet s s' \<longleftrightarrow> list_all2 moves_on (nbd_client s) (nbd_client s') \<and> sv_acl s' = sv_acl s
     \<and> acl_updated_signal s' = acl_updated_signal s \<and> max_nbd_clients s' = max_nbd_clients s
     \<and> (acl_locked (core s') \<longleftrightarrow> acl_locked (core s)) \<and> (l_start_mirror s' \<longleftrightarrow> l_start_mirror s)"

lemma moves_on_refl [simp]: "moves_on e e" by (simp add: moves_on_def)

lemma moves_on_trans: "moves_on a b \<Longrightarrow> moves_on b c \<Longrightarrow> moves_on a c"
  by (auto simp: moves_on_def)

lemma quiet_refl [simp]: "quiet s s" by (simp add: quiet_def list.rel_refl)

lemma quiet_trans: "quiet a b \<Longrightarrow> quiet b c \<Longrightarrow> quiet a c"
  by (auto simp: quiet_def elim: list_all2_trans [rotated] intro: moves_on_trans)

lemma quiet_update:
  "i < length (nbd_client s) \<Longrightarrow> moves_on (nbd_client s ! i) e \<Longrightarrow> quiet s (s\<lparr>nbd_client := (nbd_client s)[i := e]\<rparr>)"
  by (simp add: quiet_def list_all2_conv_all_nth nth_list_update)

lemma quiet_length: "quiet s s' \<Longrightarrow> length (nbd_client s') = length (nbd_client s) \<and> max_nbd_clients s' = max_nbd_clients s"
  by (auto simp: quiet_def dest: list_all2_lengthD)

lemma quiet_settled: "quiet s s' \<Longrightarrow> settled s' u a = settled s u a"
  by (simp add: quiet_def settled_def)

lemma quiet_entry:
  assumes "quiet s s'" "i < length (nbd_client s)" "entry_settled s u (nbd_client s ! i)"
  shows "entry_settled s' u (nbd_client s' ! i)"
proof -
  have "moves_on (nbd_client s ! i) (nbd_client s' ! i)" using assms(1,2) by (auto simp: quiet_def list_all2_conv_all_nth)
  then show ?thesis using assms(3) quiet_settled [OF assms(1)] by (auto simp: entry_settled_def moves_on_def)
qed

lemma quiet_table_ok: "quiet s s' \<Longrightarrow> table_ok s \<Longrightarrow> table_ok s'"
proof -
  assume q: "quiet s s'" and ok: "table_ok s"
  have "ce_client (nbd_client s' ! i) \<noteq> None" if "i < length (nbd_client s')" "ce_thread (nbd_client s' ! i) \<noteq> 0" for i
  proof -
    have "moves_on (nbd_client s ! i) (nbd_client s' ! i)" "i < length (nbd_client s)"
      using q that(1) by (auto simp: quiet_def list_all2_conv_all_nth)
    with that(2) ok show ?thesis by (auto simp: moves_on_def table_ok_def)
  qed
  with quiet_length [OF q] ok show "table_ok s'" by (auto simp: table_ok_def in_set_conv_nth)
qed

lemma quiet_inv:
  assumes "quiet s s'" "audit_inv \<lparr>au_serve = s, au_main = m, au_unsignalled = u\<rparr>"
  shows "audit_inv \<lparr>au_serve = s', au_main = m, au_unsignalled = u\<rparr>"
  using assms quiet_entry [OF assms(1), of _ u] quiet_settled [OF assms(1)] quiet_table_ok [OF assms(1)] quiet_length [OF assms(1)]
  by (auto simp: quiet_def)

lemma client_signal_stop_moves: "client_signal_stop e = Some e' \<Longrightarrow> moves_on e e' \<and> told_to_stop e'"
  by (auto simp: client_signal_stop_def moves_on_def told_to_stop_def split: option.splits)

lemma server_close_client_quiet:
  "i < length (nbd_client s) \<Longrightarrow> server_close_client i s = Ret () s' \<Longrightarrow>
     quiet s s' \<and> (ce_thread (nbd_client s' ! i) \<noteq> 0 \<longrightarrow> told_to_stop (nbd_client s' ! i))"
  by (auto simp: server_close_client_def quiet_update dest!: client_signal_stop_moves split: if_splits option.splits)

lemma server_audit_client_quiet:
  assumes "i < length (nbd_client s)" "\<not> acl_locked (core s)" "server_audit_client i s = Ret () s'"
  shows "quiet s s' \<and> entry_settled s' u (nbd_client s' ! i)"
  using assms
  by (auto simp: server_audit_client_def server_acl_accepts_Ret entry_settled_def settled_def quiet_update
      dest!: client_signal_stop_moves split: if_splits option.splits)

lemma each_client_quiet:
  assumes "\<And>i s s'. i < length (nbd_client s) \<Longrightarrow> P s \<Longrightarrow> f i s = Ret () s' \<Longrightarrow> quiet s s' \<and> P s' \<and> Q (nbd_client s' ! i)"
    and "\<And>e e'. Q e \<Longrightarrow> moves_on e e' \<Longrightarrow> Q e'"
    and "each_client f is s = Ret () s'" "\<forall>i\<in>set is. i < length (nbd_client s)" "P s"
  shows "quiet s s' \<and> P s' \<and> (\<forall>i\<in>set is. Q (nbd_client s' ! i))"
  using assms(3-)
proof (induction "is" arbitrary: s)
  case (Cons i "is")
  then obtain s1 where s1: "f i s = Ret () s1" "each_client f is s1 = Ret () s'" by auto
  then have q: "quiet s s1" "P s1" "Q (nbd_client s1 ! i)" using assms(1) Cons.prems by auto
  then have t: "quiet s1 s'" "P s'" "\<forall>i\<in>set is. Q (nbd_client s' ! i)"
    using Cons.IH [OF s1(2)] Cons.prems quiet_length [OF q(1)] by auto
  have "moves_on (nbd_client s1 ! i) (nbd_client s' ! i)"
    using t(1) quiet_length [OF q(1)] Cons.prems by (auto simp: quiet_def list_all2_conv_all_nth)
  then show ?case using q t quiet_trans assms(2) by auto
qed simp

lemma server_close_clients_quiet:
  assumes "server_close_clients s = Ret () s'" "length (nbd_client s) = max_nbd_clients s"
  shows "quiet s s' \<and> (\<forall>e\<in>set (nbd_client s'). ce_thread e \<noteq> 0 \<longrightarrow> told_to_stop e)"
proof -
  have "quiet s s' \<and> True \<and> (\<forall>i\<in>set [0..<max_nbd_clients s]. ce_thread (nbd_client s' ! i) \<noteq> 0 \<longrightarrow> told_to_stop (nbd_client s' ! i))"
    using assms by (intro each_client_quiet [where f = server_close_client and P = "\<lambda>_. True" and Q = "\<lambda>e. ce_thread e \<noteq> 0 \<longrightarrow> told_to_stop e"])
      (auto simp: server_close_clients_def server_close_client_quiet moves_on_def)
  with quiet_length [of s s'] assms(2) show ?thesis by (auto simp: in_set_conv_nth)
qed

lemma graceful_Ret:
  "\<not> l_start_mirror s \<Longrightarrow> serve_shutdown_is_graceful s =
     Ret (\<not> mirror_super s) (if mirror_super s then server_prevent_mirror_start s else s)"
  by (simp add: serve_shutdown_is_graceful_def server_lock_start_mirror_def server_unlock_start_mirror_def
      server_prevent_mirror_start_def Let_def)

lemma stop_signal_received_quiet:
  assumes "stop_signal_received s = Ret () s'" "length (nbd_client s) = max_nbd_clients s" "\<not> l_start_mirror s"
  shows "quiet s s' \<and> (\<forall>e\<in>set (nbd_client s'). ce_thread e \<noteq> 0 \<longrightarrow> told_to_stop e)"
proof -
  obtain s1 where s1: "server_close_clients s = Ret () s1" using assms(1) by (auto simp: stop_signal_received_def)
  have q: "quiet s s1 \<and> (\<forall>e\<in>set (nbd_client s1). ce_thread e \<noteq> 0 \<longrightarrow> told_to_stop e)"
    by (rule server_close_clients_quiet [OF s1 assms(2)])
  moreover have "\<not> l_start_mirror s1" using q assms(3) by (auto simp: quiet_def)
  then have "quiet s1 s' \<and> nbd_client s' = nbd_client s1"
    using assms(1) s1
    by (auto simp: stop_signal_received_def graceful_Ret on_core_def server_prevent_mirror_start_def quiet_def list.rel_refl split: if_splits)
  ultimately show ?thesis using quiet_trans by auto
qed

lemma tryjoin_moves: "tryjoin_client_thread j e = Ret (b, e') () \<Longrightarrow> moves_on e e'"
  by (auto simp: tryjoin_client_thread_def moves_on_def split: if_splits option.splits)

lemma cleanup_client_threads_moves:
  "cleanup_client_threads joins i es = Ret es' () \<Longrightarrow> list_all2 moves_on es es'"
  by (induction joins i es arbitrary: es' rule: cleanup_client_threads.induct) (auto dest: tryjoin_moves)

lemma find_slot_Some: "find_slot i es = Some n \<Longrightarrow> i \<le> n \<and> n - i < length es \<and> ce_thread (es ! (n - i)) = 0"
  by (induction i es rule: find_slot.induct) (auto split: if_splits simp: Suc_diff_le nth_Cons')

lemma in_table_Ret: "in_table r s = Ret es s' \<longleftrightarrow> r = Ret es () \<and> s' = s"
  by (auto simp: in_table_def split: outcome.splits)

lemma find_client_slot_quiet:
  assumes "cleanup_and_find_client_slot joins s = Ret found s'"
  shows "quiet s s' \<and> (\<forall>n. found = Some n \<longrightarrow> n < length (nbd_client s') \<and> ce_thread (nbd_client s' ! n) = 0)"
  using assms find_slot_Some [of 0]
  by (auto simp: cleanup_and_find_client_slot_def in_table_Ret quiet_def dest: cleanup_client_threads_moves)

lemma close_client_fd_quiet: "close_client_fd cn s = Ret () s' \<Longrightarrow> quiet s s' \<and> nbd_client s' = nbd_client s"
  by (auto simp: close_client_fd_def quiet_def list.rel_refl split: if_splits)

text \<open>Starting a client puts its entry into one slot, or leaves the table to the joins.\<close>

lemma start_client_spec:
  assumes "start_client cn s = Ret () s'" "conn_ok cn"
  shows "quiet s s' \<or> (\<exists>s1 n. quiet s s1 \<and> n < length (nbd_client s1) \<and> cn_spawn cn = 0
    \<and> s' = s1\<lparr>nbd_client := (nbd_client s1)[n := \<lparr>ce_thread = cn_thread cn, ce_address = cn_address cn, ce_client = Some new_client\<rparr>]\<rparr>)"
proof -
  obtain found s1 where f: "cleanup_and_find_client_slot (cn_joins cn) s = Ret found s1" using assms(1) by (auto simp: start_client_def)
  note q = find_client_slot_quiet [OF f]
  show ?thesis
  proof (cases found)
    case None
    then show ?thesis using assms(1) f q close_client_fd_quiet quiet_trans by (fastforce simp: start_client_def)
  next
    case (Some n)
    let ?s2 = "\<lambda>th cl. s1\<lparr>nbd_client := (nbd_client s1)[n := \<lparr>ce_thread = th, ce_address = cn_address cn, ce_client = cl\<rparr>]\<rparr>"
    show ?thesis
    proof (cases "cn_spawn cn = 0")
      case True
      then have "s' = ?s2 (cn_thread cn) (Some new_client)" using assms(1) f Some by (simp add: start_client_def Let_def)
      then show ?thesis using q Some True by blast
    next
      case False
      then have "close_client_fd cn (?s2 0 None) = Ret () s'" using assms f Some by (simp add: start_client_def Let_def conn_ok_def)
      moreover have "quiet s1 (?s2 0 None)" using q Some by (intro quiet_update) (auto simp: moves_on_def)
      ultimately have "quiet s1 s'" using close_client_fd_quiet quiet_trans by blast
      then show ?thesis using q quiet_trans by blast
    qed
  qed
qed

lemma client_stops_quiet: "quiet s (client_stops i s)"
proof (cases "i < length (nbd_client s)")
  case True
  then show ?thesis unfolding client_stops_def
    by (intro quiet_update) (auto simp: moves_on_def told_to_stop_def)
next
  case False
  then show ?thesis by (simp add: client_stops_def quiet_def list.rel_refl list_update_beyond)
qed

lemma should_accept_Ret:
  "\<not> acl_locked (core s) \<Longrightarrow> server_should_accept_client p a s = Ret b s' \<longleftrightarrow>
     (if p then acl_accepts (sv_acl s) a = Ret b () else \<not> b) \<and> s' = s"
  by (auto simp: server_should_accept_client_def server_acl_accepts_Ret)

lemma entry_settled_pending: "0 < u \<Longrightarrow> entry_settled s u e" "0 < acl_updated_signal s \<Longrightarrow> entry_settled s u e"
  by (simp_all add: entry_settled_def settled_def)

lemma entry_settled_cong:
  "settled s' u' = settled s u \<Longrightarrow> entry_settled s' u' e = entry_settled s u e"
  by (simp add: entry_settled_def)

lemma audit_inv_audit_one:
  assumes inv: "audit_inv \<lparr>au_serve = s, au_main = Auditing i, au_unsignalled = u\<rparr>"
    and "i < max_nbd_clients s" "server_audit_client i s = Ret () s'"
  shows "audit_inv \<lparr>au_serve = s', au_main = Auditing (Suc i), au_unsignalled = u\<rparr>"
proof -
  have i: "i < length (nbd_client s)" "\<not> acl_locked (core s)" using assms(1,2) by (auto simp: table_ok_def)
  note q = server_audit_client_quiet [OF i assms(3), of u]
  have "\<forall>k < length (nbd_client s'). entry_settled s' u (nbd_client s' ! k) \<or> Suc i \<le> k"
  proof (intro allI impI)
    fix k assume "k < length (nbd_client s')"
    moreover from quiet_inv [OF conjunct1 [OF q] inv] this have "entry_settled s' u (nbd_client s' ! k) \<or> i \<le> k" by auto
    ultimately show "entry_settled s' u (nbd_client s' ! k) \<or> Suc i \<le> k" using q by (cases "k = i") auto
  qed
  with quiet_inv [OF conjunct1 [OF q] inv] show ?thesis by auto
qed

lemma audit_inv_start:
  assumes inv: "audit_inv \<lparr>au_serve = s, au_main = Admitted cn, au_unsignalled = u\<rparr>" and st: "start_client cn s = Ret () s'"
  shows "audit_inv \<lparr>au_serve = s', au_main = Selecting, au_unsignalled = u\<rparr>"
proof -
  have cn: "conn_ok cn" "settled s u (cn_address cn)" using inv by auto
  have sel: "audit_inv \<lparr>au_serve = s, au_main = Selecting, au_unsignalled = u\<rparr>" using inv by auto
  from start_client_spec [OF st cn(1)] show ?thesis
  proof (elim disjE exE conjE)
    assume "quiet s s'" then show ?thesis using sel by (rule quiet_inv)
  next
    fix s1 n
    assume s1: "quiet s s1" "n < length (nbd_client s1)"
      and s': "s' = s1\<lparr>nbd_client := (nbd_client s1)[n := \<lparr>ce_thread = cn_thread cn, ce_address = cn_address cn, ce_client = Some new_client\<rparr>]\<rparr>"
    have "settled s1 u (cn_address cn)" using cn(2) quiet_settled [OF s1(1)] by simp
    moreover have "settled s' u = settled s1 u" by (simp add: fun_eq_iff settled_def s')
    moreover note quiet_inv [OF s1(1) sel]
    ultimately show ?thesis using s1(2)
      by (auto simp: s' entry_settled_def nth_list_update table_ok_def dest: set_update_subset_insert [THEN subsetD])
  qed
qed

lemma audit_inv_step: "audit_inv a \<Longrightarrow> acl_step a a' \<Longrightarrow> audit_inv a'"
proof (erule acl_stepE, goal_cases)
  case (1 l s s' m u)
  then show ?case by (auto simp: install_acl_Ret table_ok_def entry_settled_pending settled_def)
next
  case (2 s m u)
  then show ?case by (auto simp: signal_acl_updated_def table_ok_def entry_settled_pending settled_def)
next
  case (3 s u)
  then show ?case by (auto simp: clear_acl_updated_def table_ok_def)
next
  case (4 i s s' u)
  then show ?case by (simp only: audit_inv_audit_one)
next
  case (5 s i u)
  then show ?case by (auto simp: table_ok_def)
next
  case (6 p cn s s' u)
  then show ?case by (auto simp: should_accept_Ret settled_def split: if_splits)
next
  case (7 cn s s' u)
  then show ?case by (simp only: audit_inv_start)
next
  case (8 cn s s' u)
  then have "quiet s s'" using close_client_fd_quiet by blast
  then show ?case using 8 by (simp only: quiet_inv)
next
  case (9 s s' u)
  then have "quiet s s'" using server_close_clients_quiet [of s s'] by (auto simp: table_ok_def)
  then show ?case using 9 by (simp only: quiet_inv)
next
  case (10 s s' u)
  then have "quiet s s'" using stop_signal_received_quiet [of s s'] by (auto simp: table_ok_def)
  then show ?case using 10 by (simp only: quiet_inv)
next
  case (11 s m u i)
  then show ?case by (simp only: quiet_inv [OF client_stops_quiet])
qed

definition acl_init :: "audited \<Rightarrow> bool" where
  "acl_init a \<longleftrightarrow> au_main a = Selecting \<and> au_unsignalled a = 0 \<and> \<not> acl_locked (core (au_serve a)) \<and> \<not> l_start_mirror (au_serve a)
     \<and> nbd_client (au_serve a) = replicate (max_nbd_clients (au_serve a)) empty_slot"

interpretation aud: step_invariant acl_init acl_step audit_inv
proof
  fix a assume "acl_init a"
  then show "audit_inv a"
    by (cases a) (auto simp: acl_init_def table_ok_def entry_settled_def empty_slot_def)
next
  fix a a' assume "audit_inv a" "acl_step a a'"
  then show "audit_inv a'" by (rule audit_inv_step)
qed

lemma server_create_init:
  "server_create ip port f d ls n k ok ctl = Ret s () \<Longrightarrow> acl_init \<lparr>au_serve = s, au_main = Selecting, au_unsignalled = 0\<rparr>"
  by (auto simp: server_create_def new_serving_def acl_init_def split: option.splits cresult.splits if_splits)

text \<open>A turn of the accept loop, run without interference, is a run of these steps.\<close>

lemma audit_steps:
  assumes "each_client server_audit_client [i..<n] s = Ret () s'" "max_nbd_clients s = n"
    "audit_inv \<lparr>au_serve = s, au_main = Auditing i, au_unsignalled = u\<rparr>"
  shows "acl_step\<^sup>*\<^sup>* \<lparr>au_serve = s, au_main = Auditing i, au_unsignalled = u\<rparr> \<lparr>au_serve = s', au_main = Selecting, au_unsignalled = u\<rparr>"
  using assms
proof (induction "n - i" arbitrary: i s)
  case 0
  then show ?case by (auto intro!: r_into_rtranclp acl_step.audited)
next
  case (Suc k)
  then have "[i..<n] = i # [Suc i..<n]" by (simp add: upt_conv_Cons)
  then obtain s1 where s1: "server_audit_client i s = Ret () s1" "each_client server_audit_client [Suc i..<n] s1 = Ret () s'"
    using Suc.prems(1) by auto
  have "audit_inv \<lparr>au_serve = s1, au_main = Auditing (Suc i), au_unsignalled = u\<rparr>" "max_nbd_clients s1 = n"
    using audit_inv_audit_one [OF Suc.prems(3) _ s1(1)] server_audit_client_quiet [OF _ _ s1(1)] Suc
    by (auto simp: table_ok_def quiet_def)
  then have "acl_step\<^sup>*\<^sup>* \<lparr>au_serve = s1, au_main = Auditing (Suc i), au_unsignalled = u\<rparr> \<lparr>au_serve = s', au_main = Selecting, au_unsignalled = u\<rparr>"
    using Suc.hyps(1) [of "Suc i" s1] Suc.hyps(2) s1(2) by simp
  moreover have "acl_step \<lparr>au_serve = s, au_main = Auditing i, au_unsignalled = u\<rparr> \<lparr>au_serve = s1, au_main = Auditing (Suc i), au_unsignalled = u\<rparr>"
    using Suc.hyps(2) Suc.prems(2) s1(1) by (auto intro: acl_step.audit_one)
  ultimately show ?case by (rule converse_rtranclp_into_rtranclp [rotated])
qed

lemma take_connection_steps:
  assumes "take_connection cn s = Ret () s'" "conn_ok cn" "audit_inv \<lparr>au_serve = s, au_main = Selecting, au_unsignalled = u\<rparr>"
    "cn_close cn"
  shows "acl_step\<^sup>*\<^sup>* \<lparr>au_serve = s, au_main = Selecting, au_unsignalled = u\<rparr> \<lparr>au_serve = s', au_main = Selecting, au_unsignalled = u\<rparr>"
proof (cases "allow_new_clients (core s)")
  case True
  then obtain ok where ok: "server_should_accept_client (cn_printable cn) (cn_address cn) s = Ret ok s"
    "(if ok then start_client cn s else close_client_fd cn s) = Ret () s'"
    using assms by (auto simp: take_connection_def accept_nbd_client_def should_accept_Ret split: if_splits)
  show ?thesis
  proof (cases ok)
    case True
    then have "acl_step \<lparr>au_serve = s, au_main = Selecting, au_unsignalled = u\<rparr> \<lparr>au_serve = s, au_main = Admitted cn, au_unsignalled = u\<rparr>"
      "acl_step \<lparr>au_serve = s, au_main = Admitted cn, au_unsignalled = u\<rparr> \<lparr>au_serve = s', au_main = Selecting, au_unsignalled = u\<rparr>"
      using ok assms(2) by (auto intro: acl_step.check acl_step.start)
    then show ?thesis by (meson r_into_rtranclp rtranclp.rtrancl_into_rtrancl)
  next
    case False
    then show ?thesis using ok by (auto intro: acl_step.reject)
  qed
next
  case False
  then have "close_client_fd cn s = Ret () s'" using assms by (simp add: take_connection_def close_client_fd_def)
  then show ?thesis by (blast intro: acl_step.reject)
qed

lemma server_accept_parts:
  assumes "server_accept t s = Ret b s'"
  obtains s1 s2 s3 where "(if close_signalled (core s) then server_close_clients s else Ret () s) = Ret () s1"
    "(if tn_signal t then stop_signal_received s1 else Ret () s1) = Ret () s2"
    "(if 0 < acl_updated_signal s then server_audit_clients (clear_acl_updated s2) else Ret () s2) = Ret () s3"
    "(case tn_conn t of None \<Rightarrow> Ret () s3 | Some cn \<Rightarrow> take_connection cn s3) = Ret () s'"
    "b = (\<not> close_signalled (core s) \<and> \<not> tn_signal t)"
proof -
  obtain n rs where sel: "sock_try_select (tn_select t) = Some (Inr n, rs)"
    using assms by (auto simp: server_accept_def split: option.splits sum.splits)
  show ?thesis using assms
    unfolding server_accept_def sel Let_def option.case prod.case sum.case and_then_Ret
    by (elim exE conjE) (rule that, simp_all)
qed

lemma server_accept_steps:
  assumes "server_accept t s = Ret b s'" "audit_inv \<lparr>au_serve = s, au_main = Selecting, au_unsignalled = u\<rparr>"
    and "\<And>cn. tn_conn t = Some cn \<Longrightarrow> conn_ok cn \<and> cn_close cn"
  shows "acl_step\<^sup>*\<^sup>* \<lparr>au_serve = s, au_main = Selecting, au_unsignalled = u\<rparr> \<lparr>au_serve = s', au_main = Selecting, au_unsignalled = u\<rparr>"
proof -
  let ?at = "\<lambda>s. \<lparr>au_serve = s, au_main = Selecting, au_unsignalled = u\<rparr>"
  from server_accept_parts [OF assms(1)] obtain s1 s2 s3 where r: "(if close_signalled (core s) then server_close_clients s else Ret () s) = Ret () s1"
    "(if tn_signal t then stop_signal_received s1 else Ret () s1) = Ret () s2"
    "(if 0 < acl_updated_signal s then server_audit_clients (clear_acl_updated s2) else Ret () s2) = Ret () s3"
    "(case tn_conn t of None \<Rightarrow> Ret () s3 | Some cn \<Rightarrow> take_connection cn s3) = Ret () s'" .
  have 1: "acl_step\<^sup>*\<^sup>* (?at s) (?at s1)" using r(1) by (auto intro: acl_step.closing split: if_splits)
  have 2: "acl_step\<^sup>*\<^sup>* (?at s1) (?at s2)" using r(2) by (auto intro: acl_step.stopping split: if_splits)
  note inv1 = aud.steps_inv [OF 1 assms(2)]
  note inv2 = aud.steps_inv [OF 2 inv1]
  have "quiet s s1" using r(1) assms(2) server_close_clients_quiet [of s s1] by (auto simp: table_ok_def split: if_splits)
  moreover have "quiet s1 s2" using r(2) inv1 stop_signal_received_quiet [of s1 s2] by (auto simp: table_ok_def split: if_splits)
  ultimately have sig: "acl_updated_signal s2 = acl_updated_signal s" by (simp add: quiet_def)
  have 3: "acl_step\<^sup>*\<^sup>* (?at s2) (?at s3)"
  proof (cases "0 < acl_updated_signal s")
    case True
    then have st: "acl_step (?at s2) \<lparr>au_serve = clear_acl_updated s2, au_main = Auditing 0, au_unsignalled = u\<rparr>"
      using sig by (auto intro: acl_step.audit)
    have "acl_step\<^sup>*\<^sup>* \<lparr>au_serve = clear_acl_updated s2, au_main = Auditing 0, au_unsignalled = u\<rparr> (?at s3)"
      using r(3) True audit_inv_step [OF inv2 st]
      by (intro audit_steps [where n = "max_nbd_clients s2"]) (auto simp: server_audit_clients_def clear_acl_updated_def)
    with st show ?thesis by (rule converse_rtranclp_into_rtranclp)
  next
    case False
    then show ?thesis using r(3) by simp
  qed
  note inv3 = aud.steps_inv [OF 3 inv2]
  have 4: "acl_step\<^sup>*\<^sup>* (?at s3) (?at s')"
    using r(4) assms(3) inv3 by (auto split: option.splits intro: take_connection_steps)
  from 1 2 3 4 show ?thesis by (meson rtranclp_trans)
qed

text \<open>C8: a change of the access list reaches every client.  From the creation of the server on, however
  the turns of the main thread, the control thread's replacements of the list and the clients' own ends
  interleave, in every state in which no new list is still to be audited, each client thread in the table
  belongs to an address that the current list accepts or has been told to stop; and a whole turn of
  \<open>server_accept\<close> is one of these interleavings.\<close>

theorem acl_change_reaches_all_clients:
  assumes "server_create ip port f d ls n k ok ctl = Ret s0 ()"
    and "acl_step\<^sup>*\<^sup>* \<lparr>au_serve = s0, au_main = Selecting, au_unsignalled = 0\<rparr> \<lparr>au_serve = s, au_main = Selecting, au_unsignalled = u\<rparr>"
  shows "(acl_updated_signal s = 0 \<and> u = 0 \<longrightarrow> (\<forall>e\<in>set (nbd_client s). ce_thread e \<noteq> 0 \<longrightarrow>
           acl_accepts (sv_acl s) (ce_address e) = Ret True () \<or> told_to_stop e))
    \<and> (\<forall>t b s'. server_accept t s = Ret b s' \<and> (\<forall>cn. tn_conn t = Some cn \<longrightarrow> conn_ok cn \<and> cn_close cn) \<longrightarrow>
         acl_step\<^sup>*\<^sup>* \<lparr>au_serve = s, au_main = Selecting, au_unsignalled = u\<rparr> \<lparr>au_serve = s', au_main = Selecting, au_unsignalled = u\<rparr>)"
proof -
  note inv = aud.reachable_inv [OF server_create_init [OF assms(1)] assms(2)]
  have "entry_settled s u e" if "e \<in> set (nbd_client s)" for e using inv that by (auto simp: in_set_conv_nth)
  then have "\<forall>e\<in>set (nbd_client s). entry_settled s u e" by blast
  then show ?thesis
    using server_accept_steps [OF _ inv] by (auto simp: entry_settled_def settled_def)
qed

subsection \<open>Who is let in\<close>

definition joins_ok :: "(nat \<Rightarrow> int) \<Rightarrow> bool" where
  "joins_ok joins \<longleftrightarrow> (\<forall>i. joins i = 0 \<or> joins i = EBUSY)"

definition joined :: "int \<Rightarrow> client_tbl_entry \<Rightarrow> client_tbl_entry" where
  "joined j e = (if ce_thread e \<noteq> 0 \<and> j = 0 then e\<lparr>ce_client := None, ce_thread := 0\<rparr> else e)"

lemma tryjoin_joined:
  "j = 0 \<or> j = EBUSY \<Longrightarrow> (ce_thread e \<noteq> 0 \<longrightarrow> ce_client e \<noteq> None) \<Longrightarrow>
     \<exists>b. tryjoin_client_thread j e = Ret (b, joined j e) ()"
  by (auto simp: tryjoin_client_thread_def joined_def EBUSY_def split: option.splits)

lemma cleanup_client_threads_joined:
  assumes "joins_ok joins" "\<forall>e\<in>set es. ce_thread e \<noteq> 0 \<longrightarrow> ce_client e \<noteq> None"
  shows "cleanup_client_threads joins i es = Ret (map (\<lambda>(k, e). joined (joins k) e) (enumerate i es)) ()"
  using assms(2)
proof (induction es arbitrary: i)
  case (Cons e es)
  obtain b where "tryjoin_client_thread (joins i) e = Ret (b, joined (joins i) e) ()"
    using tryjoin_joined [of "joins i" e] assms(1) Cons.prems by (auto simp: joins_ok_def)
  then show ?case using Cons by simp
qed simp

lemma find_slot_None: "find_slot i es = None \<longleftrightarrow> (\<forall>e\<in>set es. ce_thread e \<noteq> 0)"
  by (induction i es rule: find_slot.induct) auto

definition tidied :: "(nat \<Rightarrow> int) \<Rightarrow> client_tbl_entry list \<Rightarrow> client_tbl_entry list" where
  "tidied joins es = map (\<lambda>(k, e). joined (joins k) e) (enumerate 0 es)"

lemma accept_nbd_client_ok:
  assumes "table_ok s" "\<not> acl_locked (core s)" "0 \<le> cn_keepalive cn" "cn_close cn" "conn_ok cn" "joins_ok (cn_joins cn)"
    and "acl_accepts (sv_acl s) (cn_address cn) = Ret ok ()"
    and "tbl = tidied (cn_joins cn) (nbd_client s)"
  shows "\<exists>s'. accept_nbd_client cn s = Ret () s' \<and>
    (if cn_printable cn \<and> ok \<and> (\<exists>e\<in>set tbl. ce_thread e = 0) \<and> cn_spawn cn = 0
     then closed_fds s' = closed_fds s \<and> (\<exists>n < length tbl. ce_thread (tbl ! n) = 0
       \<and> nbd_client s' = tbl[n := \<lparr>ce_thread = cn_thread cn, ce_address = cn_address cn, ce_client = Some new_client\<rparr>])
     else closed_fds s' = closed_fds s @ [cn_fd cn] \<and> list_all2 moves_on (nbd_client s) (nbd_client s'))"
proof (cases "cn_printable cn \<and> ok")
  case False
  then have "server_should_accept_client (cn_printable cn) (cn_address cn) s = Ret False s"
    using assms by (simp add: should_accept_Ret)
  then have "accept_nbd_client cn s = close_client_fd cn s" using assms(3) by (simp add: accept_nbd_client_def)
  then show ?thesis using False assms(4) by (auto simp: close_client_fd_def list.rel_refl)
next
  case True
  have sa: "server_should_accept_client (cn_printable cn) (cn_address cn) s = Ret True s"
    using True assms by (simp add: should_accept_Ret)
  have tidy: "cleanup_and_find_client_slot (cn_joins cn) s = Ret (find_slot 0 tbl) (s\<lparr>nbd_client := tbl\<rparr>)"
    using cleanup_client_threads_joined [OF assms(6), of "nbd_client s" 0] assms(1,8)
    by (simp add: cleanup_and_find_client_slot_def in_table_def tidied_def table_ok_def)
  have m: "list_all2 moves_on (nbd_client s) tbl" using find_client_slot_quiet [OF tidy] by (simp add: quiet_def)
  show ?thesis
  proof (cases "find_slot 0 tbl")
    case None
    then show ?thesis using assms(3,4) sa tidy m find_slot_None [of 0 tbl]
      by (auto simp: accept_nbd_client_def start_client_def close_client_fd_def)
  next
    case (Some n)
    note n = find_slot_Some [OF Some]
    then have free: "\<exists>e\<in>set tbl. ce_thread e = 0" using nth_mem by force
    show ?thesis
    proof (cases "cn_spawn cn = 0")
      case spawned: True
      then show ?thesis using assms(3) sa tidy Some n True free
        by (auto simp: accept_nbd_client_def start_client_def Let_def)
    next
      case False
      then have "moves_on (tbl ! n) \<lparr>ce_thread = cn_thread cn, ce_address = cn_address cn, ce_client = None\<rparr>"
        using assms(5) by (simp add: conn_ok_def moves_on_def)
      then have "list_all2 moves_on (nbd_client s) (tbl[n := \<lparr>ce_thread = cn_thread cn, ce_address = cn_address cn, ce_client = None\<rparr>])"
        using m n by (auto simp: list_all2_conv_all_nth nth_list_update intro: moves_on_trans)
      then show ?thesis using assms(3,4) sa tidy Some False
        by (auto simp: accept_nbd_client_def start_client_def close_client_fd_def Let_def)
    qed
  qed
qed


subsection \<open>Shutting down\<close>

text \<open>Signalling clients changes the table only.\<close>

definition table_only :: "serving \<Rightarrow> serving \<Rightarrow> bool" where
  "table_only s s' \<longleftrightarrow> (\<exists>es. s' = s\<lparr>nbd_client := es\<rparr>)"

lemma table_only_refl [simp]: "table_only s s"
  unfolding table_only_def by (rule exI [of _ "nbd_client s"]) simp

lemma table_only_update [simp]: "table_only s (s\<lparr>nbd_client := es\<rparr>)" by (auto simp: table_only_def)

lemma table_only_trans: "table_only a b \<Longrightarrow> table_only b c \<Longrightarrow> table_only a c"
  by (auto simp: table_only_def)

lemma table_only_same:
  assumes "table_only s s'"
  shows "core s' = core s" "mirror_super s' = mirror_super s" "mirror_can_start s' = mirror_can_start s" "server_fd s' = server_fd s"
    "l_start_mirror s' = l_start_mirror s" "sv_acl s' = sv_acl s" "acl_updated_signal s' = acl_updated_signal s"
    "max_nbd_clients s' = max_nbd_clients s"
  using assms by (auto simp: table_only_def)

lemma each_client_table_only:
  assumes "\<And>i s s'. P s \<Longrightarrow> f i s = Ret () s' \<Longrightarrow> table_only s s' \<and> P s'" "each_client f is s = Ret () s'" "P s"
  shows "table_only s s'"
  using assms(2,3)
proof (induction "is" arbitrary: s)
  case (Cons i "is")
  then obtain s1 where s1: "f i s = Ret () s1" "each_client f is s1 = Ret () s'" by auto
  with assms(1) [OF Cons.prems(2) s1(1)] Cons.IH [OF s1(2)] show ?case using table_only_trans by blast
qed simp

lemma server_close_clients_table_only: "server_close_clients s = Ret () s' \<Longrightarrow> table_only s s'"
  unfolding server_close_clients_def
  by (rule each_client_table_only [where P = "\<lambda>_. True" and f = server_close_client])
    (auto simp: server_close_client_def split: if_splits option.splits)

lemma server_audit_clients_table_only:
  assumes "server_audit_clients s = Ret () s'" "\<not> acl_locked (core s)"
  shows "table_only s s'"
  using assms(1) unfolding server_audit_clients_def
  by (rule each_client_table_only [where P = "\<lambda>s. \<not> acl_locked (core s)", rotated])
    (auto simp: server_audit_client_def server_acl_accepts_Ret assms(2) split: if_splits option.splits)

lemma stop_signal_received_core:
  assumes "stop_signal_received s = Ret () s'" "\<not> l_start_mirror s"
  shows "success (core s') = (success (core s) \<and> \<not> mirror_super s) \<and> mirror_super s' = mirror_super s
    \<and> acl_locked (core s') = acl_locked (core s)
    \<and> (success (core s) \<and> mirror_super s \<longrightarrow> \<not> mirror_can_start s')"
proof -
  obtain s1 where s1: "server_close_clients s = Ret () s1" using assms(1) by (auto simp: stop_signal_received_def)
  note t = table_only_same [OF server_close_clients_table_only [OF s1]]
  show ?thesis
    using assms(1) s1 t assms(2)
    by (auto simp: stop_signal_received_def graceful_Ret on_core_def server_prevent_mirror_start_def split: if_splits)
qed

text \<open>What a turn never touches: the listening descriptor and the close signal.\<close>

definition keeps :: "serving \<Rightarrow> serving \<Rightarrow> bool" where
  "keeps s s' \<longleftrightarrow> server_fd s' = server_fd s \<and> close_signalled (core s') = close_signalled (core s)"

lemma keeps_refl [simp]: "keeps s s" by (simp add: keeps_def)

lemma keeps_trans: "keeps a b \<Longrightarrow> keeps b c \<Longrightarrow> keeps a c" by (simp add: keeps_def)

lemma table_only_keeps: "table_only s s' \<Longrightarrow> keeps s s'"
  by (simp add: keeps_def table_only_same)

lemma server_acl_accepts_keeps: "server_acl_accepts a s = Ret b s' \<Longrightarrow> keeps s s' \<and> nbd_client s' = nbd_client s"
  by (auto simp: server_acl_accepts_def server_lock_acl_def server_unlock_acl_def on_core_def keeps_def
      split: if_splits outcome.splits)

lemma server_audit_client_keeps:
  assumes "server_audit_client i s = Ret () s'"
  shows "keeps s s'"
proof (cases "ce_thread (nbd_client s ! i) = 0")
  case True
  then show ?thesis using assms by (simp add: server_audit_client_def)
next
  case False
  then obtain ok s1 where s1: "server_acl_accepts (ce_address (nbd_client s ! i)) s = Ret ok s1"
    using assms by (auto simp: server_audit_client_def)
  have "keeps s1 s'" using assms s1 False
    by (cases ok; cases "client_signal_stop (nbd_client s1 ! i)") (auto simp: server_audit_client_def keeps_def)
  with server_acl_accepts_keeps [OF s1] show ?thesis using keeps_trans by blast
qed

lemma server_audit_clients_keeps: "server_audit_clients s = Ret () s' \<Longrightarrow> keeps s s'"
proof -
  have "keeps s s'" if "each_client server_audit_client is s = Ret () s'" for "is" s using that
  proof (induction "is" arbitrary: s)
    case (Cons i "is")
    then obtain s1 where s1: "server_audit_client i s = Ret () s1" "each_client server_audit_client is s1 = Ret () s'" by auto
    then have "keeps s s1" using server_audit_client_keeps by blast
    with Cons.IH [OF s1(2)] show ?case using keeps_trans by blast
  qed simp
  then show "server_audit_clients s = Ret () s' \<Longrightarrow> keeps s s'" by (simp add: server_audit_clients_def)
qed

lemma close_client_fd_keeps: "close_client_fd cn s = Ret () s' \<Longrightarrow> keeps s s'"
  by (auto simp: close_client_fd_def keeps_def split: if_splits)

lemma start_client_keeps: "start_client cn s = Ret () s' \<Longrightarrow> keeps s s'"
  by (auto simp: start_client_def cleanup_and_find_client_slot_def in_table_Ret close_client_fd_def keeps_def Let_def
      split: if_splits option.splits)

lemma take_connection_keeps:
  assumes "take_connection cn s = Ret () s'"
  shows "keeps s s'"
proof (cases "allow_new_clients (core s)")
  case True
  then obtain ok s1 where s1: "server_should_accept_client (cn_printable cn) (cn_address cn) s = Ret ok s1"
    "(if \<not> ok then close_client_fd cn s1 else start_client cn s1) = Ret () s'"
    using assms by (auto simp: take_connection_def accept_nbd_client_def split: if_splits)
  have "keeps s s1" using s1(1) server_acl_accepts_keeps by (auto simp: server_should_accept_client_def split: if_splits)
  moreover have "keeps s1 s'" using s1(2) close_client_fd_keeps start_client_keeps by (auto split: if_splits)
  ultimately show ?thesis by (rule keeps_trans)
next
  case False
  then show ?thesis using assms by (auto simp: take_connection_def keeps_def)
qed

lemma graceful_keeps: "serve_shutdown_is_graceful s = Ret ok s' \<Longrightarrow> keeps s s'"
  by (auto simp: serve_shutdown_is_graceful_def server_lock_start_mirror_def server_unlock_start_mirror_def
      server_prevent_mirror_start_def Let_def keeps_def split: if_splits)

lemma stop_signal_received_keeps:
  assumes "stop_signal_received s = Ret () s'"
  shows "keeps s s'"
proof -
  obtain s1 where s1: "server_close_clients s = Ret () s1" using assms by (auto simp: stop_signal_received_def)
  then have "keeps s s1" using server_close_clients_table_only table_only_keeps by blast
  moreover have "keeps s1 s'"
  proof (cases "success (core s1)")
    case True
    then obtain ok s2 where "serve_shutdown_is_graceful s1 = Ret ok s2" "s' = on_core (\<lambda>c. c\<lparr>success := ok\<rparr>) s2"
      using assms s1 by (auto simp: stop_signal_received_def)
    then show ?thesis using graceful_keeps [of s1 ok s2] by (simp add: keeps_def on_core_def)
  next
    case False
    then show ?thesis using assms s1 by (simp add: stop_signal_received_def)
  qed
  ultimately show ?thesis by (rule keeps_trans)
qed

lemma server_accept_keeps: "server_accept t s = Ret b s' \<Longrightarrow> keeps s s'"
proof (erule server_accept_parts)
  fix s1 s2 s3
  assume r: "(if close_signalled (core s) then server_close_clients s else Ret () s) = Ret () s1"
    "(if tn_signal t then stop_signal_received s1 else Ret () s1) = Ret () s2"
    "(if 0 < acl_updated_signal s then server_audit_clients (clear_acl_updated s2) else Ret () s2) = Ret () s3"
    "(case tn_conn t of None \<Rightarrow> Ret () s3 | Some cn \<Rightarrow> take_connection cn s3) = Ret () s'"
  have "keeps s s1" "keeps s1 s2" "keeps s3 s'"
    using r(1,2,4) by (auto split: if_splits option.splits intro: table_only_keeps server_close_clients_table_only
        stop_signal_received_keeps take_connection_keeps)
  moreover have "keeps s2 s3"
    using r(3) server_audit_clients_keeps [of "clear_acl_updated s2" s3]
    by (auto simp: clear_acl_updated_def keeps_def split: if_splits)
  ultimately show "keeps s s'" using keeps_trans by blast
qed

lemma serve_accept_loop_ends:
  "serve_accept_loop ts s = Ret () s' \<Longrightarrow> keeps s s' \<and> (close_signalled (core s') \<or> (\<exists>t\<in>set ts. tn_signal t))"
proof (induction ts arbitrary: s)
  case (Cons t ts)
  then obtain b s1 where s1: "server_accept t s = Ret b s1" "(if b then serve_accept_loop ts s1 else Ret () s1) = Ret () s'" by auto
  note k = server_accept_keeps [OF s1(1)]
  show ?case
  proof (cases b)
    case True
    then show ?thesis using Cons.IH [of s1] s1(2) k keeps_trans by auto
  next
    case False
    then have "close_signalled (core s) \<or> tn_signal t" using server_accept_parts [OF s1(1)] by metis
    then show ?thesis using False s1(2) k by (auto simp: keeps_def)
  qed
qed simp

lemma server_join_clients_all: "\<forall>i. joins i = 0 \<Longrightarrow> e \<in> set (nbd_client (server_join_clients joins s)) \<Longrightarrow> ce_thread e = 0"
  by (auto simp: server_join_clients_def server_join_client_def)

lemma cleanup_mirror_spec:
  "cleanup_mirror s = Ret () s' \<Longrightarrow> core s' = core s \<and> closed_fds s' = closed_fds s \<and> control_open s' = control_open s
     \<and> \<not> mirror_super s' \<and> \<not> mirror_can_start s'"
  by (cases "l_start_mirror s"; cases "mirror_super s")
    (auto simp: cleanup_mirror_def Let_def server_lock_start_mirror_def server_unlock_start_mirror_def server_prevent_mirror_start_def
      server_abandon_mirror_def server_allow_mirror_start_def)

lemma cleanup_locks_spec:
  "\<not> l_start_mirror (cleanup_locks s) \<and> \<not> acl_locked (core (cleanup_locks s)) \<and> nbd_client (cleanup_locks s) = nbd_client s
   \<and> success (core (cleanup_locks s)) = success (core s) \<and> close_signalled (core (cleanup_locks s)) = close_signalled (core s)
   \<and> server_closed (core (cleanup_locks s)) = server_closed (core s) \<and> closed_fds (cleanup_locks s) = closed_fds s
   \<and> control_open (cleanup_locks s) = control_open s \<and> mirror_super (cleanup_locks s) = mirror_super s
   \<and> mirror_can_start (cleanup_locks s) = mirror_can_start s"
  by (simp add: cleanup_locks_def server_unlock_start_mirror_def server_unlock_acl_def on_core_def Let_def)

lemma serve_cleanup_spec:
  assumes "serve_cleanup joins s = Ret () s'" "server_fd s \<noteq> 0" "\<forall>i. joins i = 0"
  shows "(\<forall>e\<in>set (nbd_client s'). ce_thread e = 0) \<and> server_closed (core s') \<and> server_fd s \<in> set (closed_fds s')
    \<and> \<not> control_open s' \<and> \<not> mirror_super s' \<and> \<not> mirror_can_start s' \<and> \<not> l_start_mirror s' \<and> \<not> acl_locked (core s')
    \<and> success (core s') = success (core s) \<and> close_signalled (core s') = close_signalled (core s)"
proof -
  obtain s1 where s1: "cleanup_mirror (cleanup_sockets s) = Ret () s1" "s' = cleanup_locks (server_join_clients joins s1)"
    using assms(1) by (auto simp: serve_cleanup_def)
  have "server_closed (core (cleanup_sockets s))" "closed_fds (cleanup_sockets s) = closed_fds s @ [server_fd s]" "\<not> control_open (cleanup_sockets s)"
    "success (core (cleanup_sockets s)) = success (core s)" "close_signalled (core (cleanup_sockets s)) = close_signalled (core s)"
    using assms(2) by (simp_all add: cleanup_sockets_def Let_def on_core_def)
  moreover have "\<forall>e\<in>set (nbd_client s'). ce_thread e = 0"
    using server_join_clients_all [OF assms(3), of _ s1] cleanup_locks_spec [of "server_join_clients joins s1"] s1(2) by auto
  ultimately show ?thesis
    using cleanup_mirror_spec [OF s1(1)] cleanup_locks_spec [of "server_join_clients joins s1"] s1(2)
    by (simp add: server_join_clients_def)
qed

lemma server_audit_clients_quiet:
  assumes "server_audit_clients s = Ret () s'" "table_ok s" "\<not> acl_locked (core s)"
  shows "quiet s s'"
proof -
  have "quiet s s' \<and> \<not> acl_locked (core s') \<and> (\<forall>i\<in>set [0..<max_nbd_clients s]. True)"
    using assms server_audit_client_quiet
    by (intro each_client_quiet [where f = server_audit_client and P = "\<lambda>s. \<not> acl_locked (core s)" and Q = "\<lambda>_. True"])
      (auto simp: server_audit_clients_def table_ok_def quiet_def)
  then show ?thesis by simp
qed

lemma quiet_told:
  assumes "quiet s s'" "\<forall>e\<in>set (nbd_client s). ce_thread e \<noteq> 0 \<longrightarrow> told_to_stop e"
  shows "\<forall>e\<in>set (nbd_client s'). ce_thread e \<noteq> 0 \<longrightarrow> told_to_stop e"
proof
  fix e' assume "e' \<in> set (nbd_client s')"
  then obtain i where "i < length (nbd_client s')" "e' = nbd_client s' ! i" by (auto simp: in_set_conv_nth)
  then obtain e where "e \<in> set (nbd_client s)" "moves_on e e'"
    using assms(1) unfolding quiet_def list_all2_conv_all_nth by (metis nth_mem)
  with assms(2) show "ce_thread e' \<noteq> 0 \<longrightarrow> told_to_stop e'" by (auto simp: moves_on_def)
qed

lemma server_close_clients_returns: "table_ok s \<Longrightarrow> \<exists>s'. server_close_clients s = Ret () s'"
proof -
  have "\<exists>s'. each_client server_close_client is s = Ret () s'" if "table_ok s" "\<forall>i\<in>set is. i < length (nbd_client s)" for "is" s
    using that
  proof (induction "is" arbitrary: s)
    case (Cons i "is")
    have "\<exists>s1. server_close_client i s = Ret () s1"
      using Cons.prems by (auto simp: server_close_client_def client_signal_stop_def table_ok_def split: option.splits)
    then obtain s1 where s1: "server_close_client i s = Ret () s1" by blast
    then have "quiet s s1" using server_close_client_quiet Cons.prems(2) by auto
    then have "table_ok s1" "length (nbd_client s1) = length (nbd_client s)" using quiet_table_ok quiet_length Cons.prems(1) by blast+
    with Cons.IH [of s1] Cons.prems(2) s1 show ?case by simp
  qed simp
  then show "table_ok s \<Longrightarrow> ?thesis" by (simp add: server_close_clients_def table_ok_def)
qed


text \<open>C19: the end of the server.  If \<open>do_serve\<close> returns then a turn saw the close signal or a stop signal,
  and once the clients have been joined no client thread is left, the listening socket is closed, the control
  socket too, no mirror runs or can start, no lock is held, and the status is the server's success.\<close>

theorem do_serve_shuts_down:
  assumes "do_serve opened open_ok lseek_result junk ts joins s = Ret status s'"
    and "or_socket opened \<noteq> 0" "\<forall>i. joins i = 0"
  shows "(\<forall>e\<in>set (nbd_client s'). ce_thread e = 0) \<and> server_closed (core s') \<and> or_socket opened \<in> set (closed_fds s')
    \<and> \<not> control_open s' \<and> \<not> mirror_super s' \<and> \<not> mirror_can_start s' \<and> \<not> l_start_mirror s' \<and> \<not> acl_locked (core s')
    \<and> (status \<longleftrightarrow> success (core s')) \<and> (close_signalled (core s') \<or> (\<exists>t\<in>set ts. tn_signal t))"
proof -
  obtain s1 s2 s3 where r: "serve_open_server_socket opened s = Ret () s1" "serve_init_allocation_map open_ok lseek_result junk s1 = Ret () s2"
    "serve_accept_loop ts s2 = Ret () s3" "serve_cleanup joins s3 = Ret () s'" "status = success (core s3)"
    using assms(1) by (auto simp: do_serve_def Let_def)
  have "server_fd s2 = or_socket opened"
    using r(1,2) by (auto simp: serve_open_server_socket_def serve_init_allocation_map_def on_core_def Let_def split: if_splits option.splits)
  with serve_accept_loop_ends [OF r(3)] have s3: "server_fd s3 = or_socket opened" "close_signalled (core s3) \<or> (\<exists>t\<in>set ts. tn_signal t)"
    by (auto simp: keeps_def)
  show ?thesis using serve_cleanup_spec [OF r(4) _ assms(3)] s3 r(5) assms(2) by auto
qed

text \<open>A connection that arrives together with the end.  If the close signal and an acceptable connection
  are seen in the same turn, the loop ends with a client thread started that has not been told to stop:
  the cleanup then waits for a thread that only its peer can end.\<close>

theorem late_client_not_told_to_stop:
  assumes "close_signalled (core s)" "allow_new_clients (core s)" "acl_updated_signal s = 0"
    and "table_ok s" "\<not> acl_locked (core s)" "0 \<le> cn_keepalive cn" "conn_ok cn" "joins_ok (cn_joins cn)" "cn_close cn"
    and "cn_printable cn" "acl_accepts (sv_acl s) (cn_address cn) = Ret True ()" "cn_spawn cn = 0"
    and "\<exists>e\<in>set (nbd_client s). ce_thread e = 0"
  shows "\<exists>s' e. server_accept \<lparr>tn_select = [Inr 2], tn_signal = False, tn_conn = Some cn\<rparr> s = Ret False s'
    \<and> e \<in> set (nbd_client s') \<and> ce_thread e = cn_thread cn \<and> ce_thread e \<noteq> 0 \<and> \<not> told_to_stop e"
proof -
  obtain s1 where s1: "server_close_clients s = Ret () s1" using server_close_clients_returns [OF assms(4)] by blast
  note c = table_only_same [OF server_close_clients_table_only [OF s1]]
  have q: "quiet s s1" using server_close_clients_quiet [OF s1] assms(4) by (simp add: table_ok_def)
  define tbl where "tbl = tidied (cn_joins cn) (nbd_client s1)"
  obtain i where "i < length (nbd_client s)" "ce_thread (nbd_client s ! i) = 0" using assms(13) by (auto simp: in_set_conv_nth)
  then have i: "i < length (nbd_client s1)" "ce_thread (nbd_client s1 ! i) = 0"
    using q by (auto simp: quiet_def list_all2_conv_all_nth moves_on_def)
  then have "i < length tbl" "ce_thread (tbl ! i) = 0"
    by (simp_all add: tbl_def tidied_def joined_def nth_enumerate_eq)
  then have free: "\<exists>e\<in>set tbl. ce_thread e = 0" using nth_mem by force
  obtain s' n where s': "accept_nbd_client cn s1 = Ret () s'" "n < length tbl"
    "nbd_client s' = tbl[n := \<lparr>ce_thread = cn_thread cn, ce_address = cn_address cn, ce_client = Some new_client\<rparr>]"
    using accept_nbd_client_ok [OF quiet_table_ok [OF q assms(4)] _ assms(6,9,7,8) _ tbl_def, of True] c assms(5,10,11,12) free by auto
  have "server_accept \<lparr>tn_select = [Inr 2], tn_signal = False, tn_conn = Some cn\<rparr> s = Ret False s'"
    using assms(1,2,3) s1 s'(1) c by (simp add: server_accept_def take_connection_def)
  moreover have "\<lparr>ce_thread = cn_thread cn, ce_address = cn_address cn, ce_client = Some new_client\<rparr> \<in> set (nbd_client s')"
    using s'(2,3) by (simp add: set_update_memI)
  ultimately show ?thesis using assms(7,12) by (intro exI conjI) (assumption+, auto simp: conn_ok_def told_to_stop_def new_client_def)
qed

subsection \<open>Examples\<close>

definition sample_conn :: conn where
  "sample_conn = \<lparr>cn_fd = 7, cn_address = AF_INET [10, 0, 0, 1], cn_keepalive = 0, cn_printable = True, cn_close = True,
     cn_spawn = 0, cn_thread = 4, cn_joins = (\<lambda>_. EBUSY)\<rparr>"

definition sample_entry :: client_tbl_entry where
  "sample_entry = \<lparr>ce_thread = 4, ce_address = AF_INET [10, 0, 0, 1], ce_client = Some new_client\<rparr>"

definition sample_serving :: "client_tbl_entry list \<Rightarrow> serving" where
  "sample_serving es =
     (new_serving (AF_INET [127, 0, 0, 1]) 20480 \<lparr>acl_entries = [], acl_deny = False\<rparr> (length es) False True True)\<lparr>nbd_client := es\<rparr>"

lemma sample_serving_sel [simp]:
  "nbd_client (sample_serving es) = es" "max_nbd_clients (sample_serving es) = length es" "sv_acl (sample_serving es) = Some \<lparr>acl_entries = [], acl_deny = False\<rparr>"
  "acl_updated_signal (sample_serving es) = 0" "\<not> l_start_mirror (sample_serving es)" "\<not> mirror_super (sample_serving es)"
  "\<not> acl_locked (core (sample_serving es))" "success (core (sample_serving es))" "\<not> close_signalled (core (sample_serving es))"
  "allow_new_clients (core (sample_serving es))" "closed_fds (sample_serving es) = []" "server_fd (sample_serving es) = 0"
  by (simp_all add: sample_serving_def new_serving_def)

lemma sample_accepts [simp]: "acl_accepts (Some \<lparr>acl_entries = [], acl_deny = d\<rparr>) a = Ret (\<not> d) ()"
  by (simp add: acl_accepts_def acl_includes_def)

lemma sample_ok:
  "conn_ok sample_conn" "joins_ok (cn_joins sample_conn)" "table_ok (sample_serving [sample_entry, empty_slot])"
  by (auto simp: conn_ok_def joins_ok_def sample_conn_def table_ok_def sample_entry_def empty_slot_def)

lemma sample_create:
  "server_create (Some [49, 50, 55, 46, 48, 46, 48, 46, 49]) (Some [56, 48]) True False [] 1 False True True
     = Ret (sample_serving [empty_slot]) ()"
proof -
  have "parse_ip_to_sockaddr [49, 50, 55, 46, 48, 46, 48, 46, 49] = Done (Some (AF_INET [127, 0, 0, 1]))" by code_simp
  moreover have "parse_port [56, 48] = Ret 20480 ()" by code_simp
  moreover have "acl_create [] False = Done \<lparr>acl_entries = [], acl_deny = False\<rparr>" by code_simp
  ultimately show ?thesis by (simp add: server_create_def sample_serving_def new_serving_def)
qed

theorem acl_change_reaches_all_clients_witness:
  "\<exists>s0 s. server_create (Some [49, 50, 55, 46, 48, 46, 48, 46, 49]) (Some [56, 48]) True False [] 1 False True True
      = Ret s0 ()
    \<and> acl_step\<^sup>*\<^sup>* \<lparr>au_serve = s0, au_main = Selecting, au_unsignalled = 0\<rparr> \<lparr>au_serve = s, au_main = Selecting, au_unsignalled = 0\<rparr>
    \<and> acl_updated_signal s = 0 \<and> sv_acl s = Some \<lparr>acl_entries = [], acl_deny = True\<rparr>
    \<and> (\<exists>e\<in>set (nbd_client s). ce_thread e = 4 \<and> ce_address e = AF_INET [10, 0, 0, 1] \<and> told_to_stop e)"
proof -
  let ?deny = "\<lparr>acl_entries = [], acl_deny = True\<rparr> :: acl"
  let ?at = "\<lambda>s m u. \<lparr>au_serve = s, au_main = m, au_unsignalled = u\<rparr>"
  let ?s0 = "sample_serving [empty_slot]"
  let ?s1 = "?s0\<lparr>nbd_client := [sample_entry]\<rparr>"
  let ?s2 = "?s1\<lparr>sv_acl := Some ?deny\<rparr>"
  obtain e where e: "client_signal_stop sample_entry = Some e" "ce_thread e = 4" "ce_address e = AF_INET [10, 0, 0, 1]"
    by (simp add: client_signal_stop_def sample_entry_def)
  let ?s5 = "?s2\<lparr>nbd_client := [e]\<rparr>"
  have "server_should_accept_client True (cn_address sample_conn) ?s0 = Ret True ?s0" by (simp add: should_accept_Ret)
  then have 1: "acl_step (?at ?s0 Selecting 0) (?at ?s0 (Admitted sample_conn) 0)" using sample_ok(1) by (rule acl_step.check)
  have "start_client sample_conn ?s0 = Ret () ?s1"
    by (simp add: start_client_def cleanup_and_find_client_slot_def in_table_def tryjoin_client_thread_def empty_slot_def sample_conn_def
        sample_entry_def Let_def)
  then have 2: "acl_step (?at ?s0 (Admitted sample_conn) 0) (?at ?s1 Selecting 0)" by (rule acl_step.start)
  have "install_acl ?deny ?s1 = Ret () ?s2" by (simp add: install_acl_Ret)
  then have 3: "acl_step (?at ?s1 Selecting 0) (?at ?s2 Selecting (Suc 0))" by (rule acl_step.install)
  have 4: "acl_step (?at ?s2 Selecting (Suc 0)) (?at (signal_acl_updated ?s2) Selecting 0)" by (rule acl_step.signal)
  have "clear_acl_updated (signal_acl_updated ?s2) = ?s2" by (simp add: clear_acl_updated_def signal_acl_updated_def sample_serving_def new_serving_def)
  then have 5: "acl_step (?at (signal_acl_updated ?s2) Selecting 0) (?at ?s2 (Auditing 0) 0)"
    using acl_step.audit [of "signal_acl_updated ?s2" 0] by (simp add: signal_acl_updated_def)
  have "server_acl_accepts (AF_INET [10, 0, 0, 1]) ?s2 = Ret False ?s2" by (simp add: server_acl_accepts_Ret)
  then have "server_audit_client 0 ?s2 = Ret () ?s5"
    using e by (simp add: server_audit_client_def sample_entry_def)
  then have 6: "acl_step (?at ?s2 (Auditing 0) 0) (?at ?s5 (Auditing (Suc 0)) 0)" by (intro acl_step.audit_one) auto
  have 7: "acl_step (?at ?s5 (Auditing (Suc 0)) 0) (?at ?s5 Selecting 0)" by (rule acl_step.audited) simp
  have steps: "acl_step\<^sup>*\<^sup>* (?at ?s0 Selecting 0) (?at ?s5 Selecting 0)"
    using 1 2 3 4 5 6 7 by (meson converse_rtranclp_into_rtranclp rtranclp.rtrancl_refl)
  then show ?thesis
    using acl_change_reaches_all_clients [OF sample_create steps] sample_create e by (intro exI [of _ ?s0] exI [of _ ?s5]) simp
qed



theorem do_serve_shuts_down_witness:
  "\<exists>s'. do_serve \<lparr>or_socket = 3, or_reuseaddr = True, or_nodelay = True, or_binds = [Inl EADDRNOTAVAIL, Inr ()], or_listen = True\<rparr> True 8192 0
      [\<lparr>tn_select = [Inr 1], tn_signal = False, tn_conn = Some sample_conn\<rparr>, \<lparr>tn_select = [Inr 1], tn_signal = True, tn_conn = None\<rparr>]
      (\<lambda>_. 0) (sample_serving [empty_slot]) = Ret True s' \<and> (\<forall>e\<in>set (nbd_client s'). ce_thread e = 0) \<and> server_closed (core s')"
proof -
  let ?r = "do_serve \<lparr>or_socket = 3, or_reuseaddr = True, or_nodelay = True, or_binds = [Inl EADDRNOTAVAIL, Inr ()], or_listen = True\<rparr> True 8192 0
      [\<lparr>tn_select = [Inr 1], tn_signal = False, tn_conn = Some sample_conn\<rparr>, \<lparr>tn_select = [Inr 1], tn_signal = True, tn_conn = None\<rparr>]
      (\<lambda>_. 0) (sample_serving [empty_slot])"
  have "case ?r of Ret b s' \<Rightarrow> b | _ \<Rightarrow> False" by code_simp
  then obtain s' where r: "?r = Ret True s'" by (auto split: outcome.splits)
  with do_serve_shuts_down [OF r] show ?thesis by simp
qed

theorem late_client_not_told_to_stop_witness:
  "\<exists>s' e. server_accept \<lparr>tn_select = [Inr 2], tn_signal = False, tn_conn = Some sample_conn\<rparr>
      (on_core (\<lambda>c. c\<lparr>close_signalled := True\<rparr>) (sample_serving [sample_entry, empty_slot])) = Ret False s'
    \<and> e \<in> set (nbd_client s') \<and> ce_thread e = 4 \<and> \<not> told_to_stop e"
proof -
  let ?s = "on_core (\<lambda>c. c\<lparr>close_signalled := True\<rparr>) (sample_serving [sample_entry, empty_slot])"
  have "table_ok ?s" "close_signalled (core ?s)" "allow_new_clients (core ?s)" "acl_updated_signal ?s = 0" "\<not> acl_locked (core ?s)"
    "\<exists>e\<in>set (nbd_client ?s). ce_thread e = 0" "acl_accepts (sv_acl ?s) (cn_address sample_conn) = Ret True ()"
    using sample_ok(3) by (simp_all add: table_ok_def on_core_def empty_slot_def)
  moreover have "cn_printable sample_conn" "cn_spawn sample_conn = 0" "cn_keepalive sample_conn = 0" "cn_close sample_conn" "cn_thread sample_conn = 4"
    by (simp_all add: sample_conn_def)
  ultimately show ?thesis
    using late_client_not_told_to_stop [of ?s sample_conn] sample_ok(1,2) by (metis order_refl)
qed

end
