(* ===== verification/Control.thy ===== *)
theory Control
  imports Serve Mirror
begin

text \<open>
  The control socket: the commands of \<^verbatim>\<open>src/src/server/control.c\<close>, the status report of
  \<^verbatim>\<open>src/src/server/status.c\<close>, the mailbox of \<^verbatim>\<open>src/src/server/mbox.c\<close> and, on the other end of the
  socket, \<^verbatim>\<open>src/src/common/remote.c\<close>.  \<open>ctl\<close> is what the control thread works on: the server, its mirror,
  the command's input and the answer written so far.  Writes to the socket accept everything.  What
  the rest of the system answers while one command runs is the record \<open>ctl_env\<close>: whether the supervisor thread
  can be created and which state it posts, whether the mirror had finished when it was told to stop,
  the joins of finished clients, the clock, the process id, and the two bytes that follow a string
  literal in memory.
\<close>

subsection \<open>C library\<close>

definition bytes_of :: "string \<Rightarrow> byte list" where
  "bytes_of s = map of_char s"

definition strtoull :: "byte list \<Rightarrow> u64 \<times> bool" where
  "strtoull s =
     (let t = dropWhile is_space s;
          neg = (t \<noteq> [] \<and> hd t = 45);
          u = (if t \<noteq> [] \<and> (hd t = 45 \<or> hd t = 43) then tl t else t);
          v = dec_value 0 (takeWhile is_digit u)
      in if v > 2 ^ 64 - 1 then (- 1, True) else (word_of_int (if neg then - v else v), False))"

fun decimal :: "nat \<Rightarrow> byte list" where
  "decimal n = (if n < 10 then [48 + of_nat n] else decimal (n div 10) @ [48 + of_nat (n mod 10)])"

declare decimal.simps [simp del]

definition decimal_int :: "int \<Rightarrow> byte list" where
  "decimal_int i = (if i < 0 then 45 # decimal (nat (- i)) else decimal (nat i))"

subsection \<open>The mailbox\<close>

record 'a mbox =
  mb_contents :: "'a option"
  mb_full :: bool

text \<open>Both operations wait once and do not look again, so waking up is part of the operation's input:
  \<open>woken\<close> says that \<^verbatim>\<open>pthread_cond_wait\<close> has returned.\<close>

definition mbox_post :: "bool \<Rightarrow> 'a \<Rightarrow> 'a mbox \<Rightarrow> ('a mbox, unit) outcome" where
  "mbox_post woken x b =
     (if mb_full b \<and> \<not> woken then Asleep b else Ret () (b\<lparr>mb_contents := Some x, mb_full := True\<rparr>))"

definition mbox_receive :: "bool \<Rightarrow> 'a mbox \<Rightarrow> ('a mbox, 'a option) outcome" where
  "mbox_receive woken b =
     (if \<not> mb_full b \<and> \<not> woken then Asleep b
      else Ret (mb_contents b) (b\<lparr>mb_contents := None, mb_full := False\<rparr>))"

subsection \<open>State\<close>

record ctl =
  ct_serve :: serving
  ct_mirror :: "mirror option"
  ct_target :: "(sockaddr \<times> u16 \<times> sockaddr option) option"
  ct_runners :: nat
  ct_mbox :: "mirror_state mbox"
  ct_in :: "rd list"
  ct_out :: "byte list"
  ct_open :: bool

record ctl_env =
  en_spawn :: int
  en_posted :: "mirror_state option"
  en_completed :: bool
  en_joins :: "nat \<Rightarrow> int"
  en_now :: u64
  en_pid :: int
  en_beyond :: "byte list"

type_synonym 'a ctl_op = "ctl \<Rightarrow> (ctl, 'a) outcome"

definition answer :: "byte list \<Rightarrow> ctl \<Rightarrow> ctl" where
  "answer bs c = c\<lparr>ct_out := ct_out c @ bs\<rparr>"

definition write_socket :: "string \<Rightarrow> ctl \<Rightarrow> ctl" where
  "write_socket msg = answer (bytes_of msg @ [10])"

definition on_serve :: "'a serve_op \<Rightarrow> 'a ctl_op" where
  "on_serve f c =
     (case f (ct_serve c) of
        Ret a s \<Rightarrow> Ret a (c\<lparr>ct_serve := s\<rparr>) | Error s \<Rightarrow> Error (c\<lparr>ct_serve := s\<rparr>) | Fatal s \<Rightarrow> Fatal (c\<lparr>ct_serve := s\<rparr>)
      | Asleep s \<Rightarrow> Asleep (c\<lparr>ct_serve := s\<rparr>) | Spins \<Rightarrow> Spins | Fault \<Rightarrow> Fault)"

definition put_serve :: "(serving \<Rightarrow> serving) \<Rightarrow> ctl \<Rightarrow> ctl" where
  "put_serve f c = c\<lparr>ct_serve := f (ct_serve c)\<rparr>"

subsection \<open>Starting a mirror\<close>

definition mirror_response :: "mirror_state \<Rightarrow> string" where
  "mirror_response st =
     (case st of
        MS_INIT \<Rightarrow> ''1: Mirror failed to initialise''
      | MS_UNKNOWN \<Rightarrow> ''1: Mirror failed to initialise''
      | MS_FAIL_CONNECT \<Rightarrow> ''1: Mirror failed to connect''
      | MS_FAIL_REJECTED \<Rightarrow> ''1: Mirror was rejected''
      | MS_FAIL_NO_HELLO \<Rightarrow> ''1: Remote server failed to respond''
      | MS_FAIL_SIZE_MISMATCH \<Rightarrow> ''1: Remote size does not match local size''
      | MS_ABANDONED \<Rightarrow> ''1: Mirroring abandoned''
      | MS_GO \<Rightarrow> ''0: Mirror started''
      | MS_DONE \<Rightarrow> ''0: Mirror started'')"

definition control_write_mirror_response :: "mirror_state \<Rightarrow> unit ctl_op" where
  "control_write_mirror_response st c =
     (let c1 = write_socket (mirror_response st) c
      in if st = MS_INIT \<or> st = MS_UNKNOWN then Fatal c1 else Ret () c1)"

definition control_client_mirror_wait :: "mirror_state option \<Rightarrow> mirror_state ctl_op" where
  "control_client_mirror_wait posted c =
     (let b = (case posted of None \<Rightarrow> ct_mbox c
               | Some st \<Rightarrow> (case mbox_post False st (ct_mbox c) of Ret _ b \<Rightarrow> b | _ \<Rightarrow> ct_mbox c))
      in case mbox_receive False b of
           Ret (Some st) b' \<Rightarrow> Ret st (c\<lparr>ct_mbox := b'\<rparr>)
         | Ret None b' \<Rightarrow> Fatal (c\<lparr>ct_mbox := b'\<rparr>)
         | _ \<Rightarrow> Asleep c)"

definition quoted :: "string \<Rightarrow> string" where
  "quoted s = [CHR 0x27] @ s @ [CHR 0x27]"

definition parse_action :: "byte list list \<Rightarrow> mirror_finish_action option" where
  "parse_action args =
     (case args of
        [] \<Rightarrow> Some ACTION_EXIT
      | a # _ \<Rightarrow>
          if a = bytes_of ''exit'' then Some ACTION_EXIT
          else if a = bytes_of ''unlink'' then Some ACTION_UNLINK
          else if a = bytes_of ''nothing'' then Some ACTION_NOTHING
          else None)"

definition parse_bind :: "byte list list \<Rightarrow> (unit, string + sockaddr option) outcome" where
  "parse_bind args =
     (case args of
        [] \<Rightarrow> Ret (Inr None) ()
      | a # _ \<Rightarrow>
          (case parse_ip_to_sockaddr a of
             Done (Some addr) \<Rightarrow> Ret (Inr (Some addr)) ()
           | Done None \<Rightarrow> Ret (Inl ''1: bad bind address'') ()
           | _ \<Rightarrow> Fault))"

definition parse_max_bps :: "byte list list \<Rightarrow> string + u64" where
  "parse_max_bps args =
     (case args of
        [] \<Rightarrow> Inr (- 1)
      | a # _ \<Rightarrow> if snd (strtoull a) then Inl ''1: max_bps out of range'' else Inr (fst (strtoull a)))"

type_synonym mirror_args = "sockaddr \<times> u16 \<times> mirror_finish_action \<times> sockaddr option \<times> u64"

definition parse_mirror_args :: "byte list list \<Rightarrow> (unit, string + mirror_args) outcome" where
  "parse_mirror_args lines =
     (if length lines < 2 then Ret (Inl ''1: mirror takes at least two parameters'') ()
      else case parse_ip_to_sockaddr (lines ! 0) of
        Done None \<Rightarrow> Ret (Inl ''1: bad IP address'') ()
      | Done (Some connect_to) \<Rightarrow>
          (let raw_port = atoi (lines ! 1) in
           if raw_port < 0 \<or> raw_port > 65535 then Ret (Inl ''1: bad IP port number'') ()
           else case parse_action (drop 2 lines) of
             None \<Rightarrow> Ret (Inl (''1: action must be '' @ quoted ''exit'' @ '' or '' @ quoted ''nothing'')) ()
           | Some action \<Rightarrow>
               and_then (parse_bind (drop 3 lines)) (\<lambda>r _.
                 case r of
                   Inl msg \<Rightarrow> Ret (Inl msg) ()
                 | Inr connect_from \<Rightarrow>
                     (case parse_max_bps (drop 4 lines) of
                        Inl msg \<Rightarrow> Ret (Inl msg) ()
                      | Inr max_Bps \<Rightarrow>
                          if length lines > 5 then Ret (Inl ''1: unrecognised parameters to mirror'') ()
                          else Ret (Inr (connect_to, htobe16 (word_of_int raw_port), action, connect_from, max_Bps)) ())))
      | _ \<Rightarrow> Fault)"

definition start_mirror_locked :: "mirror_args \<Rightarrow> ctl \<Rightarrow> ctl" where
  "start_mirror_locked args c =
     (case args of (connect_to, port, action, connect_from, max_Bps) \<Rightarrow>
        if server_mirror_can_start (ct_serve c) then
          put_serve (\<lambda>s. server_prevent_mirror_start (s\<lparr>mirror_super := True\<rparr>))
            (c\<lparr>ct_mirror := Some (mirror_create max_Bps action), ct_target := Some (connect_to, port, connect_from)\<rparr>)
        else if mirror_super (ct_serve c) then write_socket ''1: mirror already running'' c
        else write_socket ''1: shutting down'' c)"

definition control_mirror :: "ctl_env \<Rightarrow> byte list list \<Rightarrow> int ctl_op" where
  "control_mirror e lines c =
     (case parse_mirror_args lines of
        Ret (Inl msg) _ \<Rightarrow> Ret (- 1) (write_socket msg c)
      | Ret (Inr args) _ \<Rightarrow>
          and_then (on_serve server_lock_start_mirror c) (\<lambda>_ c1.
            let c2 = put_serve server_unlock_start_mirror (start_mirror_locked args c1) in
            if mirror_super (ct_serve c2) then
              (if en_spawn e \<noteq> 0 then Fatal c2
               else and_then (control_client_mirror_wait (en_posted e) (c2\<lparr>ct_runners := ct_runners c2 + 1\<rparr>)) (\<lambda>st c3.
                      and_then (control_write_mirror_response st c3) (\<lambda>_ c4. Ret 0 c4)))
            else Ret 0 c2)
      | _ \<Rightarrow> Fault)"

definition control_mirror_max_bps :: "byte list list \<Rightarrow> int ctl_op" where
  "control_mirror_max_bps lines c =
     (if \<not> server_is_mirroring (ct_serve c) then Ret (- 1) (write_socket ''1: Not currently mirroring'' c)
      else if length lines \<noteq> 1 then Ret (- 1) (write_socket ''1: Bad format'' c)
      else case parse_max_bps lines of
             Inl msg \<Rightarrow> Ret (- 1) (write_socket msg c)
           | Inr max_Bps \<Rightarrow>
               (case ct_mirror c of
                  None \<Rightarrow> Fault
                | Some m \<Rightarrow> Ret 0 (write_socket ''0: updated'' (c\<lparr>ct_mirror := Some (m\<lparr>max_bytes_per_second := max_Bps\<rparr>)\<rparr>))))"

subsection \<open>Access list and break\<close>

definition server_default_deny :: "serving \<Rightarrow> bool option" where
  [simp]: "server_default_deny s = map_option acl_default_deny (sv_acl s)"

definition flexnbd_default_deny :: "ctl \<Rightarrow> bool option" where
  [simp]: "flexnbd_default_deny c = server_default_deny (ct_serve c)"

definition control_acl :: "byte list list \<Rightarrow> int ctl_op" where
  "control_acl lines c =
     (case flexnbd_default_deny c of
        None \<Rightarrow> Fatal c
      | Some default_deny \<Rightarrow>
          (case acl_create lines default_deny of
             Done new_acl \<Rightarrow>
               if length (acl_entries new_acl) \<noteq> length lines
               then Ret 0 (answer (bytes_of ''1: bad spec: '' @ lines ! length (acl_entries new_acl) @ [10]) c)
               else and_then (on_serve (server_replace_acl new_acl) c) (\<lambda>_ c1. Ret 0 (write_socket ''0: updated'' c1))
           | _ \<Rightarrow> Fault))"

definition control_break :: "ctl_env \<Rightarrow> int ctl_op" where
  "control_break e c =
     and_then (on_serve server_lock_start_mirror c) (\<lambda>_ c1.
       let (r, c2) =
         (if server_is_mirroring (ct_serve c1) then
            (let c3 = put_serve server_abandon_mirror (c1\<lparr>ct_mirror := None\<rparr>);
                 c4 = (if en_completed e then put_serve (on_core (\<lambda>k. k\<lparr>server_closed := True\<rparr>)) c3 else c3)
             in if server_is_closed (core (ct_serve c4)) then (0, write_socket ''1: mirror completed'' c4)
                else (1, write_socket ''0: mirror stopped'' c4))
          else (0, write_socket ''1: not mirroring'' c1))
       in Ret r (put_serve server_unlock_start_mirror c2))"

subsection \<open>Status\<close>

record status =
  st_pid :: int
  st_size :: u64
  st_has_control :: bool
  st_clients_allowed :: bool
  st_num_clients :: nat
  st_is_mirroring :: bool
  st_migration_duration :: u64
  st_migration_speed :: u64
  st_migration_speed_limit :: u64
  st_migration_seconds_left :: u64
  st_migration_bytes_left :: u64

definition status_create :: "ctl_env \<Rightarrow> status ctl_op" where
  "status_create e c =
     and_then (on_serve (server_count_clients (en_joins e)) c) (\<lambda>num c1.
     and_then (on_serve server_lock_start_mirror c1) (\<lambda>_ c2.
       let s = core (ct_serve c2);
           st = \<lparr>st_pid = en_pid e, st_size = serve_size (core (ct_serve c)), st_has_control = success (core (ct_serve c)),
                 st_clients_allowed = allow_new_clients (core (ct_serve c)), st_num_clients = num, st_is_mirroring = False,
                 st_migration_duration = 0, st_migration_speed = 0, st_migration_speed_limit = 0,
                 st_migration_seconds_left = 0, st_migration_bytes_left = 0\<rparr>;
           st' = (case ct_mirror c2 of
                    None \<Rightarrow> st
                  | Some m \<Rightarrow>
                      let k = mirror_ctrl_zero s m False; now = en_now e in
                      st\<lparr>st_is_mirroring := True,
                         st_migration_duration := (if migration_started m < now then now - migration_started m else 0) div 1000,
                         st_migration_speed := server_mirror_bps now k,
                         st_migration_speed_limit := max_bytes_per_second m,
                         st_migration_seconds_left := server_mirror_eta now k,
                         st_migration_bytes_left := server_mirror_bytes_remaining k\<rparr>)
       in Ret st' (put_serve server_unlock_start_mirror c2)))"

definition print_field :: "string \<Rightarrow> byte list \<Rightarrow> byte list" where
  "print_field var value = bytes_of var @ [61] @ value @ [32]"

definition bool_s :: "bool \<Rightarrow> byte list" where
  "bool_s b = bytes_of (if b then ''true'' else ''false'')"

definition status_write :: "status \<Rightarrow> byte list" where
  "status_write st =
     print_field ''pid'' (decimal_int (st_pid st)) @ print_field ''size'' (decimal (unat (st_size st)))
     @ print_field ''is_mirroring'' (bool_s (st_is_mirroring st)) @ print_field ''clients_allowed'' (bool_s (st_clients_allowed st))
     @ print_field ''num_clients'' (decimal (st_num_clients st)) @ print_field ''has_control'' (bool_s (st_has_control st))
     @ (if st_is_mirroring st then
          print_field ''migration_speed'' (decimal (unat (st_migration_speed st)))
          @ print_field ''migration_duration'' (decimal (unat (st_migration_duration st)))
          @ print_field ''migration_seconds_left'' (decimal (unat (st_migration_seconds_left st)))
          @ print_field ''migration_bytes_left'' (decimal (unat (st_migration_bytes_left st)))
          @ (if st_migration_speed_limit st < - 1
             then print_field ''migration_speed_limit'' (decimal (unat (st_migration_speed_limit st))) else [])
        else [])
     @ [10]"

definition control_status :: "ctl_env \<Rightarrow> int ctl_op" where
  "control_status e c = and_then (status_create e c) (\<lambda>st c1. Ret 0 (answer (bytes_of ''0: '' @ status_write st) c1))"

subsection \<open>Dispatch\<close>

definition control_client_cleanup :: "ctl \<Rightarrow> ctl" where
  "control_client_cleanup c =
     (let c1 = c\<lparr>ct_open := False\<rparr>
      in if server_acl_locked (ct_serve c1) then put_serve server_unlock_acl c1 else c1)"

definition control_dispatch :: "ctl_env \<Rightarrow> byte list list \<Rightarrow> unit ctl_op" where
  "control_dispatch e lines c =
     (case lines of
        [] \<Rightarrow> Ret () (write_socket ''9: missing command'' c)
      | cmd # args \<Rightarrow>
          if cmd = bytes_of ''acl'' then and_then (control_acl args c) (\<lambda>_. Ret ())
          else if cmd = bytes_of ''mirror'' then and_then (control_mirror e args c) (\<lambda>_. Ret ())
          else if cmd = bytes_of ''break'' then and_then (control_break e c) (\<lambda>_. Ret ())
          else if cmd = bytes_of ''status'' then and_then (control_status e c) (\<lambda>_. Ret ())
          else if cmd = bytes_of ''mirror_max_bps'' then and_then (control_mirror_max_bps args c) (\<lambda>_. Ret ())
          else Ret () (answer (bytes_of ''10: unknown command'' @ [10, 0] @ en_beyond e) c))"

definition control_respond :: "ctl_env \<Rightarrow> unit ctl_op" where
  "control_respond e c =
     (case read_lines_until_blankline 256 (ct_in c) of
        None \<Rightarrow> Fault
      | Some (lines, es) \<Rightarrow>
          (case control_dispatch e lines (c\<lparr>ct_in := es\<rparr>) of
             Ret _ c1 \<Rightarrow> Ret () (control_client_cleanup c1)
           | Error c1 \<Rightarrow> Error (control_client_cleanup c1)
           | r \<Rightarrow> r))"

subsection \<open>The control thread\<close>

record control =
  co_ctl :: ctl
  co_open_signal :: nat
  co_close_signal :: nat
  co_listening :: bool
  co_socket_file :: bool

datatype control_turn = ControlSelectFailed | ControlAcceptFailed | ControlClient "rd list" ctl_env

definition control_signal_close :: "control \<Rightarrow> control" where
  "control_signal_close k = k\<lparr>co_close_signal := co_close_signal k + 1\<rparr>"

definition control_handle_client :: "rd list \<Rightarrow> ctl_env \<Rightarrow> control \<Rightarrow> (control, unit) outcome" where
  "control_handle_client es e k =
     (case control_respond e ((co_ctl k)\<lparr>ct_in := es, ct_out := [], ct_open := True\<rparr>) of
        Ret _ c \<Rightarrow> Ret () (k\<lparr>co_ctl := c\<rparr>) | Error c \<Rightarrow> Error (k\<lparr>co_ctl := c\<rparr>) | Fatal c \<Rightarrow> Fatal (k\<lparr>co_ctl := c\<rparr>)
      | Asleep c \<Rightarrow> Asleep (k\<lparr>co_ctl := c\<rparr>) | Spins \<Rightarrow> Spins | Fault \<Rightarrow> Fault)"

fun control_accept_loop :: "control_turn list \<Rightarrow> control \<Rightarrow> (control, unit) outcome" where
  "control_accept_loop ts k =
     (if 0 < co_close_signal k then Ret () k
      else case ts of
             [] \<Rightarrow> Asleep k
           | ControlSelectFailed # _ \<Rightarrow> Fatal k
           | ControlAcceptFailed # _ \<Rightarrow> Fatal k
           | ControlClient es e # ts' \<Rightarrow> and_then (control_handle_client es e k) (\<lambda>_. control_accept_loop ts'))"

declare control_accept_loop.simps [simp del]

definition control_listen :: "bool \<Rightarrow> control \<Rightarrow> (control, unit) outcome" where
  "control_listen bound k = (if bound then Ret () (k\<lparr>co_listening := True, co_socket_file := True\<rparr>) else Fatal k)"

definition control_serve :: "bool \<Rightarrow> control_turn list \<Rightarrow> control \<Rightarrow> (control, unit) outcome" where
  "control_serve bound ts k =
     (if co_open_signal k = 0 then Asleep k
      else and_then (control_listen bound (k\<lparr>co_open_signal := co_open_signal k - 1\<rparr>)) (\<lambda>_. control_accept_loop ts))"

definition control_cleanup :: "control \<Rightarrow> control" where
  "control_cleanup k = k\<lparr>co_listening := False, co_socket_file := False\<rparr>"

definition control_runner :: "bool \<Rightarrow> control_turn list \<Rightarrow> control \<Rightarrow> (control, unit) outcome" where
  "control_runner bound ts k = and_then (control_serve bound ts k) (\<lambda>_ k1. Ret () (control_cleanup k1))"

subsection \<open>The other end: remote.c\<close>

definition remote_command :: "byte list \<Rightarrow> byte list option list \<Rightarrow> byte list" where
  "remote_command command args =
     command @ [10] @ concat (map (\<lambda>a. (case a of None \<Rightarrow> [] | Some s \<Rightarrow> s) @ [10]) args) @ [10]"

datatype stream = Stdout | Stderr

definition print_response :: "byte list \<Rightarrow> (unit, stream \<times> byte list) outcome" where
  "print_response response =
     (let exit_status = atoi response; text = dropWhile (\<lambda>c. c \<noteq> 58) response in
      if text = [] then Fatal ()
      else if length text < 2 then Fault
      else Ret (if exit_status > 0 then Stderr else Stdout, drop 2 text @ [10]) ())"

definition do_remote_command :: "rd list \<Rightarrow> (unit, int \<times> stream \<times> byte list) outcome" where
  "do_remote_command reply =
     (case read_until_newline (replicate 1024 0) 1024 reply of
        None \<Rightarrow> Fault
      | Some (n, line, _) \<Rightarrow>
          if n < 0 then Fatal ()
          else and_then (print_response (c_string line)) (\<lambda>(out, text) _. Ret (atoi (c_string line), out, text) ()))"

subsection \<open>Numbers on the wire\<close>

lemma digit_byte:
  assumes "n < 10"
  shows "is_digit (48 + of_nat n)" "uint (48 + of_nat n :: byte) = 48 + int n"
proof -
  have n: "unat (of_nat n :: byte) = n" using assms by (simp add: unat_of_nat take_bit_nat_eq_self_iff)
  have "unat (48 + of_nat n :: byte) = 48 + n" using assms n by (subst unat_add_lem [THEN iffD1]) simp_all
  then show "uint (48 + of_nat n :: byte) = 48 + int n" by (simp add: uint_nat)
  then show "is_digit (48 + of_nat n)" using assms by (simp add: is_digit_def word_le_def)
qed

lemma dec_value_append: "dec_value acc (xs @ ys) = dec_value (dec_value acc xs) ys"
  by (induction acc xs rule: dec_value.induct) auto

lemma decimal_spec: "list_all is_digit (decimal n) \<and> dec_value 0 (decimal n) = int n \<and> decimal n \<noteq> []"
proof (induction n rule: decimal.induct)
  case (1 n)
  show ?case
  proof (cases "n < 10")
    case True
    then show ?thesis using digit_byte [of n] by (simp add: decimal.simps [of n])
  next
    case False
    then show ?thesis using 1 digit_byte [of "n mod 10"]
      by (simp add: decimal.simps [of n] dec_value_append) presburger
  qed
qed

lemma digits_plain: "list_all is_digit ds \<Longrightarrow> 32 \<notin> set ds \<and> 61 \<notin> set ds \<and> 10 \<notin> set ds \<and> 45 \<notin> set ds"
  by (induction ds) (auto simp: is_digit_def)

lemma decimal_plain [simp]: "32 \<notin> set (decimal n)" "61 \<notin> set (decimal n)" "10 \<notin> set (decimal n)" "decimal n \<noteq> []"
  using digits_plain [of "decimal n"] decimal_spec by auto

lemma decimal_shape:
  obtains d ds where "decimal n = d # ds" "\<not> is_space d" "d \<noteq> 45" "d \<noteq> 43"
    "takeWhile is_digit (d # ds) = d # ds" "dec_value 0 (d # ds) = int n"
proof -
  obtain d ds where d: "decimal n = d # ds" by (cases "decimal n") auto
  have dig: "is_digit d" "list_all is_digit (d # ds)" using decimal_spec [of n] d by auto
  then have "\<not> is_space d" "d \<noteq> 45" "d \<noteq> 43" by (auto simp: is_digit_def is_space_def word_le_def)
  moreover have "takeWhile is_digit (d # ds) = d # ds" using dig(2) by (simp add: list_all_iff takeWhile_eq_all_conv)
  moreover have "dec_value 0 (d # ds) = int n" using decimal_spec [of n] d by simp
  ultimately show thesis using d that by blast
qed

lemma strtoull_decimal: "n < 2 ^ 64 \<Longrightarrow> strtoull (decimal n) = (of_nat n, False)"
proof (rule decimal_shape [of n])
  fix d ds
  assume n: "n < 2 ^ 64"
    and d: "decimal n = d # ds" "\<not> is_space d" "d \<noteq> 45" "d \<noteq> 43" "takeWhile is_digit (d # ds) = d # ds" "dec_value 0 (d # ds) = int n"
  show ?thesis unfolding strtoull_def Let_def d(1) using n d(2-4) by (simp add: d(5,6) del: takeWhile.simps dec_value.simps)
qed

lemma strtol_decimal: "n < 2 ^ 63 \<Longrightarrow> strtol (decimal n) = int n"
proof (rule decimal_shape [of n])
  fix d ds
  assume n: "n < 2 ^ 63"
    and d: "decimal n = d # ds" "\<not> is_space d" "d \<noteq> 45" "d \<noteq> 43" "takeWhile is_digit (d # ds) = d # ds" "dec_value 0 (d # ds) = int n"
  show ?thesis unfolding strtol_def Let_def d(1) using n d(2-4) by (simp add: d(5,6) del: takeWhile.simps dec_value.simps)
qed

subsection \<open>The status line\<close>

definition status_fields :: "byte list \<Rightarrow> (byte list \<times> byte list) list" where
  "status_fields line =
     map (\<lambda>f. (takeWhile (\<lambda>b. b \<noteq> 61) f, drop 1 (dropWhile (\<lambda>b. b \<noteq> 61) f)))
       (filter (\<lambda>f. f \<noteq> [10]) (split_at 32 line))"

lemma split_at_field: "32 \<notin> set f \<Longrightarrow> split_at 32 (f @ 32 # rest) = f # split_at 32 rest"
  by (induction f) auto

lemma status_fields_field:
  assumes "32 \<notin> set (bytes_of var)" "61 \<notin> set (bytes_of var)" "32 \<notin> set v"
  shows "status_fields (print_field var v @ rest) = (bytes_of var, v) # status_fields rest"
proof -
  let ?f = "bytes_of var @ 61 # v"
  have p: "print_field var v @ rest = ?f @ 32 # rest" by (simp add: print_field_def)
  have f: "?f \<noteq> [10]" by (cases "bytes_of var") auto
  have t: "takeWhile (\<lambda>b. b \<noteq> 61) ?f = bytes_of var" "dropWhile (\<lambda>b. b \<noteq> 61) ?f = 61 # v"
    using assms(2) by (subst takeWhile_append2 dropWhile_append2; force)+
  have "split_at 32 (?f @ 32 # rest) = ?f # split_at 32 rest" using assms by (intro split_at_field) auto
  then show ?thesis unfolding status_fields_def p using f t by simp
qed

lemma status_fields_end: "status_fields [10] = []"
  by (simp add: status_fields_def)

lemma decimal_int_plain [simp]: "32 \<notin> set (decimal_int i)" by (simp add: decimal_int_def)

lemma bool_s_plain [simp]: "32 \<notin> set (bool_s b)" by (simp add: bool_s_def bytes_of_def)

definition number :: "u64 \<Rightarrow> byte list" where
  "number w = decimal (unat w)"

definition expected_fields :: "status \<Rightarrow> (byte list \<times> byte list) list" where
  "expected_fields st =
     [(bytes_of ''pid'', decimal_int (st_pid st)), (bytes_of ''size'', number (st_size st)),
      (bytes_of ''is_mirroring'', bool_s (st_is_mirroring st)), (bytes_of ''clients_allowed'', bool_s (st_clients_allowed st)),
      (bytes_of ''num_clients'', decimal (st_num_clients st)), (bytes_of ''has_control'', bool_s (st_has_control st))]
     @ (if st_is_mirroring st then
          [(bytes_of ''migration_speed'', number (st_migration_speed st)), (bytes_of ''migration_duration'', number (st_migration_duration st)),
           (bytes_of ''migration_seconds_left'', number (st_migration_seconds_left st)),
           (bytes_of ''migration_bytes_left'', number (st_migration_bytes_left st))]
          @ (if st_migration_speed_limit st < - 1 then [(bytes_of ''migration_speed_limit'', number (st_migration_speed_limit st))] else [])
        else [])"

lemma labels_plain [simp]:
  "var \<in> {''pid'', ''size'', ''is_mirroring'', ''clients_allowed'', ''num_clients'', ''has_control'', ''migration_speed'',
     ''migration_duration'', ''migration_seconds_left'', ''migration_bytes_left'', ''migration_speed_limit''} \<Longrightarrow>
   32 \<notin> set (bytes_of var) \<and> 61 \<notin> set (bytes_of var)"
  by (auto simp: bytes_of_def)

lemma status_line_fields: "status_fields (status_write st) = expected_fields st"
  by (simp add: status_write_def expected_fields_def number_def status_fields_field status_fields_end)

text \<open>the status line can be read back.  Splitting the line at its spaces and each field at its first
  equals sign gives exactly the labels and values of the report, in order, and the decimal number of a
  64-bit value reads back as that value.\<close>

theorem status_line_roundtrip:
  "status_fields (status_write st) = expected_fields st \<and> strtoull (number w) = (w, False)"
  using strtoull_decimal [of "unat w"] unsigned_less [of w] by (simp add: status_line_fields number_def)

subsection \<open>Commands\<close>

definition line_ok :: "byte list \<Rightarrow> bool" where
  "line_ok l \<longleftrightarrow> l \<noteq> [] \<and> 0 \<notin> set l \<and> 10 \<notin> set l \<and> length l < 256"

text \<open>What the other end sends arrives as the lines of the command.\<close>

lemma remote_command_lines:
  "remote_command cmd (map Some args) = concat (map (\<lambda>l. l @ [10]) (cmd # args)) @ 10 # []"
  by (simp add: remote_command_def comp_def)

lemma control_respond_remote:
  assumes "plain (ct_in c)" "rd_data (ct_in c) = remote_command cmd (map Some args)" "\<forall>l\<in>set (cmd # args). line_ok l"
  obtains es where "read_lines_until_blankline 256 (ct_in c) = Some (cmd # args, es)"
proof -
  have "\<exists>es'. read_lines 256 (replicate (256 + 1) 0) [] (ct_in c) = Some ([] @ cmd # args, es') \<and> plain es' \<and> rd_data es' = []"
    using assms unfolding remote_command_lines by (intro read_lines_spec) (auto simp: line_ok_def)
  with that show thesis by (auto simp: read_lines_until_blankline_def)
qed

text \<open>A one-line answer is read back by the other end: its number is the exit status.\<close>

lemma c_string_padded: "0 \<notin> set line \<Longrightarrow> c_string (take 0 m @ line @ 0 # rest) = line"
  by (simp add: c_string_line)

lemma remote_reads_answer:
  assumes "0 \<notin> set line" "10 \<notin> set line" "length line < 1024" "line = d # 58 # 32 # msg" "is_digit d"
  shows "do_remote_command [Avail (line @ [10])] =
    Ret (uint d - 48, if d = 48 then Stdout else Stderr, msg @ [10]) ()"
proof -
  obtain es' where r: "read_until_newline (replicate 1024 0) 1024 [Avail (line @ [10])]
      = Some (int (length line) + 1, take 0 (replicate 1024 0) @ line @ 0 # drop (length line + 1) (replicate 1024 0), es')"
    using read_until_newline_at_line [of "[Avail (line @ [10])]" line "[]" 0 1024 "replicate 1024 0"] assms(2,3)
    by (auto simp: read_until_newline_def)
  have d: "\<not> is_space d" "d \<noteq> 45" "d \<noteq> 43" "d \<noteq> 58" "48 \<le> uint d" "uint d \<le> 57" "d = 48 \<longleftrightarrow> uint d = 48"
    using assms(5) by (auto simp: is_digit_def is_space_def word_le_def word_uint_eq_iff)
  have "strtol line = uint d - 48" using d assms(4,5) by (simp add: strtol_def Let_def is_digit_def)
  then have "atoi line = sint (word_of_int (uint d - 48) :: i32)" by (simp add: atoi_def)
  also have "\<dots> = uint d - 48" unfolding sint_sbintrunc' using d by (intro signed_take_bit_int_eq_self) simp_all
  finally have a: "atoi line = uint d - 48" .
  have "print_response line = Ret (if d = 48 then Stdout else Stderr, msg @ [10]) ()"
    using a d assms(4) by (simp add: print_response_def Let_def)
  then show ?thesis using r a c_string_padded [OF assms(1)] by (simp add: do_remote_command_def)
qed

lemma server_replace_acl_Ret:
  "\<not> acl_locked (core s) \<Longrightarrow> server_replace_acl l s = Ret () (s\<lparr>sv_acl := Some l, acl_updated_signal := acl_updated_signal s + 1\<rparr>)"
proof -
  assume "\<not> acl_locked (core s)"
  then have "install_acl l s = Ret () (s\<lparr>sv_acl := Some l\<rparr>)" by (simp add: install_acl_Ret)
  then show ?thesis by (simp add: server_replace_acl_def signal_acl_updated_def)
qed

lemma cleanup_unlocked: "\<not> acl_locked (core (ct_serve c)) \<Longrightarrow> control_client_cleanup c = c\<lparr>ct_open := False\<rparr>"
  by (simp add: control_client_cleanup_def Let_def)

lemma acl_create_length: "acl_create lines d = Done l \<Longrightarrow> length (acl_entries l) \<le> length lines"
  by (auto simp: acl_create_def dest: parse_acl_ok split: cresult.splits)

text \<open>C27: \<^verbatim>\<open>flexnbd acl\<close> against a server.  The command that the remote end sends, with the list's entries as
  arguments, installs exactly the list they spell, with the old default, and leaves a signal for the audit;
  the remote end exits with status 0.  If an entry is bad the server is left alone, the answer names the
  first bad entry and the remote end exits with status 1.\<close>

theorem acl_command:
  assumes "plain (ct_in c)" "rd_data (ct_in c) = remote_command (bytes_of ''acl'') (map Some args)" "\<forall>l\<in>set args. line_ok l"
    and "sv_acl (ct_serve c) = Some old" "\<not> acl_locked (core (ct_serve c))" "ct_out c = []"
    and "acl_create args (acl_deny old) = Done new_acl" "n = length (acl_entries new_acl)"
  shows "\<exists>c'. control_respond e c = Ret () c' \<and> \<not> ct_open c' \<and>
    (if n = length args
     then ct_serve c' = (ct_serve c)\<lparr>sv_acl := Some new_acl, acl_updated_signal := acl_updated_signal (ct_serve c) + 1\<rparr>
       \<and> do_remote_command [Avail (ct_out c')] = Ret (0, Stdout, bytes_of ''updated'' @ [10]) ()
     else ct_serve c' = ct_serve c
       \<and> do_remote_command [Avail (ct_out c')] = Ret (1, Stderr, bytes_of ''bad spec: '' @ args ! n @ [10]) ())"
proof -
  have "\<forall>l\<in>set (bytes_of ''acl'' # args). line_ok l" using assms(3) by (simp add: line_ok_def bytes_of_def)
  from control_respond_remote [OF assms(1,2) this] obtain es
    where r: "read_lines_until_blankline 256 (ct_in c) = Some (bytes_of ''acl'' # args, es)" .
  let ?c = "c\<lparr>ct_in := es\<rparr>"
  show ?thesis
  proof (cases "n = length args")
    case True
    let ?s = "(ct_serve c)\<lparr>sv_acl := Some new_acl, acl_updated_signal := acl_updated_signal (ct_serve c) + 1\<rparr>"
    have "control_acl args ?c = Ret 0 (write_socket ''0: updated'' (?c\<lparr>ct_serve := ?s\<rparr>))"
      using assms(4,5,7,8) True by (simp add: control_acl_def acl_default_deny_def on_serve_def server_replace_acl_Ret)
    then have "control_respond e c = Ret () ((write_socket ''0: updated'' (?c\<lparr>ct_serve := ?s\<rparr>))\<lparr>ct_open := False\<rparr>)"
      using r assms(5) by (simp add: control_respond_def control_dispatch_def cleanup_unlocked write_socket_def answer_def)
    moreover have "do_remote_command [Avail (bytes_of ''0: updated'' @ [10])] = Ret (0, Stdout, bytes_of ''updated'' @ [10]) ()"
      by (subst remote_reads_answer [where d = 48 and msg = "bytes_of ''updated''"]) (simp_all add: bytes_of_def is_digit_def)
    ultimately show ?thesis using True assms(6) by (simp add: write_socket_def answer_def)
  next
    case False
    have "n < length args" using False assms(7,8) acl_create_length by fastforce
    then have bad: "line_ok (args ! n)" using assms(3) by simp
    let ?a = "bytes_of ''1: bad spec: '' @ args ! n @ [10]"
    have "control_acl args ?c = Ret 0 (answer ?a ?c)"
      using assms(4,7,8) False by (simp add: control_acl_def acl_default_deny_def)
    then have "control_respond e c = Ret () ((answer ?a ?c)\<lparr>ct_open := False\<rparr>)"
      using r assms(5) by (simp add: control_respond_def control_dispatch_def cleanup_unlocked answer_def)
    moreover have "do_remote_command [Avail ((bytes_of ''1: bad spec: '' @ args ! n) @ [10])] =
        Ret (1, Stderr, (bytes_of ''bad spec: '' @ args ! n) @ [10]) ()"
      using bad by (subst remote_reads_answer [where d = 49 and msg = "bytes_of ''bad spec: '' @ args ! n"])
        (simp_all add: bytes_of_def is_digit_def line_ok_def)
    ultimately show ?thesis using False assms(6) by (simp add: answer_def)
  qed
qed

lemma mirror_wait_posted:
  "\<not> mb_full (ct_mbox c) \<Longrightarrow> control_client_mirror_wait (Some st) c = Ret st (c\<lparr>ct_mbox := (ct_mbox c)\<lparr>mb_contents := None, mb_full := False\<rparr>\<rparr>)"
  by (simp add: control_client_mirror_wait_def mbox_post_def mbox_receive_def Let_def)

lemma mirror_connect_state:
  "mirror_connect out sz m = (ok, m') \<Longrightarrow> commit_state m' \<noteq> MS_INIT \<and> commit_state m' \<noteq> MS_UNKNOWN \<and> (ok \<longleftrightarrow> commit_state m' = MS_GO)
     \<and> commit_state m' \<noteq> MS_DONE"
  by (auto simp: mirror_connect_def mirror_set_state_f_def split: hello_outcome.splits if_splits)

lemma mirror_response_form:
  "\<exists>m. mirror_response st = (if st = MS_GO \<or> st = MS_DONE then CHR ''0'' else CHR ''1'') # '': '' @ m
     \<and> 0 \<notin> set (bytes_of m) \<and> 10 \<notin> set (bytes_of m) \<and> length m < 1000"
  by (cases st) (auto simp: mirror_response_def bytes_of_def)

lemma mirror_response_read:
  "\<exists>out msg. do_remote_command [Avail (bytes_of (mirror_response st) @ [10])] = Ret (if st = MS_GO \<or> st = MS_DONE then 0 else 1, out, msg) ()"
proof -
  obtain m where m: "mirror_response st = (if st = MS_GO \<or> st = MS_DONE then CHR ''0'' else CHR ''1'') # '': '' @ m"
    "0 \<notin> set (bytes_of m)" "10 \<notin> set (bytes_of m)" "length m < 1000"
    using mirror_response_form by blast
  let ?d = "(if st = MS_GO \<or> st = MS_DONE then 48 else 49) :: byte"
  have "bytes_of (mirror_response st) = ?d # 58 # 32 # bytes_of m" using m(1) by (simp add: bytes_of_def)
  with m(2-) remote_reads_answer [of "?d # 58 # 32 # bytes_of m" ?d "bytes_of m"] show ?thesis
    by (auto simp: bytes_of_def is_digit_def)
qed

lemma control_mirror_runs:
  assumes "parse_mirror_args args = Ret (Inr a) ()" "\<not> l_start_mirror (ct_serve c)" "en_spawn e = 0" "en_posted e = Some st"
    and "\<not> mb_full (ct_mbox c)" "st \<noteq> MS_INIT" "st \<noteq> MS_UNKNOWN"
    and "c2 = start_mirror_locked a c" "mirror_super (ct_serve c2)"
  shows "\<exists>b. control_mirror e args c = Ret 0 (write_socket (mirror_response st) (c2\<lparr>ct_runners := ct_runners c2 + 1, ct_mbox := b\<rparr>))"
proof -
  have l: "on_serve server_lock_start_mirror c = Ret () (c\<lparr>ct_serve := (ct_serve c)\<lparr>l_start_mirror := True\<rparr>\<rparr>)"
    using assms(2) by (simp add: on_serve_def server_lock_start_mirror_def)
  have u: "put_serve server_unlock_start_mirror (start_mirror_locked a (c\<lparr>ct_serve := (ct_serve c)\<lparr>l_start_mirror := True\<rparr>\<rparr>)) = c2"
    using assms(2,8) by (cases a) (auto simp: start_mirror_locked_def put_serve_def server_unlock_start_mirror_def
        server_prevent_mirror_start_def write_socket_def answer_def)
  have m: "\<not> mb_full (ct_mbox (c2\<lparr>ct_runners := ct_runners c2 + 1\<rparr>))"
    using assms(5,8) by (cases a) (simp add: start_mirror_locked_def put_serve_def write_socket_def answer_def)
  have w: "control_client_mirror_wait (Some st) (c2\<lparr>ct_runners := Suc (ct_runners c2)\<rparr>)
      = Ret st (c2\<lparr>ct_runners := Suc (ct_runners c2), ct_mbox := (ct_mbox c2)\<lparr>mb_contents := None, mb_full := False\<rparr>\<rparr>)"
    using mirror_wait_posted [OF m] by simp
  show ?thesis
    by (rule exI [of _ "(ct_mbox c2)\<lparr>mb_contents := None, mb_full := False\<rparr>"])
      (use assms(1,3,4,6,7,9) in \<open>simp add: control_mirror_def l u w control_write_mirror_response_def Let_def\<close>)
qed

text \<open>\<^verbatim>\<open>flexnbd mirror\<close> against a server that can start one.  The mirror is created with the speed limit and
  final action of the command, no second one can start, one supervisor thread runs, and when it posts the
  state of its first connection attempt the remote end exits with status 0 exactly if the listener was reached and
  greeted with the right size.\<close>

theorem mirror_command:
  assumes "parse_mirror_args args = Ret (Inr (connect_to, port, action, connect_from, bps)) ()"
    and "\<not> l_start_mirror (ct_serve c)" "mirror_can_start (ct_serve c)" "\<not> mb_full (ct_mbox c)" "ct_out c = []" "en_spawn e = 0"
    and "mirror_connect out (serve_size (core (ct_serve c))) (mirror_create bps action) = (connected, m)"
    and "en_posted e = Some (commit_state m)"
  shows "\<exists>c' s msg. control_mirror e args c = Ret 0 c'
    \<and> ct_mirror c' = Some (mirror_create bps action) \<and> ct_target c' = Some (connect_to, port, connect_from)
    \<and> mirror_super (ct_serve c') \<and> \<not> mirror_can_start (ct_serve c') \<and> \<not> l_start_mirror (ct_serve c')
    \<and> ct_runners c' = ct_runners c + 1
    \<and> do_remote_command [Avail (ct_out c')] = Ret (if connected then 0 else 1, s, msg) ()"
proof -
  note st = mirror_connect_state [OF assms(7)]
  let ?c2 = "start_mirror_locked (connect_to, port, action, connect_from, bps) c"
  have c2: "mirror_super (ct_serve ?c2)" "ct_mirror ?c2 = Some (mirror_create bps action)" "ct_target ?c2 = Some (connect_to, port, connect_from)"
    "\<not> mirror_can_start (ct_serve ?c2)" "\<not> l_start_mirror (ct_serve ?c2)" "ct_runners ?c2 = ct_runners c" "ct_out ?c2 = []"
    using assms(2,3,5) by (simp_all add: start_mirror_locked_def put_serve_def server_prevent_mirror_start_def)
  obtain b where "control_mirror e args c =
      Ret 0 (write_socket (mirror_response (commit_state m)) (?c2\<lparr>ct_runners := ct_runners ?c2 + 1, ct_mbox := b\<rparr>))"
    using control_mirror_runs [OF assms(1,2,6,8,4) _ _ refl c2(1)] st by auto
  then show ?thesis using c2 st mirror_response_read [of "commit_state m"] by (auto simp: write_socket_def answer_def)
qed

text \<open>\<^verbatim>\<open>flexnbd mirror\<close> while a mirror is running.  The answer says that a mirror is already running, but a
  second supervisor thread is started all the same, on the first one's mirror.\<close>

theorem second_mirror_command_runs_too:
  assumes "parse_mirror_args args = Ret (Inr a) ()" "\<not> l_start_mirror (ct_serve c)" "mirror_super (ct_serve c)"
    and "\<not> mirror_can_start (ct_serve c)" "\<not> mb_full (ct_mbox c)" "en_spawn e = 0" "en_posted e = Some st" "st \<noteq> MS_INIT" "st \<noteq> MS_UNKNOWN"
  shows "\<exists>c'. control_mirror e args c = Ret 0 c' \<and> ct_runners c' = ct_runners c + 1 \<and> ct_mirror c' = ct_mirror c \<and> ct_target c' = ct_target c
    \<and> ct_out c' = ct_out c @ bytes_of ''1: mirror already running'' @ [10] @ bytes_of (mirror_response st) @ [10]"
proof -
  have c2: "start_mirror_locked a c = write_socket ''1: mirror already running'' c"
    using assms(3,4) by (cases a) (simp add: start_mirror_locked_def)
  show ?thesis
    using control_mirror_runs [OF assms(1,2,6,7,5,8,9) c2 [symmetric]] assms(3) by (auto simp: write_socket_def answer_def)
qed

text \<open>\<^verbatim>\<open>flexnbd break\<close> stops a running mirror, and a new one can then start.\<close>

lemma break_command:
  assumes "\<not> l_start_mirror (ct_serve c)" "mirror_super (ct_serve c)" "\<not> en_completed e" "\<not> server_closed (core (ct_serve c))"
  shows "\<exists>c'. control_break e c = Ret 1 c' \<and> ct_mirror c' = None \<and> \<not> mirror_super (ct_serve c') \<and> mirror_can_start (ct_serve c')
    \<and> \<not> l_start_mirror (ct_serve c') \<and> ct_out c' = ct_out c @ bytes_of ''0: mirror stopped'' @ [10]"
  using assms by (simp add: control_break_def on_serve_def server_lock_start_mirror_def put_serve_def server_abandon_mirror_def
      server_allow_mirror_start_def server_unlock_start_mirror_def write_socket_def answer_def)

text \<open>The answer to an unknown command carries three bytes that are not part of it.\<close>

lemma unknown_command_overreads:
  assumes "cmd \<notin> {bytes_of ''acl'', bytes_of ''mirror'', bytes_of ''break'', bytes_of ''status'', bytes_of ''mirror_max_bps''}"
  shows "control_dispatch e (cmd # args) c = Ret () (answer (bytes_of ''10: unknown command'' @ [10] @ [0] @ en_beyond e) c)"
  using assms by (simp add: control_dispatch_def)

text \<open>A poster that wakes up while the box is still full overwrites what was in it.\<close>

lemma mbox_woken_post_overwrites:
  "mb_full b \<Longrightarrow> \<exists>b'. mbox_post True x b = Ret () b' \<and> mbox_receive False b' = Ret (Some x) (b'\<lparr>mb_contents := None, mb_full := False\<rparr>)"
  by (simp add: mbox_post_def mbox_receive_def)

subsection \<open>Examples\<close>

definition sample_ctl :: "byte list \<Rightarrow> ctl" where
  "sample_ctl input =
     \<lparr>ct_serve = sample_serving [empty_slot], ct_mirror = None, ct_target = None, ct_runners = 0,
      ct_mbox = \<lparr>mb_contents = None, mb_full = False\<rparr>, ct_in = [Avail input], ct_out = [], ct_open = True\<rparr>"

definition sample_env :: "mirror_state \<Rightarrow> ctl_env" where
  "sample_env st = \<lparr>en_spawn = 0, en_posted = Some st, en_completed = False, en_joins = (\<lambda>_. EBUSY), en_now = 0, en_pid = 1, en_beyond = [0, 0]\<rparr>"

lemma sample_ctl_sel [simp]:
  "ct_serve (sample_ctl i) = sample_serving [empty_slot]" "ct_out (sample_ctl i) = []" "ct_in (sample_ctl i) = [Avail i]"
  "\<not> mb_full (ct_mbox (sample_ctl i))" "ct_runners (sample_ctl i) = 0"
  by (simp_all add: sample_ctl_def)

lemma sample_mirror_args:
  "parse_mirror_args [bytes_of ''10.0.0.1'', bytes_of ''4000''] = Ret (Inr (AF_INET [10, 0, 0, 1], 40975, ACTION_EXIT, None, - 1)) ()"
  by code_simp

theorem acl_command_witness:
  "\<exists>c'. control_respond (sample_env MS_GO) (sample_ctl (remote_command (bytes_of ''acl'') [Some (bytes_of ''10.0.0.0/8'')])) = Ret () c'
     \<and> sv_acl (ct_serve c') = Some \<lparr>acl_entries = [\<lparr>ip_addr = AF_INET [10, 0, 0, 0], ip_mask = 8\<rparr>], acl_deny = False\<rparr>
     \<and> do_remote_command [Avail (ct_out c')] = Ret (0, Stdout, bytes_of ''updated'' @ [10]) ()"
proof -
  let ?l = "\<lparr>acl_entries = [\<lparr>ip_addr = AF_INET [10, 0, 0, 0], ip_mask = 8\<rparr>], acl_deny = False\<rparr>"
  let ?c = "sample_ctl (remote_command (bytes_of ''acl'') [Some (bytes_of ''10.0.0.0/8'')])"
  have "acl_create [bytes_of ''10.0.0.0/8''] False = Done ?l" by code_simp
  moreover have "plain (ct_in ?c)" "rd_data (ct_in ?c) = remote_command (bytes_of ''acl'') (map Some [bytes_of ''10.0.0.0/8''])"
    by (simp_all add: remote_command_def)
  moreover have "\<forall>l\<in>set [bytes_of ''10.0.0.0/8'']. line_ok l" by (simp add: line_ok_def bytes_of_def)
  ultimately show ?thesis
    using acl_command [of ?c "[bytes_of ''10.0.0.0/8'']" "\<lparr>acl_entries = [], acl_deny = False\<rparr>" ?l 1 "sample_env MS_GO"] by auto
qed

theorem mirror_command_witness:
  "\<exists>c' s msg. control_mirror (sample_env MS_FAIL_SIZE_MISMATCH) [bytes_of ''10.0.0.1'', bytes_of ''4000''] (sample_ctl []) = Ret 0 c'
     \<and> ct_target c' = Some (AF_INET [10, 0, 0, 1], 40975, None) \<and> ct_runners c' = 1
     \<and> do_remote_command [Avail (ct_out c')] = Ret (1, s, msg) ()"
proof -
  have m: "mirror_connect (HelloSize 512) (serve_size (core (ct_serve (sample_ctl [])))) (mirror_create (- 1) ACTION_EXIT)
      = (False, mirror_set_state_f (mirror_create (- 1) ACTION_EXIT) MS_FAIL_SIZE_MISMATCH)"
    by (simp add: mirror_connect_def sample_serving_def new_serving_def)
  moreover have "mirror_can_start (sample_serving [empty_slot])" by (simp add: sample_serving_def new_serving_def)
  ultimately show ?thesis
    using mirror_command [OF sample_mirror_args _ _ _ _ _ m, of "sample_env MS_FAIL_SIZE_MISMATCH"]
    by (auto simp: sample_env_def mirror_set_state_f_def)
qed

theorem second_mirror_command_runs_too_witness:
  "\<exists>c'. control_mirror (sample_env MS_GO) [bytes_of ''10.0.0.1'', bytes_of ''4000'']
        (put_serve (\<lambda>s. s\<lparr>mirror_super := True, mirror_can_start := False\<rparr>) (sample_ctl [])) = Ret 0 c'
     \<and> ct_runners c' = 1 \<and> ct_target c' = None"
  using second_mirror_command_runs_too [OF sample_mirror_args,
      of "put_serve (\<lambda>s. s\<lparr>mirror_super := True, mirror_can_start := False\<rparr>) (sample_ctl [])" "sample_env MS_GO" MS_GO]
  by (auto simp: put_serve_def sample_env_def sample_ctl_def)

end
