(* ===== verification/Mode.thy ===== *)
theory Mode
  imports Control Readwrite Proxy
begin

text \<open>
  The command lines of \<^verbatim>\<open>flexnbd\<close> and \<^verbatim>\<open>flexnbd-proxy\<close>: \<^verbatim>\<open>src/src/server/mode.c\<close>, \<^verbatim>\<open>src/src/main.c\<close>,
  \<^verbatim>\<open>src/src/proxy-main.c\<close>, and the construction of servers in \<^verbatim>\<open>src/src/server/flexnbd.c\<close>.  \<^verbatim>\<open>getopt_long\<close> is
  modelled after its documentation: clusters of short options, long options by name or by a prefix of one name,
  arguments attached or following, operands permuted to the end.  What a mode does is a value of \<open>todo\<close>;
  the help texts are named, not spelled out.
\<close>

subsection \<open>getopt\<close>

datatype has_arg = no_argument | required_argument | optional_argument

type_synonym short_table = "(byte \<times> has_arg) list"
type_synonym long_table = "(byte list \<times> has_arg \<times> byte) list"

datatype opt = Opt byte "byte list option" | BadOpt

fun short_opts :: "byte list \<Rightarrow> short_table" where
  "short_opts [] = []"
| "short_opts [c] = [(c, no_argument)]"
| "short_opts (c # d # cs) =
     (if d = 58 then (c, required_argument) # short_opts cs else (c, no_argument) # short_opts (d # cs))"

definition short_options :: "string \<Rightarrow> short_table" where
  "short_options s = short_opts (bytes_of s)"

definition take_arg :: "byte \<Rightarrow> byte list list \<Rightarrow> opt \<times> byte list list" where
  "take_arg c rest = (case rest of [] \<Rightarrow> (BadOpt, []) | v # rest' \<Rightarrow> (Opt c (Some v), rest'))"

fun short_cluster :: "short_table \<Rightarrow> byte list \<Rightarrow> byte list list \<Rightarrow> opt list \<times> byte list list" where
  "short_cluster sh [] rest = ([], rest)"
| "short_cluster sh (c # cs) rest =
     (case map_of sh c of
        None \<Rightarrow> ([BadOpt], rest)
      | Some no_argument \<Rightarrow> (case short_cluster sh cs rest of (os, rest') \<Rightarrow> (Opt c None # os, rest'))
      | Some required_argument \<Rightarrow>
          if cs \<noteq> [] then ([Opt c (Some cs)], rest)
          else (case take_arg c rest of (o1, rest') \<Rightarrow> ([o1], rest'))
      | Some optional_argument \<Rightarrow> ([Opt c (if cs \<noteq> [] then Some cs else None)], rest))"

definition long_match :: "long_table \<Rightarrow> byte list \<Rightarrow> (has_arg \<times> byte) option" where
  "long_match lo name =
     (case map_of lo name of
        Some r \<Rightarrow> Some r
      | None \<Rightarrow>
          (case filter (\<lambda>(n, _). take (length name) n = name) lo of
             [] \<Rightarrow> None
           | (_, r) # ms \<Rightarrow> if list_all (\<lambda>(_, r'). r' = r) ms then Some r else None))"

definition long_option :: "long_table \<Rightarrow> byte list \<Rightarrow> byte list list \<Rightarrow> opt list \<times> byte list list" where
  "long_option lo a rest =
     (let name = takeWhile (\<lambda>b. b \<noteq> 61) a; value = drop (length name) a in
      case long_match lo name of
        None \<Rightarrow> ([BadOpt], rest)
      | Some (no_argument, c) \<Rightarrow> ([if value = [] then Opt c None else BadOpt], rest)
      | Some (required_argument, c) \<Rightarrow>
          if value \<noteq> [] then ([Opt c (Some (tl value))], rest)
          else (case take_arg c rest of (o1, rest') \<Rightarrow> ([o1], rest'))
      | Some (optional_argument, c) \<Rightarrow> ([Opt c (if value \<noteq> [] then Some (tl value) else None)], rest))"

lemma take_arg_shrinks: "take_arg c rest = (o1, rest') \<Longrightarrow> length rest' \<le> length rest"
  by (auto simp: take_arg_def split: list.splits)

lemma short_cluster_shrinks: "short_cluster sh cs rest = (os, rest') \<Longrightarrow> length rest' \<le> length rest"
  by (induction sh cs rest arbitrary: os rest' rule: short_cluster.induct)
    (auto split: option.splits has_arg.splits prod.splits if_splits dest: take_arg_shrinks)

lemma long_option_shrinks: "long_option lo a rest = (os, rest') \<Longrightarrow> length rest' \<le> length rest"
  by (auto simp: long_option_def Let_def split: option.splits has_arg.splits prod.splits if_splits dest: take_arg_shrinks)

definition is_long :: "byte list \<Rightarrow> bool" where "is_long a \<longleftrightarrow> take 2 a = [45, 45]"
definition is_short :: "byte list \<Rightarrow> bool" where "is_short a \<longleftrightarrow> 2 \<le> length a \<and> a ! 0 = 45"

function getopt_long :: "short_table \<Rightarrow> long_table \<Rightarrow> byte list list \<Rightarrow> opt list \<times> byte list list" where
  "getopt_long sh lo [] = ([], [])"
| "getopt_long sh lo (a # as) =
     (if a = [45, 45] then ([], as)
      else if is_long a then
        (case long_option lo (drop 2 a) as of (os, rest) \<Rightarrow>
           (case getopt_long sh lo rest of (os', operands) \<Rightarrow> (os @ os', operands)))
      else if is_short a then
        (case short_cluster sh (tl a) as of (os, rest) \<Rightarrow>
           (case getopt_long sh lo rest of (os', operands) \<Rightarrow> (os @ os', operands)))
      else (case getopt_long sh lo as of (os, operands) \<Rightarrow> (os, a # operands)))"
  by pat_completeness auto
termination
  by (relation "measure (\<lambda>(sh, lo, as). length as)")
    (auto dest!: sym [of "(_, _)"] long_option_shrinks short_cluster_shrinks)

subsection \<open>Options\<close>

definition GETOPT :: "string \<Rightarrow> has_arg \<Rightarrow> char \<Rightarrow> byte list \<times> has_arg \<times> byte" where
  "GETOPT name arg c = (bytes_of name, arg, of_char c)"

definition GETOPT_HELP where "GETOPT_HELP = GETOPT ''help'' no_argument CHR ''h''"
definition GETOPT_DENY where "GETOPT_DENY = GETOPT ''default-deny'' no_argument CHR ''d''"
definition GETOPT_ADDR where "GETOPT_ADDR = GETOPT ''addr'' required_argument CHR ''l''"
definition GETOPT_PORT where "GETOPT_PORT = GETOPT ''port'' required_argument CHR ''p''"
definition GETOPT_FILE where "GETOPT_FILE = GETOPT ''file'' required_argument CHR ''f''"
definition GETOPT_SOCK where "GETOPT_SOCK = GETOPT ''sock'' required_argument CHR ''s''"
definition GETOPT_FROM where "GETOPT_FROM = GETOPT ''from'' required_argument CHR ''F''"
definition GETOPT_SIZE where "GETOPT_SIZE = GETOPT ''size'' required_argument CHR ''S''"
definition GETOPT_BIND where "GETOPT_BIND = GETOPT ''bind'' required_argument CHR ''b''"
definition GETOPT_CACHE where "GETOPT_CACHE = GETOPT ''cache'' optional_argument CHR ''c''"
definition GETOPT_UNLINK where "GETOPT_UNLINK = GETOPT ''unlink'' required_argument CHR ''u''"
definition GETOPT_CONNECT_ADDR where "GETOPT_CONNECT_ADDR = GETOPT ''conn-addr'' required_argument CHR ''C''"
definition GETOPT_CONNECT_PORT where "GETOPT_CONNECT_PORT = GETOPT ''conn-port'' required_argument CHR ''P''"
definition GETOPT_KILLSWITCH where "GETOPT_KILLSWITCH = GETOPT ''killswitch'' required_argument CHR ''k''"
definition GETOPT_MAX_SPEED where "GETOPT_MAX_SPEED = GETOPT ''max-speed'' required_argument CHR ''m''"
definition GETOPT_VERBOSE where "GETOPT_VERBOSE = GETOPT ''verbose'' no_argument CHR ''v''"
definition GETOPT_QUIET where "GETOPT_QUIET = GETOPT ''quiet'' no_argument CHR ''q''"

definition serve_options :: long_table where
  "serve_options = [GETOPT_HELP, GETOPT_ADDR, GETOPT_PORT, GETOPT_FILE, GETOPT_SOCK, GETOPT_DENY, GETOPT_QUIET, GETOPT_KILLSWITCH, GETOPT_VERBOSE]"
definition serve_short_options :: short_table where
  "serve_short_options = short_options ''hl:p:f:s:dkqv''"

definition listen_options :: long_table where
  "listen_options = [GETOPT_HELP, GETOPT_ADDR, GETOPT_PORT, GETOPT_FILE, GETOPT_SOCK, GETOPT_DENY, GETOPT_QUIET, GETOPT_VERBOSE]"
definition listen_short_options :: short_table where
  "listen_short_options = short_options ''hl:p:f:s:dqv''"

definition read_options :: long_table where
  "read_options = [GETOPT_HELP, GETOPT_ADDR, GETOPT_PORT, GETOPT_FROM, GETOPT_SIZE, GETOPT_BIND, GETOPT_QUIET, GETOPT_VERBOSE]"
definition read_short_options :: short_table where
  "read_short_options = short_options ''hl:p:F:S:b:qv''"

definition acl_options :: long_table where
  "acl_options = [GETOPT_HELP, GETOPT_SOCK, GETOPT_QUIET, GETOPT_VERBOSE]"
definition acl_short_options :: short_table where
  "acl_short_options = short_options ''hs:qv''"

definition mirror_speed_options :: long_table where
  "mirror_speed_options = [GETOPT_HELP, GETOPT_SOCK, GETOPT_MAX_SPEED, GETOPT_QUIET, GETOPT_VERBOSE]"
definition mirror_speed_short_options :: short_table where
  "mirror_speed_short_options = short_options ''hs:m:qv''"

definition mirror_options :: long_table where
  "mirror_options = [GETOPT_HELP, GETOPT_SOCK, GETOPT_ADDR, GETOPT_PORT, GETOPT_UNLINK, GETOPT_BIND, GETOPT_QUIET, GETOPT_VERBOSE]"
definition mirror_short_options :: short_table where
  "mirror_short_options = short_options ''hs:l:p:ub:qv''"

definition break_options :: long_table where
  "break_options = [GETOPT_HELP, GETOPT_SOCK, GETOPT_QUIET, GETOPT_VERBOSE]"
definition break_short_options :: short_table where
  "break_short_options = short_options ''hs:qv''"

definition status_options :: long_table where
  "status_options = [GETOPT_HELP, GETOPT_SOCK, GETOPT_QUIET, GETOPT_VERBOSE]"
definition status_short_options :: short_table where
  "status_short_options = short_options ''hs:qv''"

definition proxy_options :: long_table where
  "proxy_options = [GETOPT_HELP, GETOPT_ADDR, GETOPT_PORT, GETOPT_CONNECT_ADDR, GETOPT_CONNECT_PORT, GETOPT_BIND, GETOPT_CACHE,
     GETOPT_QUIET, GETOPT_VERBOSE]"
definition proxy_short_options :: short_table where
  "proxy_short_options = short_options ''hl:p:C:P:b:qv''"

subsection \<open>Reading the options of a mode\<close>

datatype help_text = serve_help_text | listen_help_text | read_help_text | write_help_text | acl_help_text
  | mirror_speed_help_text | mirror_help_text | break_help_text | status_help_text | help_help_text | proxy_help_text

record readwrite_params =
  rw_connect_to :: sockaddr
  rw_port :: u16
  rw_connect_from :: "sockaddr option"
  rw_from :: u64
  rw_len :: u32
  rw_data_fd :: int

datatype todo = PrintHelp help_text int | ExitErr help_text
  | Serve "byte list" "byte list" "byte list" "byte list option" bool "byte list list" bool
  | Listen "byte list" "byte list" "byte list" "byte list option" bool "byte list list"
  | ReadWrite bool "byte list" "byte list" "byte list option" "byte list" "byte list"
  | Remote "byte list" "byte list" "byte list option list"
  | RunProxy "byte list" "byte list option" "byte list" "byte list" "byte list option" "byte list option"

record vars =
  ip_addr :: "byte list option"
  ip_port :: "byte list option"
  v_file :: "byte list option"
  v_sock :: "byte list option"
  v_bind :: "byte list option"
  v_from :: "byte list option"
  v_size :: "byte list option"
  v_speed :: "byte list option"
  v_upstream_addr :: "byte list option"
  v_upstream_port :: "byte list option"
  v_cache :: "byte list option"
  default_deny :: bool
  v_killswitch :: bool
  v_unlink :: bool
  log_level :: int

definition no_vars :: vars where
  "no_vars = \<lparr>ip_addr = None, ip_port = None, v_file = None, v_sock = None, v_bind = None, v_from = None, v_size = None,
     v_speed = None, v_upstream_addr = None, v_upstream_port = None, v_cache = None, default_deny = False, v_killswitch = False,
     v_unlink = False, log_level = 2\<rparr>"

type_synonym read_param = "byte \<Rightarrow> byte list option \<Rightarrow> vars \<Rightarrow> todo + vars"

definition read_log_param :: "help_text \<Rightarrow> read_param" where
  "read_log_param text c optarg v =
     (if c = of_char CHR ''h'' then Inl (PrintHelp text 0)
      else if c = of_char CHR ''q'' then Inr (v\<lparr>log_level := 4\<rparr>)
      else if c = of_char CHR ''v'' then Inr (v\<lparr>log_level := 1\<rparr>)
      else Inl (ExitErr text))"

definition read_listen_param :: read_param where
  "read_listen_param c optarg v =
     (if c = of_char CHR ''l'' then Inr (v\<lparr>ip_addr := optarg\<rparr>)
      else if c = of_char CHR ''p'' then Inr (v\<lparr>ip_port := optarg\<rparr>)
      else if c = of_char CHR ''f'' then Inr (v\<lparr>v_file := optarg\<rparr>)
      else if c = of_char CHR ''s'' then Inr (v\<lparr>v_sock := optarg\<rparr>)
      else if c = of_char CHR ''d'' then Inr (v\<lparr>default_deny := True\<rparr>)
      else read_log_param listen_help_text c optarg v)"

definition read_serve_param :: read_param where
  "read_serve_param c optarg v =
     (if c = of_char CHR ''l'' then Inr (v\<lparr>ip_addr := optarg\<rparr>)
      else if c = of_char CHR ''p'' then Inr (v\<lparr>ip_port := optarg\<rparr>)
      else if c = of_char CHR ''f'' then Inr (v\<lparr>v_file := optarg\<rparr>)
      else if c = of_char CHR ''s'' then Inr (v\<lparr>v_sock := optarg\<rparr>)
      else if c = of_char CHR ''d'' then Inr (v\<lparr>default_deny := True\<rparr>)
      else if c = of_char CHR ''k'' then Inr (v\<lparr>v_killswitch := True\<rparr>)
      else read_log_param serve_help_text c optarg v)"

definition read_readwrite_param :: "help_text \<Rightarrow> read_param" where
  "read_readwrite_param text c optarg v =
     (if c = of_char CHR ''l'' then Inr (v\<lparr>ip_addr := optarg\<rparr>)
      else if c = of_char CHR ''p'' then Inr (v\<lparr>ip_port := optarg\<rparr>)
      else if c = of_char CHR ''F'' then Inr (v\<lparr>v_from := optarg\<rparr>)
      else if c = of_char CHR ''S'' then Inr (v\<lparr>v_size := optarg\<rparr>)
      else if c = of_char CHR ''b'' then Inr (v\<lparr>v_bind := optarg\<rparr>)
      else read_log_param text c optarg v)"

definition read_sock_param :: "help_text \<Rightarrow> read_param" where
  "read_sock_param text c optarg v =
     (if c = of_char CHR ''s'' then Inr (v\<lparr>v_sock := optarg\<rparr>) else read_log_param text c optarg v)"

definition read_acl_param :: read_param where
  [simp]: "read_acl_param = read_sock_param acl_help_text"

definition read_break_param :: read_param where
  "read_break_param c optarg v =
     (if c = of_char CHR ''s'' then Inr (v\<lparr>v_sock := optarg\<rparr>) else read_log_param break_help_text c optarg v)"

definition read_status_param :: read_param where
  [simp]: "read_status_param = read_sock_param status_help_text"

definition read_mirror_speed_param :: read_param where
  "read_mirror_speed_param c optarg v =
     (if c = of_char CHR ''s'' then Inr (v\<lparr>v_sock := optarg\<rparr>)
      else if c = of_char CHR ''m'' then Inr (v\<lparr>v_speed := optarg\<rparr>)
      else read_log_param mirror_speed_help_text c optarg v)"

definition read_mirror_param :: read_param where
  "read_mirror_param c optarg v =
     (if c = of_char CHR ''s'' then Inr (v\<lparr>v_sock := optarg\<rparr>)
      else if c = of_char CHR ''l'' then Inr (v\<lparr>ip_addr := optarg\<rparr>)
      else if c = of_char CHR ''p'' then Inr (v\<lparr>ip_port := optarg\<rparr>)
      else if c = of_char CHR ''u'' then Inr (v\<lparr>v_unlink := True\<rparr>)
      else if c = of_char CHR ''b'' then Inr (v\<lparr>v_bind := optarg\<rparr>)
      else read_log_param mirror_help_text c optarg v)"

definition read_proxy_param :: read_param where
  "read_proxy_param c optarg v =
     (if c = of_char CHR ''l'' then Inr (v\<lparr>ip_addr := optarg\<rparr>)
      else if c = of_char CHR ''p'' then Inr (v\<lparr>ip_port := optarg\<rparr>)
      else if c = of_char CHR ''C'' then Inr (v\<lparr>v_upstream_addr := optarg\<rparr>)
      else if c = of_char CHR ''P'' then Inr (v\<lparr>v_upstream_port := optarg\<rparr>)
      else if c = of_char CHR ''b'' then Inr (v\<lparr>v_bind := optarg\<rparr>)
      else if c = of_char CHR ''c'' then Inr (v\<lparr>v_cache := (case optarg of None \<Rightarrow> Some (bytes_of ''4096'') | Some s \<Rightarrow> Some s)\<rparr>)
      else read_log_param proxy_help_text c optarg v)"

fun read_params :: "read_param \<Rightarrow> opt list \<Rightarrow> vars \<Rightarrow> todo + vars" where
  "read_params f [] v = Inr v"
| "read_params f (o1 # os) v =
     (case (case o1 of Opt c optarg \<Rightarrow> f c optarg v | BadOpt \<Rightarrow> f (of_char CHR ''?'') None v) of
        Inl t \<Rightarrow> Inl t | Inr v1 \<Rightarrow> read_params f os v1)"

definition with_options ::
  "short_table \<Rightarrow> long_table \<Rightarrow> read_param \<Rightarrow> byte list list \<Rightarrow> (vars \<Rightarrow> byte list list \<Rightarrow> todo) \<Rightarrow> todo"
where
  "with_options sh lo f argv k =
     (case getopt_long sh lo argv of (os, operands) \<Rightarrow>
        (case read_params f os no_vars of Inl t \<Rightarrow> t | Inr v \<Rightarrow> k v operands))"

subsection \<open>The modes\<close>

definition mode_serve :: "byte list list \<Rightarrow> todo" where
  "mode_serve argv = with_options serve_short_options serve_options read_serve_param argv (\<lambda>v operands.
     case (ip_addr v, ip_port v, v_file v) of
       (Some a, Some p, Some f) \<Rightarrow> Serve a p f (v_sock v) (default_deny v) operands (v_killswitch v)
     | _ \<Rightarrow> ExitErr serve_help_text)"

definition mode_listen :: "byte list list \<Rightarrow> todo" where
  "mode_listen argv = with_options listen_short_options listen_options read_listen_param argv (\<lambda>v operands.
     case (ip_addr v, ip_port v, v_file v) of
       (Some a, Some p, Some f) \<Rightarrow> Listen a p f (v_sock v) (default_deny v) operands
     | _ \<Rightarrow> ExitErr listen_help_text)"

definition mode_readwrite :: "bool \<Rightarrow> help_text \<Rightarrow> byte list list \<Rightarrow> todo" where
  "mode_readwrite wr text argv = with_options read_short_options read_options (read_readwrite_param text) argv (\<lambda>v operands.
     case (ip_addr v, ip_port v, v_from v, v_size v) of
       (Some a, Some p, Some f, Some n) \<Rightarrow> ReadWrite wr a p (v_bind v) f n
     | _ \<Rightarrow> ExitErr text)"

definition mode_read :: "byte list list \<Rightarrow> todo" where
  "mode_read = mode_readwrite False read_help_text"

definition mode_write :: "byte list list \<Rightarrow> todo" where
  "mode_write = mode_readwrite True write_help_text"

definition mode_acl :: "byte list list \<Rightarrow> todo" where
  "mode_acl argv = with_options acl_short_options acl_options read_acl_param argv (\<lambda>v operands.
     case v_sock v of None \<Rightarrow> ExitErr acl_help_text | Some sock \<Rightarrow> Remote (bytes_of ''acl'') sock (map Some operands))"

definition mode_mirror_speed :: "byte list list \<Rightarrow> todo" where
  "mode_mirror_speed argv = with_options mirror_speed_short_options mirror_speed_options read_mirror_speed_param argv (\<lambda>v operands.
     case (v_sock v, v_speed v) of
       (Some sock, Some speed) \<Rightarrow> Remote (bytes_of ''mirror_max_bps'') sock [Some speed]
     | _ \<Rightarrow> ExitErr mirror_speed_help_text)"

definition mode_mirror :: "byte list list \<Rightarrow> todo" where
  "mode_mirror argv = with_options mirror_short_options mirror_options read_mirror_param argv (\<lambda>v operands.
     case (v_sock v, ip_addr v, ip_port v) of
       (Some sock, Some a, Some p) \<Rightarrow>
         Remote (bytes_of ''mirror'') sock
           ([Some a, Some p, Some (bytes_of (if v_unlink v then ''unlink'' else ''exit''))]
            @ (case v_bind v of None \<Rightarrow> [] | Some b \<Rightarrow> [Some b]))
     | _ \<Rightarrow> ExitErr mirror_help_text)"

definition mode_break :: "byte list list \<Rightarrow> todo" where
  "mode_break argv = with_options break_short_options break_options read_break_param argv (\<lambda>v operands.
     case v_sock v of None \<Rightarrow> ExitErr break_help_text | Some sock \<Rightarrow> Remote (bytes_of ''break'') sock (map Some operands))"

definition mode_status :: "byte list list \<Rightarrow> todo" where
  "mode_status argv = with_options status_short_options status_options read_status_param argv (\<lambda>v operands.
     case v_sock v of None \<Rightarrow> ExitErr status_help_text | Some sock \<Rightarrow> Remote (bytes_of ''status'') sock (map Some operands))"

definition is_cmd :: "string \<Rightarrow> byte list \<Rightarrow> bool" where
  "is_cmd x c \<longleftrightarrow> take 13 (bytes_of x @ [0]) = take 13 (c @ [0])"

definition mode_help :: "int \<Rightarrow> byte list list \<Rightarrow> todo" where
  "mode_help status argv =
     (case argv of
        [] \<Rightarrow> PrintHelp help_help_text status
      | cmd # _ \<Rightarrow>
          if is_cmd ''serve'' cmd then PrintHelp serve_help_text status
          else if is_cmd ''listen'' cmd then PrintHelp listen_help_text status
          else if is_cmd ''read'' cmd then PrintHelp read_help_text status
          else if is_cmd ''write'' cmd then PrintHelp write_help_text status
          else if is_cmd ''acl'' cmd then PrintHelp acl_help_text status
          else if is_cmd ''mirror'' cmd then PrintHelp mirror_help_text status
          else if is_cmd ''status'' cmd then PrintHelp status_help_text status
          else ExitErr help_help_text)"

definition mode :: "byte list \<Rightarrow> byte list list \<Rightarrow> todo" where
  "mode m argv =
     (if is_cmd ''serve'' m then mode_serve argv
      else if is_cmd ''listen'' m then mode_listen argv
      else if is_cmd ''read'' m then mode_read argv
      else if is_cmd ''write'' m then mode_write argv
      else if is_cmd ''acl'' m then mode_acl argv
      else if is_cmd ''mirror-speed'' m then mode_mirror_speed argv
      else if is_cmd ''mirror'' m then mode_mirror argv
      else if is_cmd ''break'' m then mode_break argv
      else if is_cmd ''status'' m then mode_status argv
      else if is_cmd ''help'' m then mode_help 0 argv
      else mode_help 1 argv)"

definition flexnbd_main :: "byte list list \<Rightarrow> todo" where
  "flexnbd_main args = (case args of [] \<Rightarrow> ExitErr help_help_text | m # argv \<Rightarrow> mode m argv)"

definition proxy_main :: "byte list list \<Rightarrow> todo" where
  "proxy_main argv = with_options proxy_short_options proxy_options read_proxy_param argv (\<lambda>v operands.
     case (ip_addr v, v_upstream_addr v, v_upstream_port v) of
       (Some d, Some ua, Some up) \<Rightarrow> RunProxy d (ip_port v) ua up (v_bind v) (v_cache v)
     | _ \<Rightarrow> ExitErr proxy_help_text)"

text \<open>After the command line: the proxy that \<open>proxy_create\<close> has made runs, and what \<^verbatim>\<open>do_proxy\<close> returns is taken for a success flag.
  A signal ends the process through \<open>my_exit\<close>.\<close>

definition run_proxy :: "hello_result \<Rightarrow> int \<Rightarrow> int \<Rightarrow> bool \<Rightarrow> accepted list \<Rightarrow> proxier \<Rightarrow> (proxier, int) outcome" where
  "run_proxy hello up_fd l_fd listen_ok as p =
     and_then (do_proxy hello up_fd l_fd listen_ok as p) (\<lambda>success p1. Ret (if success \<noteq> 0 then 0 else 1) p1)"

definition my_exit :: "proxier option \<Rightarrow> int \<times> proxier option" where
  "my_exit proxy = (0, map_option proxy_cleanup proxy)"

subsection \<open>Parameters of read and write\<close>

record data_file =
  df_open :: int
  df_end :: int
  df_rewind :: int

definition first_char :: "byte list \<Rightarrow> int" where
  "first_char s = sint (if s = [] then 0 else hd s)"

definition params_readwrite ::
  "bool \<Rightarrow> data_file \<Rightarrow> byte list \<Rightarrow> byte list \<Rightarrow> byte list option \<Rightarrow> byte list \<Rightarrow> byte list \<Rightarrow> (unit, readwrite_params) outcome"
where
  "params_readwrite write_not_read df s_ip_address s_port s_bind_address s_from s_length_or_filename =
     and_then (need_addr parse_ip_to_sockaddr (Some s_ip_address)) (\<lambda>connect_to _.
     and_then (case s_bind_address of
                 None \<Rightarrow> Ret None ()
               | Some s \<Rightarrow> and_then (need_addr parse_ip_to_sockaddr (Some s)) (\<lambda>a _. Ret (Some a) ())) (\<lambda>connect_from _.
     and_then (parse_port s_port) (\<lambda>port _.
       let signed_from = strtol s_from;
           out = \<lparr>rw_connect_to = connect_to, rw_port = port, rw_connect_from = connect_from, rw_from = word_of_int signed_from,
                  rw_len = 0, rw_data_fd = 0\<rparr>
       in if signed_from < 0 then Fatal ()
          else if write_not_read then
            (if first_char s_length_or_filename - 48 < 10
             then Ret (out\<lparr>rw_len := word_of_int (strtol s_length_or_filename)\<rparr>) ()
             else if df_open df < 0 \<or> df_end df < 0 \<or> df_rewind df < 0 then Fatal ()
             else Ret (out\<lparr>rw_len := word_of_int (df_end df), rw_data_fd := df_open df\<rparr>) ())
          else Ret (out\<lparr>rw_len := word_of_int (strtol s_length_or_filename), rw_data_fd := 1\<rparr>) ())))"

subsection \<open>Servers: flexnbd.c\<close>

definition flexnbd_create_serving ::
  "byte list \<Rightarrow> byte list \<Rightarrow> byte list option \<Rightarrow> bool \<Rightarrow> byte list list \<Rightarrow> nat \<Rightarrow> bool \<Rightarrow> bool \<Rightarrow> bool \<Rightarrow> (unit, serving) outcome"
where
  "flexnbd_create_serving s_ip_address s_port s_ctrl_sock deny s_acl_entries max_clients use_ks signals_ok action_ok =
     and_then (server_create (Some s_ip_address) (Some s_port) True deny s_acl_entries max_clients use_ks True (s_ctrl_sock \<noteq> None)) (\<lambda>s _.
       if \<not> signals_ok \<or> use_ks \<and> \<not> action_ok then Fatal () else Ret s ())"

definition flexnbd_create_listening ::
  "byte list \<Rightarrow> byte list \<Rightarrow> byte list option \<Rightarrow> bool \<Rightarrow> byte list list \<Rightarrow> bool \<Rightarrow> (unit, serving) outcome"
where
  "flexnbd_create_listening s_ip_address s_port s_ctrl_sock deny s_acl_entries signals_ok =
     and_then (server_create (Some s_ip_address) (Some s_port) True deny s_acl_entries 1 False False (s_ctrl_sock \<noteq> None)) (\<lambda>s _.
       if \<not> signals_ok then Fatal () else Ret s ())"

definition flexnbd_serve ::
  "int \<Rightarrow> int \<Rightarrow> open_results \<Rightarrow> bool \<Rightarrow> int \<Rightarrow> u64 \<Rightarrow> turn list \<Rightarrow> (nat \<Rightarrow> int) \<Rightarrow> bool serve_op"
where
  "flexnbd_serve spawned join_errno opened open_ok lseek_result junk ts joins s =
     (if control_open s \<and> spawned \<noteq> 0 then Fatal s
      else and_then (do_serve opened open_ok lseek_result junk ts joins s) (\<lambda>ok s1.
             if control_open s \<and> join_errno \<noteq> 0 then Fatal s1 else Ret ok s1))"

subsection \<open>Command lines\<close>

lemmas option_tables = GETOPT_def GETOPT_HELP_def GETOPT_DENY_def GETOPT_ADDR_def GETOPT_PORT_def GETOPT_FILE_def GETOPT_SOCK_def
  GETOPT_FROM_def GETOPT_SIZE_def GETOPT_BIND_def GETOPT_CACHE_def GETOPT_UNLINK_def GETOPT_CONNECT_ADDR_def GETOPT_CONNECT_PORT_def
  GETOPT_KILLSWITCH_def GETOPT_MAX_SPEED_def GETOPT_VERBOSE_def GETOPT_QUIET_def short_options_def bytes_of_def

definition operand :: "byte list \<Rightarrow> bool" where
  "operand a \<longleftrightarrow> \<not> is_short a"

lemma is_long_short: "is_long a \<Longrightarrow> is_short a"
  by (cases a; cases "tl a") (auto simp: is_long_def is_short_def)

lemma getopt_operands: "\<forall>a\<in>set as. operand a \<Longrightarrow> getopt_long sh lo as = ([], as)"
proof (induction "as")
  case (Cons a "as")
  have "a \<noteq> [45, 45]" "\<not> is_long a" "\<not> is_short a"
    using Cons.prems is_long_short [of a] by (auto simp: operand_def is_short_def)
  then show ?case using Cons by simp
qed simp

text \<open>One short option with its argument, one flag.\<close>

lemma getopt_short_arg:
  assumes "map_of sh c = Some required_argument" "c \<noteq> 45" "getopt_long sh lo rest = (os, operands)"
  shows "getopt_long sh lo ([45, c] # v # rest) = (Opt c (Some v) # os, operands)"
  using assms by (simp add: is_long_def is_short_def take_arg_def)

lemma getopt_short_flag:
  assumes "map_of sh c = Some no_argument" "c \<noteq> 45" "getopt_long sh lo rest = (os, operands)"
  shows "getopt_long sh lo ([45, c] # rest) = (Opt c None # os, operands)"
  using assms by (simp add: is_long_def is_short_def)

declare getopt_long.simps(2) [simp del]

definition arg :: "char \<Rightarrow> byte list \<Rightarrow> byte list list" where
  "arg c v = [[45, of_char c], v]"

definition opt_arg :: "char \<Rightarrow> byte list option \<Rightarrow> byte list list" where
  "opt_arg c v = (case v of None \<Rightarrow> [] | Some s \<Rightarrow> arg c s)"

definition flag :: "char \<Rightarrow> bool \<Rightarrow> byte list list" where
  "flag c b = (if b then [[45, of_char c]] else [])"

lemma getopt_arg:
  assumes "map_of sh (of_char c) = Some required_argument" "of_char c \<noteq> (45 :: byte)"
  shows "getopt_long sh lo (arg c v @ rest) = (case getopt_long sh lo rest of (os, operands) \<Rightarrow> (Opt (of_char c) (Some v) # os, operands))"
  using getopt_short_arg [OF assms] by (cases "getopt_long sh lo rest") (simp add: arg_def)

lemma getopt_opt_arg:
  assumes "map_of sh (of_char c) = Some required_argument" "of_char c \<noteq> (45 :: byte)"
  shows "getopt_long sh lo (opt_arg c v @ rest) = (case getopt_long sh lo rest of (os, operands) \<Rightarrow>
    ((case v of None \<Rightarrow> [] | Some s \<Rightarrow> [Opt (of_char c) (Some s)]) @ os, operands))"
  using getopt_arg [OF assms] by (cases v; cases "getopt_long sh lo rest") (simp_all add: opt_arg_def)

lemma getopt_flag:
  assumes "map_of sh (of_char c) = Some no_argument" "of_char c \<noteq> (45 :: byte)"
  shows "getopt_long sh lo (flag c b @ rest) = (case getopt_long sh lo rest of (os, operands) \<Rightarrow>
    ((if b then [Opt (of_char c) None] else []) @ os, operands))"
  using getopt_short_flag [OF assms] by (cases b; cases "getopt_long sh lo rest") (simp_all add: flag_def)

lemmas getopt_rules = getopt_arg getopt_opt_arg getopt_flag getopt_operands

lemma serve_shorts: "serve_short_options = [(104, no_argument), (108, required_argument), (112, required_argument), (102, required_argument),
    (115, required_argument), (100, no_argument), (107, no_argument), (113, no_argument), (118, no_argument)]"
  by (simp add: serve_short_options_def option_tables)

lemma mirror_shorts: "mirror_short_options = [(104, no_argument), (115, required_argument), (108, required_argument), (112, required_argument),
    (117, no_argument), (98, required_argument), (113, no_argument), (118, no_argument)]"
  by (simp add: mirror_short_options_def option_tables)

definition serve_argv :: "byte list \<Rightarrow> byte list \<Rightarrow> byte list \<Rightarrow> byte list option \<Rightarrow> bool \<Rightarrow> bool \<Rightarrow> byte list list \<Rightarrow> byte list list" where
  "serve_argv a p f sock deny kill acl =
     bytes_of ''serve'' # arg CHR ''l'' a @ arg CHR ''p'' p @ arg CHR ''f'' f @ opt_arg CHR ''s'' sock @ flag CHR ''d'' deny
       @ flag CHR ''k'' kill @ acl"

text \<open>C36: the command line of \<^verbatim>\<open>flexnbd serve\<close> round trip.  Whatever address, port, file and optional control socket, whichever
  flags and whatever list of ACL entries that do not look like options, the short-option command line that
  spells them is parsed back to exactly them.\<close>

theorem serve_command_line:
  assumes "\<forall>e\<in>set acl. operand e"
  shows "flexnbd_main (serve_argv a p f sock deny kill acl) = Serve a p f sock deny acl kill"
proof -
  have "is_cmd ''serve'' (bytes_of ''serve'')" by (simp add: is_cmd_def)
  then show ?thesis
    using assms by (cases sock; cases deny; cases kill)
      (simp_all add: flexnbd_main_def serve_argv_def mode_def mode_serve_def with_options_def getopt_rules serve_shorts
        read_serve_param_def no_vars_def)
qed

theorem serve_command_line_witness:
  "flexnbd_main (serve_argv (bytes_of ''0'') (bytes_of ''4000'') (bytes_of ''/disc'') None True False [bytes_of ''10.0.0.0/8''])
     = Serve (bytes_of ''0'') (bytes_of ''4000'') (bytes_of ''/disc'') None True [bytes_of ''10.0.0.0/8''] False"
  by (rule serve_command_line) (simp add: operand_def is_short_def bytes_of_def)

definition mirror_argv :: "byte list \<Rightarrow> byte list \<Rightarrow> byte list \<Rightarrow> bool \<Rightarrow> byte list option \<Rightarrow> byte list list" where
  "mirror_argv sock a p ul b =
     bytes_of ''mirror'' # arg CHR ''s'' sock @ arg CHR ''l'' a @ arg CHR ''p'' p @ flag CHR ''u'' ul @ opt_arg CHR ''b'' b"

lemma mode_mirror_cmd: "mode (bytes_of ''mirror'') argv = mode_mirror argv"
  by (simp add: mode_def is_cmd_def bytes_of_def)

lemma mirror_command_line:
  "flexnbd_main (mirror_argv sock a p ul b) = Remote (bytes_of ''mirror'') sock
     ([Some a, Some p, Some (bytes_of (if ul then ''unlink'' else ''exit''))] @ (case b of None \<Rightarrow> [] | Some s \<Rightarrow> [Some s]))"
proof -
  have last: "getopt_long mirror_short_options lo (opt_arg CHR ''b'' b) = ((case b of None \<Rightarrow> [] | Some s \<Rightarrow> [Opt (of_char CHR ''b'') (Some s)]), [])" for lo
    using getopt_opt_arg [of mirror_short_options "CHR ''b''" lo b "[]"] by (simp add: mirror_shorts)
  show ?thesis
    using last by (cases b; cases ul)
      (simp_all add: flexnbd_main_def mirror_argv_def mode_mirror_cmd mode_mirror_def with_options_def getopt_rules
        mirror_shorts read_mirror_param_def no_vars_def)
qed

text \<open>Long options that take an argument.\<close>

lemma long_option_bare:
  assumes "long_match lo name = Some (required_argument, c)" "61 \<notin> set name"
  shows "long_option lo name rest = (case take_arg c rest of (o1, rest') \<Rightarrow> ([o1], rest'))"
proof -
  have t: "takeWhile (\<lambda>b. b \<noteq> 61) name = name" using assms(2) by (auto simp: takeWhile_eq_all_conv)
  show ?thesis unfolding long_option_def Let_def t using assms(1) by simp
qed

lemma getopt_long_arg:
  assumes "long_match lo name = Some (required_argument, c)" "61 \<notin> set name" "name \<noteq> []" "getopt_long sh lo rest = (os, operands)"
  shows "getopt_long sh lo ((45 # 45 # name) # v # rest) = (Opt c (Some v) # os, operands)"
  using assms(3,4) by (simp add: getopt_long.simps(2) is_long_def long_option_bare [OF assms(1,2)] take_arg_def)

lemma getopt_long_missing:
  assumes "long_match lo name = Some (required_argument, c)" "61 \<notin> set name" "name \<noteq> []"
  shows "getopt_long sh lo [45 # 45 # name] = ([BadOpt], [])"
  using assms(3) by (simp add: getopt_long.simps is_long_def long_option_bare [OF assms(1,2)] take_arg_def)

definition long_arg :: "string \<Rightarrow> byte list" where
  "long_arg name = bytes_of (''--'' @ name)"

text \<open>\<^verbatim>\<open>--unlink\<close> and \<^verbatim>\<open>--killswitch\<close>.  The tables of long options say that both take an argument, although their
  short forms and the help texts say that they do not: a command line that ends in one of them prints the
  usage text and exits, and with more options following, the next word is swallowed.\<close>

lemma mirror_longs:
  "long_match mirror_options (bytes_of ''sock'') = Some (required_argument, 115)" "long_match mirror_options (bytes_of ''addr'') = Some (required_argument, 108)"
  "long_match mirror_options (bytes_of ''port'') = Some (required_argument, 112)" "long_match mirror_options (bytes_of ''unlink'') = Some (required_argument, 117)"
  "long_match serve_options (bytes_of ''killswitch'') = Some (required_argument, 107)"
  by (simp_all add: long_match_def mirror_options_def serve_options_def option_tables)

theorem long_flags_need_arguments:
  "flexnbd_main [bytes_of ''mirror'', long_arg ''sock'', s, long_arg ''addr'', a, long_arg ''port'', p, long_arg ''unlink''] = ExitErr mirror_help_text
   \<and> flexnbd_main (bytes_of ''serve'' # long_arg ''killswitch'' # long_arg ''default-deny'' # arg CHR ''l'' a @ arg CHR ''p'' p @ arg CHR ''f'' f)
       = Serve a p f None False [] True"
proof
  have plain: "61 \<notin> set (bytes_of n)" "bytes_of n \<noteq> []" if "n \<in> {''sock'', ''addr'', ''port'', ''unlink'', ''killswitch''}" for n
    using that by (auto simp: bytes_of_def)
  have la: "long_arg n = 45 # 45 # bytes_of n" for n by (simp add: long_arg_def bytes_of_def)
  have "getopt_long mirror_short_options mirror_options [long_arg ''sock'', s, long_arg ''addr'', a, long_arg ''port'', p, long_arg ''unlink'']
      = ([Opt 115 (Some s), Opt 108 (Some a), Opt 112 (Some p), BadOpt], [])"
    unfolding la by (intro getopt_long_arg mirror_longs plain getopt_long_missing [OF mirror_longs(4)]) simp_all
  then show "flexnbd_main [bytes_of ''mirror'', long_arg ''sock'', s, long_arg ''addr'', a, long_arg ''port'', p, long_arg ''unlink''] = ExitErr mirror_help_text"
    by (simp add: flexnbd_main_def mode_mirror_cmd mode_mirror_def with_options_def read_mirror_param_def read_log_param_def)
  have f: "getopt_long serve_short_options serve_options (arg CHR ''f'' f) = ([Opt 102 (Some f)], [])"
    using getopt_arg [of serve_short_options "CHR ''f''" serve_options f "[]"] by (simp add: serve_shorts)
  have "getopt_long serve_short_options serve_options (long_arg ''killswitch'' # long_arg ''default-deny'' # arg CHR ''l'' a @ arg CHR ''p'' p @ arg CHR ''f'' f)
      = ([Opt 107 (Some (long_arg ''default-deny'')), Opt 108 (Some a), Opt 112 (Some p), Opt 102 (Some f)], [])"
    unfolding la [of "''killswitch''"] using f by (intro getopt_long_arg mirror_longs plain) (simp_all add: getopt_arg serve_shorts)
  moreover have "is_cmd ''serve'' (bytes_of ''serve'')" by (simp add: is_cmd_def)
  ultimately show "flexnbd_main (bytes_of ''serve'' # long_arg ''killswitch'' # long_arg ''default-deny'' # arg CHR ''l'' a @ arg CHR ''p'' p @ arg CHR ''f'' f)
       = Serve a p f None False [] True"
    by (simp add: flexnbd_main_def mode_def mode_serve_def with_options_def read_serve_param_def no_vars_def)
qed

text \<open>The size argument of \<^verbatim>\<open>flexnbd write\<close> and \<^verbatim>\<open>flexnbd read\<close>.  A file name that starts with a slash (or any character
  below the colon) is taken for a number, so that nothing is written and the data comes from the standard
  input, and a size of 4 GiB or more is cut to its low 32 bits.\<close>

theorem size_argument_misread:
  assumes "need_addr parse_ip_to_sockaddr (Some ip) = Ret addr ()" "parse_port port = Ret p ()" "0 \<le> strtol from"
  shows "(\<exists>out. params_readwrite True df ip port None from (47 # path) = Ret out () \<and> rw_len out = 0 \<and> rw_data_fd out = 0)
    \<and> (\<exists>out. params_readwrite False df ip port None from (decimal (2 ^ 32 + k mod 2 ^ 32)) = Ret out () \<and> unat (rw_len out) = k mod 2 ^ 32)"
proof -
  have "strtol (47 # path) = 0" by (simp add: strtol_def is_space_def is_digit_def word_le_def)
  moreover have "first_char (47 # path) = 47" by (simp add: first_char_def)
  moreover have "strtol (decimal (2 ^ 32 + k mod 2 ^ 32)) = 2 ^ 32 + int (k mod 2 ^ 32)"
    using mod_less_divisor [of "2 ^ 32" k] by (subst strtol_decimal) simp_all
  moreover have "unat (word_of_int (2 ^ 32 + int (k mod 2 ^ 32)) :: u32) = k mod 2 ^ 32"
  proof -
    have "unat (word_of_int x :: u32) = nat (x mod 2 ^ 32)" for x by (simp only: unat_eq_nat_uint uint_word_of_int) simp
    then show ?thesis by (simp del: of_int_add)
  qed
  ultimately show ?thesis using assms by (simp add: params_readwrite_def Let_def)
qed

theorem size_argument_misread_witness:
  "\<exists>out. params_readwrite True \<lparr>df_open = 3, df_end = 100, df_rewind = 0\<rparr> (bytes_of ''10.0.0.1'') (bytes_of ''4000'') None (bytes_of ''0'') (bytes_of ''/disc'')
     = Ret out () \<and> rw_len out = 0 \<and> rw_data_fd out = 0"
proof -
  have "need_addr parse_ip_to_sockaddr (Some (bytes_of ''10.0.0.1'')) = Ret (AF_INET [10, 0, 0, 1]) ()" by code_simp
  moreover have "parse_port (bytes_of ''4000'') = Ret 40975 ()" "strtol (bytes_of ''0'') = 0" by code_simp+
  ultimately show ?thesis
    using size_argument_misread [of "bytes_of ''10.0.0.1''" "AF_INET [10, 0, 0, 1]" "bytes_of ''4000''" 40975 "bytes_of ''0''"
        "\<lparr>df_open = 3, df_end = 100, df_rewind = 0\<rparr>" "bytes_of ''disc''" 0] by (auto simp: bytes_of_def)
qed

text \<open>A proxy that cannot reach its server closes what it has and reports success to its caller.\<close>

theorem unreachable_server_exits_zero:
  assumes "hello = ConnectFailed \<or> hello = HelloFailed"
  shows "run_proxy hello up_fd l_fd listen_ok as p = Ret 0 (proxy_cleanup p)"
  using assms by (elim disjE) (simp_all only: run_proxy_def do_proxy_def proxy_connect_to_upstream_def hello_result.case prod.case and_then.simps, simp_all)

text \<open>A proxy that is told to end, at whatever point of its life, exits with status 0 and all its sockets closed.\<close>

lemma my_exit_closes:
  "\<exists>q. my_exit (Some p) = (0, Some q) \<and> listen_fd q = -1 \<and> downstream_fd q = -1 \<and> upstream_fd q = -1"
  by (rule exI [of _ "proxy_cleanup p"]) (simp add: my_exit_def proxy_cleanup_def)

end
