(* ===== verification/Threading.thy ===== *)
theory Threading
  imports Flex_Prelude
begin

text \<open>
  The helpers the threads of the program stand on: mutexes that know their holder (\<^verbatim>\<open>flexthread.c\<close>), pipes used
  as signals (\<^verbatim>\<open>self_pipe.c\<close>), and error handlers, allocation, the log and the clock (\<^verbatim>\<open>util.c\<close>, \<^verbatim>\<open>util.h\<close>).  The other
  theories use what is shown here: that a thread can ask whether it holds a mutex
  (\<open>mutex_held_exact\<close>, under every interleaving of the statements of lock and unlock), that a signal is
  seen until it is cleared (\<open>pipe_signals_counted\<close>), and that \<^verbatim>\<open>error()\<close> runs the thread's handler once and ends the thread,
  while \<^verbatim>\<open>fatal()\<close> ends the process without it (\<open>thread_fate_cases\<close>).
\<close>

subsection \<open>Mutexes\<close>

text \<open>Threads are numbered from 1; 0 is the value \<^verbatim>\<open>(pthread_t) NULL\<close>.  \<open>mutex\<close> says which thread has locked the
  mutex inside; unlocking one's own default mutex cannot fail, unlocking another thread's is undefined.\<close>

record flexthread_mutex =
  mutex :: "nat option"
  holder :: nat

definition flexthread_mutex_create :: "bool \<Rightarrow> (unit, flexthread_mutex) outcome" where
  "flexthread_mutex_create init_ok = (if \<not> init_ok then Fatal () else Ret \<lparr>mutex = None, holder = 0\<rparr> ())"

definition flexthread_mutex_lock :: "nat \<Rightarrow> flexthread_mutex \<Rightarrow> (flexthread_mutex, int) outcome" where
  "flexthread_mutex_lock self ftm =
     (if mutex ftm = None then Ret 0 (ftm\<lparr>mutex := Some self, holder := self\<rparr>) else Asleep ftm)"

definition flexthread_mutex_unlock :: "nat \<Rightarrow> flexthread_mutex \<Rightarrow> (flexthread_mutex, int) outcome" where
  "flexthread_mutex_unlock self ftm =
     (let ftm1 = ftm\<lparr>holder := 0\<rparr> in if mutex ftm1 = Some self then Ret 0 (ftm1\<lparr>mutex := None\<rparr>) else Fault)"

definition flexthread_mutex_held :: "nat \<Rightarrow> flexthread_mutex \<Rightarrow> bool" where
  "flexthread_mutex_held self ftm \<longleftrightarrow> self = holder ftm"

definition flexthread_mutex_destroy :: "nat \<Rightarrow> flexthread_mutex \<Rightarrow> (flexthread_mutex, unit) outcome" where
  "flexthread_mutex_destroy self ftm =
     and_then
       (if flexthread_mutex_held self ftm then flexthread_mutex_unlock self ftm
        else if holder ftm \<noteq> 0 then Fatal ftm else Ret 0 ftm)
       (\<lambda>_ ftm1. if mutex ftm1 = None then Ret () ftm1 else Fatal ftm1)"

text \<open>The same operations statement by statement, many threads at a time: between \<^verbatim>\<open>pthread_mutex_lock\<close> and the
  assignment to \<^verbatim>\<open>holder\<close>, and between the assignment of NULL and \<^verbatim>\<open>pthread_mutex_unlock\<close>, other threads run.\<close>

datatype lock_point = Outside | Locked | Inside | Unlocking

record lockers =
  ftm :: flexthread_mutex
  point :: "nat \<Rightarrow> lock_point"

inductive lock_step :: "lockers \<Rightarrow> lockers \<Rightarrow> bool" where
  locks: "point s t = Outside \<Longrightarrow> t \<noteq> 0 \<Longrightarrow> mutex (ftm s) = None \<Longrightarrow>
    lock_step s (s\<lparr>ftm := (ftm s)\<lparr>mutex := Some t\<rparr>, point := (point s)(t := Locked)\<rparr>)"
| records: "point s t = Locked \<Longrightarrow>
    lock_step s (s\<lparr>ftm := (ftm s)\<lparr>holder := t\<rparr>, point := (point s)(t := Inside)\<rparr>)"
| clears: "point s t = Inside \<Longrightarrow>
    lock_step s (s\<lparr>ftm := (ftm s)\<lparr>holder := 0\<rparr>, point := (point s)(t := Unlocking)\<rparr>)"
| unlocks: "point s t = Unlocking \<Longrightarrow>
    lock_step s (s\<lparr>ftm := (ftm s)\<lparr>mutex := None\<rparr>, point := (point s)(t := Outside)\<rparr>)"

definition lock_init :: "lockers \<Rightarrow> bool" where
  "lock_init s \<longleftrightarrow> flexthread_mutex_create True = Ret (ftm s) () \<and> (\<forall>t. point s t = Outside)"

definition lock_inv :: "lockers \<Rightarrow> bool" where
  "lock_inv s \<longleftrightarrow> (case mutex (ftm s) of
       None \<Rightarrow> holder (ftm s) = 0 \<and> (\<forall>t. point s t = Outside)
     | Some t \<Rightarrow> t \<noteq> 0 \<and> (\<forall>u. u \<noteq> t \<longrightarrow> point s u = Outside)
         \<and> (point s t = Inside \<and> holder (ftm s) = t
            \<or> (point s t = Locked \<or> point s t = Unlocking) \<and> holder (ftm s) = 0))"

lemma lock_inv_owner: "lock_inv s \<Longrightarrow> point s t \<noteq> Outside \<Longrightarrow> mutex (ftm s) = Some t"
  by (cases "mutex (ftm s)") (simp_all add: lock_inv_def, metis)

lemma lock_step_inv: "lock_step s s' \<Longrightarrow> lock_inv s \<Longrightarrow> lock_inv s'"
proof (induction rule: lock_step.induct)
  case (records s t)
  then have "mutex (ftm s) = Some t" using lock_inv_owner by fastforce
  with records show ?case by (auto simp: lock_inv_def)
next
  case (clears s t)
  then have "mutex (ftm s) = Some t" using lock_inv_owner by fastforce
  with clears show ?case by (auto simp: lock_inv_def)
next
  case (unlocks s t)
  then have "mutex (ftm s) = Some t" using lock_inv_owner by fastforce
  with unlocks show ?case by (auto simp: lock_inv_def)
qed (simp add: lock_inv_def)

interpretation lck: step_invariant lock_init lock_step lock_inv
proof
  show "lock_inv s" if "lock_init s" for s
  proof -
    have "ftm s = \<lparr>mutex = None, holder = 0\<rparr>" using that by (simp add: lock_init_def flexthread_mutex_create_def)
    with that show ?thesis by (simp add: lock_inv_def lock_init_def)
  qed
qed (rule lock_step_inv)

text \<open>The operations of the program are these steps, one after the other.\<close>

lemma lock_is_steps:
  assumes "point s t = Outside" "t \<noteq> 0" "flexthread_mutex_lock t (ftm s) = Ret r m"
  shows "lock_step\<^sup>*\<^sup>* s (s\<lparr>ftm := m, point := (point s)(t := Inside)\<rparr>)"
proof -
  let ?s1 = "s\<lparr>ftm := (ftm s)\<lparr>mutex := Some t\<rparr>, point := (point s)(t := Locked)\<rparr>"
  have m: "mutex (ftm s) = None" "m = (ftm s)\<lparr>mutex := Some t, holder := t\<rparr>"
    using assms(3) by (auto simp: flexthread_mutex_lock_def split: if_splits)
  have "lock_step s ?s1" using assms(1,2) m(1) by (rule lock_step.locks)
  moreover have "lock_step ?s1 (s\<lparr>ftm := m, point := (point s)(t := Inside)\<rparr>)"
    using lock_step.records [of ?s1 t] m(2) by simp
  ultimately show ?thesis by (meson rtranclp.rtrancl_into_rtrancl rtranclp.rtrancl_refl)
qed

lemma unlock_is_steps:
  assumes "point s t = Inside" "flexthread_mutex_unlock t (ftm s) = Ret r m"
  shows "lock_step\<^sup>*\<^sup>* s (s\<lparr>ftm := m, point := (point s)(t := Outside)\<rparr>)"
proof -
  let ?s1 = "s\<lparr>ftm := (ftm s)\<lparr>holder := 0\<rparr>, point := (point s)(t := Unlocking)\<rparr>"
  have m: "m = (ftm s)\<lparr>holder := 0, mutex := None\<rparr>"
    using assms(2) by (auto simp: flexthread_mutex_unlock_def Let_def split: if_splits)
  have "lock_step s ?s1" using assms(1) by (rule lock_step.clears)
  moreover have "lock_step ?s1 (s\<lparr>ftm := m, point := (point s)(t := Outside)\<rparr>)"
    using lock_step.unlocks [of ?s1 t] m by simp
  ultimately show ?thesis by (meson rtranclp.rtrancl_into_rtrancl rtranclp.rtrancl_refl)
qed

text \<open>C22: a thread knows whether it holds a mutex.  Under every interleaving of the statements of lock and unlock
  of any number of threads, a thread that is not in the middle of one of them is told by \<open>flexthread_mutex_held\<close>
  exactly whether it is between its own lock and unlock; at most one thread is; its unlock then succeeds; and
  a thread that tries to destroy the mutex while another is anywhere between the first statement of lock and the last of
  unlock ends the process instead.\<close>

theorem mutex_held_exact:
  assumes "lock_init s0" "lock_step\<^sup>*\<^sup>* s0 s" "t \<noteq> 0"
  shows "((point s t = Outside \<or> point s t = Inside) \<longrightarrow> (flexthread_mutex_held t (ftm s) \<longleftrightarrow> point s t = Inside))
    \<and> (point s t = Inside \<longrightarrow> flexthread_mutex_unlock t (ftm s) = Ret 0 \<lparr>mutex = None, holder = 0\<rparr>)
    \<and> (point s t = Outside \<and> point s u \<noteq> Outside \<longrightarrow> (\<exists>m. flexthread_mutex_destroy t (ftm s) = Fatal m))
    \<and> (point s t \<noteq> Outside \<and> point s u \<noteq> Outside \<longrightarrow> t = u)"
proof (intro conjI impI)
  have inv: "lock_inv s" using assms(1,2) by (rule lck.reachable_inv)
  note own = lock_inv_owner [OF inv]
  show "flexthread_mutex_held t (ftm s) \<longleftrightarrow> point s t = Inside" if "point s t = Outside \<or> point s t = Inside"
  proof (cases "point s t = Inside")
    case True
    with own [of t] inv show ?thesis by (simp add: lock_inv_def flexthread_mutex_held_def)
  next
    case False
    with that inv assms(3) show ?thesis
      by (cases "mutex (ftm s)") (auto simp: lock_inv_def flexthread_mutex_held_def)
  qed
  show "flexthread_mutex_unlock t (ftm s) = Ret 0 \<lparr>mutex = None, holder = 0\<rparr>" if "point s t = Inside"
    using own [of t] that by (simp add: flexthread_mutex_unlock_def Let_def)
  show "\<exists>m. flexthread_mutex_destroy t (ftm s) = Fatal m" if "point s t = Outside \<and> point s u \<noteq> Outside"
  proof -
    have "mutex (ftm s) = Some u" "t \<noteq> u" using that own by auto
    with inv assms(3) show ?thesis by (auto simp: flexthread_mutex_destroy_def flexthread_mutex_held_def lock_inv_def)
  qed
  show "t = u" if "point s t \<noteq> Outside \<and> point s u \<noteq> Outside" using own [of t] own [of u] that by simp
qed

theorem mutex_held_exact_witness:
  "\<exists>s. lock_step\<^sup>*\<^sup>* \<lparr>ftm = \<lparr>mutex = None, holder = 0\<rparr>, point = (\<lambda>_. Outside)\<rparr> s \<and> flexthread_mutex_held 1 (ftm s)
    \<and> \<not> flexthread_mutex_held 2 (ftm s) \<and> (\<exists>m. flexthread_mutex_destroy 2 (ftm s) = Fatal m)"
proof -
  let ?s0 = "\<lparr>ftm = \<lparr>mutex = None, holder = 0\<rparr>, point = (\<lambda>_. Outside)\<rparr> :: lockers"
  obtain m where "flexthread_mutex_lock 1 (ftm ?s0) = Ret 0 m" by (simp add: flexthread_mutex_lock_def)
  from lock_is_steps [OF _ _ this] obtain s where s: "lock_step\<^sup>*\<^sup>* ?s0 s" "point s 1 = Inside" "point s 2 = Outside"
    by (force simp: fun_upd_def)
  have i: "lock_init ?s0" by (simp add: lock_init_def flexthread_mutex_create_def)
  show ?thesis using mutex_held_exact [OF i s(1), of 1 1] mutex_held_exact [OF i s(1), of 2 1] s by auto
qed

subsection \<open>Signals\<close>

text \<open>A pipe is its two descriptors and the number of bytes not yet read; it holds \<open>capacity\<close> bytes.  A list of booleans says
  which calls of \<^verbatim>\<open>close\<close> are interrupted.\<close>

record self_pipe =
  read_fd :: int
  write_fd :: int
  unread :: nat

definition self_pipe_create :: "(int \<times> int) option \<Rightarrow> bool \<Rightarrow> (unit, self_pipe) outcome" where
  "self_pipe_create pipe_fds fcntl_ok =
     (case pipe_fds of
        None \<Rightarrow> Fatal ()
      | Some (r, w) \<Rightarrow> if \<not> fcntl_ok then Fatal () else Ret \<lparr>read_fd = r, write_fd = w, unread = 0\<rparr> ())"

definition self_pipe_signal :: "nat \<Rightarrow> self_pipe \<Rightarrow> (self_pipe, int) outcome" where
  "self_pipe_signal capacity sig =
     (if write_fd sig = 1 then Fatal sig
      else if write_fd sig = 2 then Fatal sig
      else if unread sig < capacity then Ret 1 (sig\<lparr>unread := unread sig + 1\<rparr>)
      else Fatal sig)"

definition self_pipe_signal_clear :: "self_pipe \<Rightarrow> int \<times> self_pipe" where
  "self_pipe_signal_clear sig = (if 0 < unread sig then (1, sig\<lparr>unread := unread sig - 1\<rparr>) else (0, sig))"

fun close_again :: "bool list \<Rightarrow> bool list" where
  "close_again [] = []"
| "close_again (interrupted # es) = (if interrupted then close_again es else es)"

definition self_pipe_destroy :: "bool list \<Rightarrow> self_pipe \<Rightarrow> int \<times> self_pipe \<times> bool list" where
  "self_pipe_destroy es sig = (1, sig\<lparr>read_fd := -1, write_fd := -1\<rparr>, close_again (close_again es))"

definition self_pipe_fd_set :: "self_pipe \<Rightarrow> int set \<Rightarrow> int set" where
  "self_pipe_fd_set sig fds = insert (read_fd sig) fds"

definition self_pipe_fd_isset :: "self_pipe \<Rightarrow> int set \<Rightarrow> bool" where
  "self_pipe_fd_isset sig fds \<longleftrightarrow> read_fd sig \<in> fds"

text \<open>What \<^verbatim>\<open>select\<close> leaves of a set of descriptors, as far as one pipe is concerned.\<close>

definition select_reads :: "self_pipe \<Rightarrow> int set \<Rightarrow> int set" where
  "select_reads sig fds = (if 0 < unread sig then fds else fds - {read_fd sig})"

fun signals :: "nat \<Rightarrow> nat \<Rightarrow> self_pipe \<Rightarrow> (self_pipe, int) outcome" where
  "signals capacity 0 sig = Ret 1 sig"
| "signals capacity (Suc n) sig = and_then (self_pipe_signal capacity sig) (\<lambda>_. signals capacity n)"

lemma signals_sent:
  "write_fd sig \<noteq> 1 \<Longrightarrow> write_fd sig \<noteq> 2 \<Longrightarrow> unread sig + n \<le> capacity \<Longrightarrow>
     signals capacity n sig = Ret 1 (sig\<lparr>unread := unread sig + n\<rparr>)"
  by (induction n arbitrary: sig) (simp_all add: self_pipe_signal_def)

lemma clears_read:
  "m \<le> unread sig \<Longrightarrow> ((\<lambda>p. snd (self_pipe_signal_clear p)) ^^ m) sig = sig\<lparr>unread := unread sig - m\<rparr>"
  by (induction m) (auto simp: self_pipe_signal_clear_def)

text \<open>A signal is seen until it has been cleared as often as it was sent, however the thread that waits for it and the one that sends
  it are scheduled; one signal more than the pipe holds ends the process.\<close>

theorem pipe_signals_counted:
  assumes "self_pipe_create (Some (r, w)) True = Ret p ()" "w \<noteq> 1" "w \<noteq> 2" "n \<le> capacity" "m \<le> n"
  shows "\<exists>p1 p2. signals capacity n p = Ret 1 p1 \<and> ((\<lambda>p. snd (self_pipe_signal_clear p)) ^^ m) p1 = p2
    \<and> (self_pipe_fd_isset p2 (select_reads p2 (self_pipe_fd_set p2 fds)) \<longleftrightarrow> m < n)
    \<and> fst (self_pipe_signal_clear p2) = (if m < n then 1 else 0)
    \<and> (n = capacity \<longrightarrow> self_pipe_signal capacity p1 = Fatal p1)"
proof -
  have p: "p = \<lparr>read_fd = r, write_fd = w, unread = 0\<rparr>" using assms(1) by (simp add: self_pipe_create_def)
  have "signals capacity n p = Ret 1 (p\<lparr>unread := n\<rparr>)" using signals_sent [of p n] assms(2-4) p by simp
  moreover have "((\<lambda>p. snd (self_pipe_signal_clear p)) ^^ m) (p\<lparr>unread := n\<rparr>) = p\<lparr>unread := n - m\<rparr>"
    using clears_read [of m "p\<lparr>unread := n\<rparr>"] assms(5) by simp
  ultimately show ?thesis using assms(2,3,5)
    by (auto simp: self_pipe_signal_clear_def self_pipe_signal_def self_pipe_fd_isset_def self_pipe_fd_set_def select_reads_def)
qed

subsection \<open>Error handlers\<close>

text \<open>How a thread ends: \<open>error_handler\<close> finds the thread's context, set by \<open>error_set_handler\<close>, and jumps to its switch
  (\<open>handler_jump\<close>).  A context is a cleanup function of the thread's state and the flag \<^verbatim>\<open>is fatal\<close>.\<close>

datatype 's fate = Returns 's | Exits 's | Aborts | Waits 's | Runs_on | Crashes

type_synonym 's cleanup_handler = "'s \<Rightarrow> bool \<Rightarrow> 's"

definition error_set_handler :: "bool \<Rightarrow> 's cleanup_handler \<Rightarrow> 's cleanup_handler option \<Rightarrow> 's cleanup_handler option option" where
  "error_set_handler initialised cleanfn old = (if \<not> initialised then None else Some (Some cleanfn))"

definition handler_jump :: "nat \<Rightarrow> 's cleanup_handler \<Rightarrow> 's \<Rightarrow> 's fate" where
  "handler_jump n cleanfn s = (if n = 1 then Aborts else if n = 2 then Exits (cleanfn s False) else Aborts)"

definition error_handler :: "bool \<Rightarrow> 's cleanup_handler option \<Rightarrow> 's \<Rightarrow> 's fate" where
  "error_handler is_fatal ctx s =
     (case ctx of
        Some cleanfn \<Rightarrow> handler_jump (if is_fatal then 1 else 2) cleanfn s
      | None \<Rightarrow> if is_fatal then Aborts else Exits s)"

definition ERROR_IF :: "bool \<Rightarrow> 's \<Rightarrow> ('s, unit) outcome" where
  "ERROR_IF test s = (if test then Error s else Ret () s)"

definition FATAL_IF :: "bool \<Rightarrow> 's \<Rightarrow> ('s, unit) outcome" where
  "FATAL_IF test s = (if test then Fatal s else Ret () s)"

fun thread_fate :: "'s cleanup_handler option \<Rightarrow> ('s, 'a) outcome \<Rightarrow> 's fate" where
  "thread_fate ctx (Ret a s) = Returns s"
| "thread_fate ctx (Error s) = error_handler False ctx s"
| "thread_fate ctx (Fatal s) = error_handler True ctx s"
| "thread_fate ctx (Asleep s) = Waits s"
| "thread_fate ctx Spins = Runs_on"
| "thread_fate ctx Fault = Crashes"

text \<open>An error runs the handler set last, once, and ends the thread; a fatal error ends the process whatever handler
  is set, so that no handler is ever called with its flag set.\<close>

theorem thread_fate_cases:
  assumes "error_set_handler True cleanfn old = Some ctx"
  shows "thread_fate ctx (and_then (ERROR_IF test s) k) = (if test then Exits (cleanfn s False) else thread_fate ctx (k () s))"
    and "thread_fate ctx (and_then (FATAL_IF test s) k) = (if test then Aborts else thread_fate ctx (k () s))"
    and "(\<forall>s. cleanfn s False = cleanfn' s False) \<Longrightarrow> thread_fate ctx out = thread_fate (Some cleanfn') out"
proof -
  have ctx: "ctx = Some cleanfn" using assms by (simp add: error_set_handler_def)
  show "thread_fate ctx (and_then (ERROR_IF test s) k) = (if test then Exits (cleanfn s False) else thread_fate ctx (k () s))"
    "thread_fate ctx (and_then (FATAL_IF test s) k) = (if test then Aborts else thread_fate ctx (k () s))"
    by (simp_all add: ctx ERROR_IF_def FATAL_IF_def error_handler_def handler_jump_def)
  show "thread_fate ctx out = thread_fate (Some cleanfn') out" if "\<forall>s. cleanfn s False = cleanfn' s False"
    using that by (cases out) (simp_all add: ctx error_handler_def handler_jump_def)
qed

subsection \<open>Memory, clock and log\<close>

definition xrealloc :: "byte list option \<Rightarrow> (unit, byte list) outcome" where
  "xrealloc block = (case block of None \<Rightarrow> Fatal () | Some b \<Rightarrow> Ret b ())"

definition xmalloc :: "byte list option \<Rightarrow> (unit, byte list) outcome" where
  "xmalloc block = and_then (xrealloc block) (\<lambda>b. Ret (replicate (length b) 0))"

definition monotonic_time_ms :: "(nat \<times> nat) option \<Rightarrow> (unit, u64) outcome" where
  "monotonic_time_ms ts =
     (case ts of
        None \<Rightarrow> Fatal ()
      | Some (tv_sec, tv_nsec) \<Rightarrow>
          let seconds_ms = of_nat tv_sec * 1000; nanoseconds_ms = of_nat tv_nsec div 1000000
          in Ret (seconds_ms + nanoseconds_ms) ())"

definition levstr :: "int \<Rightarrow> char" where
  "levstr i = (if i = 0 then CHR ''D'' else if i = 1 then CHR ''I'' else if i = 2 then CHR ''W'' else if i = 3 then CHR ''E'' else CHR ''F'')"

definition mylog :: "int \<Rightarrow> int \<Rightarrow> string \<Rightarrow> string list \<Rightarrow> string list" where
  "mylog log_level line_level line err = (if line_level < log_level then err else err @ [line])"

lemma monotonic_time_ms_eq:
  assumes "tv_nsec < 10 ^ 9" "tv_sec * 1000 + 1000 < 2 ^ 64"
  shows "\<exists>t. monotonic_time_ms (Some (tv_sec, tv_nsec)) = Ret t () \<and> unat t = (tv_sec * 10 ^ 9 + tv_nsec) div 10 ^ 6"
proof -
  have u: "unat (of_nat n :: u64) = n" if "n < 2 ^ 64" for n
    using that by (simp add: unsigned_of_nat take_bit_nat_eq_self_iff)
  have s: "unat (of_nat tv_sec * 1000 :: u64) = tv_sec * 1000" using u [of "tv_sec * 1000"] assms(2) by simp
  have n: "unat (of_nat tv_nsec div 1000000 :: u64) = tv_nsec div 1000000"
    using u [of tv_nsec] assms(1) by (simp add: unat_div_distrib)
  have "tv_nsec div 1000000 < 1000" using assms(1) by (simp add: div_less_iff_less_mult)
  then have "unat (of_nat tv_sec * 1000 + of_nat tv_nsec div 1000000 :: u64) = tv_sec * 1000 + tv_nsec div 1000000"
    using assms(2) s n by (subst unat_add_u64) simp_all
  moreover have "(tv_sec * 10 ^ 9 + tv_nsec) div 10 ^ 6 = tv_sec * 1000 + tv_nsec div 1000000" by simp
  ultimately show ?thesis by (simp add: monotonic_time_ms_def Let_def)
qed

text \<open>The clock of the program never runs backwards when the system's does not.\<close>

lemma monotonic_time_ms_mono:
  assumes "n1 < 10 ^ 9" "n2 < 10 ^ 9" "s1 < s2 \<or> s1 = s2 \<and> n1 \<le> n2" "s2 * 1000 + 1000 < 2 ^ 64"
  shows "\<exists>t1 t2. monotonic_time_ms (Some (s1, n1)) = Ret t1 () \<and> monotonic_time_ms (Some (s2, n2)) = Ret t2 () \<and> t1 \<le> t2"
proof -
  have "s1 * 1000 + 1000 < 2 ^ 64" using assms(3,4) by linarith
  with monotonic_time_ms_eq [OF assms(1)] monotonic_time_ms_eq [OF assms(2,4)] obtain t1 t2 where t:
    "monotonic_time_ms (Some (s1, n1)) = Ret t1 ()" "unat t1 = (s1 * 10 ^ 9 + n1) div 10 ^ 6"
    "monotonic_time_ms (Some (s2, n2)) = Ret t2 ()" "unat t2 = (s2 * 10 ^ 9 + n2) div 10 ^ 6" by blast
  have "s1 * 10 ^ 9 + n1 \<le> s2 * 10 ^ 9 + n2" using assms(1,3) by auto
  then have "t1 \<le> t2" unfolding word_le_nat_alt t by (rule div_le_mono)
  with t show ?thesis by blast
qed

end
