(* ===== verification/Writers.thy ===== *)
theory Writers
  imports Client
begin

text \<open>
  Several clients at a time.  The threads of a server share the mapped file and the allocation map without a lock
  around a request: only the single operations on the map are atomic.  This theory cuts \<open>write_not_zeroes\<close> into
  the steps between which other threads run (\<open>writer_step\<close>, one thread; \<open>write_step\<close>, the server) and shows what clients that
  write to disjoint ranges can rely on, even inside one chunk of the map.  The invariant \<open>writers_inv\<close> is a further instance of
  \<open>step_invariant\<close>; \<open>write_steps_run\<close> shows that a thread left alone takes the steps of \<open>write_not_zeroes\<close>.
\<close>

subsection \<open>The steps of a write\<close>

text \<open>Where a thread is: at the head of the loop; holding the length of a run; past the test of the first bit, with \<open>k\<close> bytes of
  the run read straight into the file; in the loop over the blocks of an unallocated run; with a block in \<^verbatim>\<open>zerobuffer\<close>;
  with \<open>k\<close> bytes of that block copied to the file.\<close>

datatype write_phase =
    Choose
  | Counted u64
  | Direct u64 nat
  | Blocks u64
  | Block u64 "byte list"
  | Storing u64 "byte list" nat

record writer =
  rq_at :: u64
  payload :: "byte list"
  w_from :: u64
  w_len :: u64
  w_phase :: write_phase

definition pending_data :: "writer \<Rightarrow> byte list" where
  "pending_data w = drop (length (payload w) - unat (w_len w)) (payload w)"

text \<open>Bytes that are in the file while the map does not know of them yet.\<close>

fun stored :: "write_phase \<Rightarrow> nat" where
  "stored (Direct run k) = k"
| "stored (Storing run zb k) = k"
| "stored _ = 0"

text \<open>Bytes the thread stores before it tells the map.\<close>

fun stores :: "write_phase \<Rightarrow> nat" where
  "stores (Direct run k) = unat run"
| "stores (Storing run zb k) = length zb"
| "stores _ = 0"

text \<open>The call of \<open>bitset_set_range\<close>.  With the event queue full it has set the bits and sleeps (\<open>waits\<close>) until the mirror
  thread has taken an event; setting the same bits once more when it wakes up changes nothing.\<close>

fun sets_range :: "server \<Rightarrow> u64 \<Rightarrow> u64 \<Rightarrow> bool \<Rightarrow> server \<Rightarrow> bool" where
  "sets_range sv from n waits sv' =
     (case bitset_set_range (allocation_map sv) from n of
        Done bs \<Rightarrow> \<not> waits \<and> sv' = sv\<lparr>allocation_map := bs\<rparr>
      | Blocked bs \<Rightarrow> waits \<and> sv' = sv\<lparr>allocation_map := bs\<rparr>
      | _ \<Rightarrow> False)"

declare sets_range.simps [simp del]

inductive writer_step :: "server \<Rightarrow> writer \<Rightarrow> server \<Rightarrow> writer \<Rightarrow> bool" where
  counts: "w_phase w = Choose \<Longrightarrow> 0 < w_len w \<Longrightarrow>
    bitset_run_count (allocation_map sv) (w_from w) (w_len w) = Some run0 \<Longrightarrow>
    run = (if run0 > w_len w then w_len w else run0) \<Longrightarrow>
    writer_step sv w sv (w\<lparr>w_phase := Counted run\<rparr>)"
| finds_set: "w_phase w = Counted run \<Longrightarrow> bitset_is_set_at (allocation_map sv) (w_from w) = Some b \<Longrightarrow> b \<noteq> 0 \<Longrightarrow>
    writer_step sv w sv (w\<lparr>w_phase := Direct run 0\<rparr>)"
| finds_clear: "w_phase w = Counted run \<Longrightarrow> bitset_is_set_at (allocation_map sv) (w_from w) = Some 0 \<Longrightarrow>
    writer_step sv w sv (w\<lparr>w_phase := Blocks run\<rparr>)"
| reads_through: "w_phase w = Direct run k \<Longrightarrow> k + n \<le> unat run \<Longrightarrow>
    mem_write (unat (w_from w) + k) (take n (drop k (pending_data w))) (file_map sv) = Some m \<Longrightarrow>
    writer_step sv w (sv\<lparr>file_map := m\<rparr>) (w\<lparr>w_phase := Direct run (k + n)\<rparr>)"
| marks_run: "w_phase w = Direct run k \<Longrightarrow> k = unat run \<Longrightarrow> sets_range sv (w_from w) run False sv' \<Longrightarrow>
    writer_step sv w sv' (w\<lparr>w_from := w_from w + run, w_len := w_len w - run, w_phase := Choose\<rparr>)"
| reads_block: "w_phase w = Blocks run \<Longrightarrow> run > 0 \<Longrightarrow>
    writer_step sv w sv (w\<lparr>w_phase := Block run (take (unat (blockrun_at (w_from w) run)) (pending_data w))\<rparr>)"
| blocks_done: "w_phase w = Blocks 0 \<Longrightarrow> writer_step sv w sv (w\<lparr>w_phase := Choose\<rparr>)"
| skips_zeros: "w_phase w = Block run zb \<Longrightarrow> all_zeros zb \<Longrightarrow> b = of_nat (length zb) \<Longrightarrow>
    writer_step sv w sv (w\<lparr>w_from := w_from w + b, w_len := w_len w - b, w_phase := Blocks (run - b)\<rparr>)"
| takes_block: "w_phase w = Block run zb \<Longrightarrow> \<not> all_zeros zb \<Longrightarrow>
    writer_step sv w sv (w\<lparr>w_phase := Storing run zb 0\<rparr>)"
| copies: "w_phase w = Storing run zb k \<Longrightarrow> k + n \<le> length zb \<Longrightarrow>
    mem_write (unat (w_from w) + k) (take n (drop k zb)) (file_map sv) = Some m \<Longrightarrow>
    writer_step sv w (sv\<lparr>file_map := m\<rparr>) (w\<lparr>w_phase := Storing run zb (k + n)\<rparr>)"
| marks_block: "w_phase w = Storing run zb k \<Longrightarrow> k = length zb \<Longrightarrow> b = of_nat k \<Longrightarrow> sets_range sv (w_from w) b False sv' \<Longrightarrow>
    writer_step sv w sv' (w\<lparr>w_from := w_from w + b, w_len := w_len w - b, w_phase := Blocks (run - b)\<rparr>)"
| waits_for_mirror: "stored (w_phase w) = stores (w_phase w) \<Longrightarrow> 0 < stores (w_phase w) \<Longrightarrow>
    sets_range sv (w_from w) (of_nat (stores (w_phase w))) True sv' \<Longrightarrow> writer_step sv w sv' w"

subsection \<open>Many threads\<close>

record writing =
  wserve :: server
  writers :: "nat \<Rightarrow> writer option"

definition owns :: "writer \<Rightarrow> nat \<Rightarrow> bool" where
  "owns w p \<longleftrightarrow> unat (rq_at w) \<le> p \<and> p < unat (rq_at w) + length (payload w)"

definition new_writer :: "u64 \<Rightarrow> byte list \<Rightarrow> writer" where
  "new_writer from data = \<lparr>rq_at = from, payload = data, w_from = from, w_len = of_nat (length data), w_phase = Choose\<rparr>"

definition bits_grow :: "server \<Rightarrow> server \<Rightarrow> bool" where
  "bits_grow sv sv' \<longleftrightarrow> (\<forall>p < unat (serve_size sv). bs_bit (allocation_map sv) p \<longrightarrow> bs_bit (allocation_map sv') p)"

definition srv_shape :: "server \<Rightarrow> bool" where
  "srv_shape sv \<longleftrightarrow> wf_bitset (allocation_map sv) \<and> res (allocation_map sv) = 4096
     \<and> bs_size (allocation_map sv) = serve_size sv \<and> length (file_map sv) = unat (serve_size sv)"

definition unmarked :: "writer \<Rightarrow> nat \<Rightarrow> bool" where
  "unmarked w p \<longleftrightarrow> unat (w_from w) \<le> p \<and> p < unat (w_from w) + stored (w_phase w)"

text \<open>A thread that loses its client while it reads leaves no trace if the map knows the bytes it has stored.\<close>

definition harmless :: "server \<Rightarrow> writer \<Rightarrow> bool" where
  "harmless sv w \<longleftrightarrow> (\<forall>p < unat (serve_size sv). unmarked w p \<longrightarrow> bs_bit (allocation_map sv) p)"

fun reading :: "write_phase \<Rightarrow> bool" where
  "reading (Direct run k) = True"
| "reading (Blocks run) = True"
| "reading _ = False"

inductive write_step :: "(server \<Rightarrow> writer \<Rightarrow> bool) \<Rightarrow> writing \<Rightarrow> writing \<Rightarrow> bool" for may_lose where
  begins: "writers s i = None \<Longrightarrow> length data < 2 ^ 32 \<Longrightarrow> unat from + length data \<le> unat (serve_size (wserve s)) \<Longrightarrow>
    (\<forall>j w p. writers s j = Some w \<longrightarrow> owns w p \<longrightarrow> \<not> owns (new_writer from data) p) \<Longrightarrow>
    write_step may_lose s (s\<lparr>writers := (writers s)(i \<mapsto> new_writer from data)\<rparr>)"
| acts: "writers s i = Some w \<Longrightarrow> writer_step (wserve s) w sv' w' \<Longrightarrow>
    write_step may_lose s (s\<lparr>wserve := sv', writers := (writers s)(i \<mapsto> w')\<rparr>)"
| answers: "writers s i = Some w \<Longrightarrow> w_phase w = Choose \<Longrightarrow> w_len w = 0 \<Longrightarrow>
    write_step may_lose s (s\<lparr>writers := (writers s)(i := None)\<rparr>)"
| loses_client: "writers s i = Some w \<Longrightarrow> reading (w_phase w) \<Longrightarrow> may_lose (wserve s) w \<Longrightarrow>
    write_step may_lose s (s\<lparr>writers := (writers s)(i := None)\<rparr>)"
| mirror_reads: "bits bs = bits (allocation_map (wserve s)) \<Longrightarrow> bs_size bs = bs_size (allocation_map (wserve s)) \<Longrightarrow>
    resolution bs = resolution (allocation_map (wserve s)) \<Longrightarrow> wf_bitset bs \<Longrightarrow>
    write_step may_lose s (s\<lparr>wserve := (wserve s)\<lparr>allocation_map := bs\<rparr>\<rparr>)"

subsection \<open>What each thread can rely on\<close>

definition zero_run :: "server \<Rightarrow> nat \<Rightarrow> nat \<Rightarrow> bool" where
  "zero_run sv a b \<longleftrightarrow> (\<forall>p. a \<le> p \<and> p < b \<longrightarrow> file_map sv ! p = 0)"

definition set_run :: "server \<Rightarrow> nat \<Rightarrow> nat \<Rightarrow> bool" where
  "set_run sv a b \<longleftrightarrow> (\<forall>p. a \<le> p \<and> p < b \<longrightarrow> bs_bit (allocation_map sv) p)"

definition block_of :: "writer \<Rightarrow> u64 \<Rightarrow> byte list" where
  "block_of w run = take (unat (blockrun_at (w_from w) run)) (pending_data w)"

fun phase_ok :: "server \<Rightarrow> writer \<Rightarrow> write_phase \<Rightarrow> bool" where
  "phase_ok sv w Choose = True"
| "phase_ok sv w (Counted run) = (0 < unat run \<and> unat run \<le> unat (w_len w)
     \<and> (set_run sv (unat (w_from w)) (unat (w_from w) + unat run) \<or> zero_run sv (unat (w_from w)) (unat (w_from w) + unat run)))"
| "phase_ok sv w (Direct run k) = (0 < unat run \<and> unat run \<le> unat (w_len w) \<and> k \<le> unat run)"
| "phase_ok sv w (Blocks run) = (unat run \<le> unat (w_len w) \<and> zero_run sv (unat (w_from w)) (unat (w_from w) + unat run))"
| "phase_ok sv w (Block run zb) = (0 < unat run \<and> unat run \<le> unat (w_len w) \<and> zb = block_of w run
     \<and> zero_run sv (unat (w_from w)) (unat (w_from w) + unat run))"
| "phase_ok sv w (Storing run zb k) = (0 < unat run \<and> unat run \<le> unat (w_len w) \<and> zb = block_of w run \<and> k \<le> length zb
     \<and> zero_run sv (unat (w_from w) + k) (unat (w_from w) + unat run))"

definition writer_ok :: "server \<Rightarrow> writer \<Rightarrow> bool" where
  "writer_ok sv w \<longleftrightarrow>
     unat (rq_at w) + length (payload w) \<le> unat (serve_size sv) \<and> unat (rq_at w) \<le> unat (w_from w)
     \<and> unat (w_from w) + unat (w_len w) = unat (rq_at w) + length (payload w)
     \<and> (\<forall>p. unat (rq_at w) \<le> p \<and> p < unat (w_from w) + stored (w_phase w) \<longrightarrow>
          file_map sv ! p = payload w ! (p - unat (rq_at w)))
     \<and> phase_ok sv w (w_phase w)"

definition own_sparse :: "server \<Rightarrow> writer \<Rightarrow> bool" where
  "own_sparse sv w \<longleftrightarrow> (\<forall>p. owns w p \<and> \<not> bs_bit (allocation_map sv) p \<and> unat (w_from w) + stored (w_phase w) \<le> p \<longrightarrow>
     file_map sv ! p = 0)"

lemma length_pending_data: "writer_ok sv w \<Longrightarrow> length (pending_data w) = unat (w_len w)"
  by (simp add: writer_ok_def pending_data_def)

lemma pending_data_nth:
  assumes "writer_ok sv w" "q < unat (w_len w)"
  shows "pending_data w ! q = payload w ! (unat (w_from w) + q - unat (rq_at w))"
proof -
  have "length (payload w) - unat (w_len w) + q = unat (w_from w) + q - unat (rq_at w)" "length (payload w) - unat (w_len w) + q < length (payload w)"
    using assms by (auto simp: writer_ok_def)
  then show ?thesis by (simp add: pending_data_def)
qed

lemma block_length:
  assumes "writer_ok sv w" "0 < unat run" "unat run \<le> unat (w_len w)"
  shows "length (block_of w run) = unat (blockrun_at (w_from w) run)" "0 < length (block_of w run)" "length (block_of w run) \<le> unat run"
  using blockrun_split(1,2) [OF assms(2) refl, of "w_from w"] length_pending_data [OF assms(1)] assms(3) by (simp_all add: block_of_def)

lemma phase_ok_bound: "phase_ok sv w ph \<Longrightarrow> writer_ok sv w \<Longrightarrow> stored ph \<le> unat (w_len w)"
proof (cases ph)
  case (Storing run zb k)
  assume "phase_ok sv w ph" "writer_ok sv w"
  with Storing block_length(3) [of sv w run] show ?thesis by auto
qed auto

text \<open>What others do elsewhere in the file, and bits that become set, do not disturb a thread.\<close>

lemma writer_ok_stable:
  assumes ok: "writer_ok sv w" and sz: "serve_size sv' = serve_size sv"
    and same: "\<forall>p. owns w p \<longrightarrow> file_map sv' ! p = file_map sv ! p" and grow: "bits_grow sv sv'"
  shows "writer_ok sv' w"
proof -
  note o = ok [unfolded writer_ok_def]
  have own: "owns w p" if "unat (w_from w) \<le> p" "p < unat (w_from w) + unat (w_len w)" for p
    using o that by (auto simp: owns_def)
  have z: "zero_run sv' a b" if "zero_run sv a b" "unat (w_from w) \<le> a" "b \<le> unat (w_from w) + unat (w_len w)" for a b
    using that own same by (fastforce simp: zero_run_def)
  have g: "set_run sv' a b" if "set_run sv a b" "b \<le> unat (w_from w) + unat (w_len w)" for a b
    using that grow o by (fastforce simp: set_run_def bits_grow_def)
  have "phase_ok sv' w (w_phase w)"
  proof (cases "w_phase w")
    case (Counted run)
    with o have c: "unat run \<le> unat (w_len w)" "set_run sv (unat (w_from w)) (unat (w_from w) + unat run)
        \<or> zero_run sv (unat (w_from w)) (unat (w_from w) + unat run)" by simp_all
    from c(2) have "set_run sv' (unat (w_from w)) (unat (w_from w) + unat run)
        \<or> zero_run sv' (unat (w_from w)) (unat (w_from w) + unat run)"
      using g z c(1) by auto
    with o Counted show ?thesis by simp
  qed (use o z in auto)
  moreover have "file_map sv' ! p = payload w ! (p - unat (rq_at w))"
    if "unat (rq_at w) \<le> p" "p < unat (w_from w) + stored (w_phase w)" for p
  proof -
    have "stored (w_phase w) \<le> unat (w_len w)" using o by (intro phase_ok_bound [OF _ ok]) blast
    then have "owns w p" using that o by (auto simp: owns_def)
    then show ?thesis using o same that by auto
  qed
  ultimately show ?thesis using o sz by (simp add: writer_ok_def)
qed

subsection \<open>What each step does\<close>

definition step_effect :: "server \<Rightarrow> writer \<Rightarrow> server \<Rightarrow> writer \<Rightarrow> bool" where
  "step_effect sv w sv' w' \<longleftrightarrow>
     srv_shape sv' \<and> serve_size sv' = serve_size sv \<and> writer_ok sv' w' \<and> rq_at w' = rq_at w \<and> payload w' = payload w
     \<and> bits_grow sv sv'
     \<and> (\<forall>p < unat (serve_size sv). unmarked w p \<longrightarrow> unmarked w' p \<or> bs_bit (allocation_map sv') p)
     \<and> (\<forall>p. file_map sv' ! p \<noteq> file_map sv ! p \<longrightarrow> unmarked w' p)"

lemma bits_grow_refl [simp]: "bits_grow sv sv"
  by (simp add: bits_grow_def)

lemma phase_change:
  assumes "srv_shape sv" "writer_ok sv w" "stored ph = stored (w_phase w)" "phase_ok sv (w\<lparr>w_phase := ph\<rparr>) ph"
  shows "step_effect sv w sv (w\<lparr>w_phase := ph\<rparr>)"
  using assms by (auto simp: step_effect_def writer_ok_def unmarked_def)

lemma sets_range_effect:
  assumes sh: "srv_shape sv" and n: "0 < unat n" "unat from + unat n \<le> unat (serve_size sv)" and st: "sets_range sv from n waits sv'"
  shows "srv_shape sv'" "serve_size sv' = serve_size sv" "file_map sv' = file_map sv" "bits_grow sv sv'"
    "set_run sv' (unat from) (unat from + unat n)"
proof -
  let ?bs = "allocation_map sv"
  have wf: "wf_bitset ?bs" "bs_size ?bs = serve_size sv" using sh by (simp_all add: srv_shape_def)
  have le: "unat from + unat n \<le> unat (bs_size ?bs)" using n wf by simp
  obtain bs where bs: "sv' = sv\<lparr>allocation_map := bs\<rparr>" "range_effect True BITSET_STREAM_SET ?bs from n bs"
    using bitset_set_range_spec [OF wf(1) n(1) wf(1) n(1) le] st unfolding sets_range.simps by (auto split: if_splits)
  then have eff: "wf_bitset bs" "same_shape ?bs bs"
    "\<And>p. p < unat (serve_size sv) \<Longrightarrow> bs_bit bs p \<longleftrightarrow> in_chunks ?bs (unat from) (unat n) p \<or> bs_bit ?bs p"
    using wf(2) by (auto simp: range_effect_def)
  show "srv_shape sv'" "serve_size sv' = serve_size sv" "file_map sv' = file_map sv"
    using sh eff(1,2) bs(1) by (simp_all add: srv_shape_def same_shapeD)
  show "bits_grow sv sv'" using eff(3) bs(1) by (simp add: bits_grow_def)
  show "set_run sv' (unat from) (unat from + unat n)"
    using eff(3) n(2) in_chunks_cover [of "unat from" _ "unat n"] bs(1) by (simp add: set_run_def)
qed

text \<open>Bytes of the payload go to their place in the file.\<close>

lemma store_effect:
  assumes sh: "srv_shape sv" and ok: "writer_ok sv w" and k: "k = stored (w_phase w)" and n: "k + n \<le> unat (w_len w)"
    and m: "mem_write (unat (w_from w) + k) (take n (drop k (pending_data w))) (file_map sv) = Some m"
    and ph: "stored ph = k + n" "phase_ok (sv\<lparr>file_map := m\<rparr>) (w\<lparr>w_phase := ph\<rparr>) ph"
  shows "step_effect sv w (sv\<lparr>file_map := m\<rparr>) (w\<lparr>w_phase := ph\<rparr>)"
proof -
  let ?d = "take n (drop k (pending_data w))" and ?a = "unat (w_from w)"
  note o = ok [unfolded writer_ok_def]
  have ld: "length ?d = n" using n length_pending_data [OF ok] by simp
  have lm: "length m = length (file_map sv)" using m by (auto simp: mem_write.simps split: if_splits)
  have new: "m ! p = payload w ! (p - unat (rq_at w))" if p: "unat (rq_at w) \<le> p" "p < ?a + (k + n)" for p
  proof -
    have pl: "p < length (file_map sv)" using p n o sh by (simp add: srv_shape_def)
    show ?thesis
    proof (cases "?a + k \<le> p")
      case False
      then have "m ! p = file_map sv ! p" using mem_write_nth [OF m pl] by simp
      then show ?thesis using o p False k by simp
    next
      case True
      then have "m ! p = ?d ! (p - (?a + k))" using mem_write_nth [OF m pl] p ld by simp
      also have "\<dots> = pending_data w ! (p - ?a)" using True p n length_pending_data [OF ok] by simp
      also have "\<dots> = payload w ! (p - unat (rq_at w))" using pending_data_nth [OF ok, of "p - ?a"] True p n by simp
      finally show ?thesis .
    qed
  qed
  have "\<forall>p. m ! p \<noteq> file_map sv ! p \<longrightarrow> ?a \<le> p \<and> p < ?a + (k + n)"
    using mem_write_change [OF m] ld by (metis add.assoc add_leD1 )
  moreover have "writer_ok (sv\<lparr>file_map := m\<rparr>) (w\<lparr>w_phase := ph\<rparr>)"
    using o ph new by (simp add: writer_ok_def)
  moreover have "srv_shape (sv\<lparr>file_map := m\<rparr>)" using sh lm by (simp add: srv_shape_def)
  ultimately show ?thesis using ph(1) k by (auto simp: step_effect_def unmarked_def bits_grow_def)
qed

text \<open>The thread moves on over bytes that are in the file already.\<close>

lemma advance_effect:
  assumes sh: "srv_shape sv'" and ok: "writer_ok sv w" and sv: "serve_size sv' = serve_size sv" "file_map sv' = file_map sv" "bits_grow sv sv'"
    and n: "unat n \<le> unat (w_len w)" and ph: "stored ph = 0"
      "phase_ok sv' (w\<lparr>w_from := w_from w + n, w_len := w_len w - n, w_phase := ph\<rparr>) ph"
    and here: "\<forall>p. unat (w_from w) \<le> p \<and> p < unat (w_from w) + unat n \<longrightarrow> file_map sv ! p = payload w ! (p - unat (rq_at w))"
    and marked: "\<forall>p < unat (serve_size sv). unmarked w p \<longrightarrow> bs_bit (allocation_map sv') p"
  shows "step_effect sv w sv' (w\<lparr>w_from := w_from w + n, w_len := w_len w - n, w_phase := ph\<rparr>)"
proof -
  note o = ok [unfolded writer_ok_def]
  have "unat (w_from w) + unat n \<le> unat (serve_size sv)" using o n by linarith
  then have "unat (w_from w) + unat n < 2 ^ 64" by (rule order_le_less_trans) simp
  then have f: "unat (w_from w + n) = unat (w_from w) + unat n" by (rule unat_add_u64)
  have l: "unat (w_len w - n) = unat (w_len w) - unat n" using n by (rule unat_sub_u64)
  have "file_map sv ! p = payload w ! (p - unat (rq_at w))" if "unat (rq_at w) \<le> p" "p < unat (w_from w) + unat n" for p
    using here o that by (cases "unat (w_from w) \<le> p") auto
  then have "writer_ok sv' (w\<lparr>w_from := w_from w + n, w_len := w_len w - n, w_phase := ph\<rparr>)"
    using o f l n ph sv by (simp add: writer_ok_def)
  then show ?thesis using sh sv marked by (simp add: step_effect_def)
qed

lemma counts_effect:
  assumes sh: "srv_shape sv" and ok: "writer_ok sv w" and sp: "own_sparse sv w" and ph: "w_phase w = Choose" and len: "0 < w_len w"
    and c: "bitset_run_count (allocation_map sv) (w_from w) (w_len w) = Some run0" "run = (if run0 > w_len w then w_len w else run0)"
  shows "step_effect sv w sv (w\<lparr>w_phase := Counted run\<rparr>)"
proof -
  let ?bs = "allocation_map sv" and ?a = "unat (w_from w)"
  note o = ok [unfolded writer_ok_def]
  have wf: "wf_bitset ?bs" "bs_size ?bs = serve_size sv" using sh by (simp_all add: srv_shape_def)
  have l: "0 < unat (w_len w)" using len by (simp add: word_less_nat_alt)
  have le: "?a + unat (w_len w) \<le> unat (serve_size sv)" using o by simp
  then have "?a + unat (w_len w) < 2 ^ 64" by (rule order_le_less_trans) simp
  moreover have "?a < unat (bs_size ?bs)" using le l wf(2) by simp
  ultimately obtain r where r: "bitset_run_count_ex ?bs (w_from w) (w_len w) = Some (r, Some (of_bool (bs_bit ?bs ?a)))" "0 < unat r"
    "\<forall>q. ?a \<le> q \<and> q < ?a + unat r \<longrightarrow> bs_bit ?bs q = bs_bit ?bs ?a"
    using bitset_run_count_ex_spec [OF wf(1) _ l] by metis
  have "r = run0" using bitset_run_count_eq [OF r(1)] c(1) by simp
  then have run: "0 < unat run" "unat run \<le> unat (w_len w)" "unat run \<le> unat r"
    using c(2) r(2) l by (auto simp: word_less_nat_alt)
  have "set_run sv ?a (?a + unat run) \<or> zero_run sv ?a (?a + unat run)"
  proof (cases "bs_bit ?bs ?a")
    case True
    then have "set_run sv ?a (?a + unat run)" using r(3) run(3) by (auto simp: set_run_def)
    then show ?thesis ..
  next
    case False
    then have "file_map sv ! p = 0" if "?a \<le> p" "p < ?a + unat run" for p
    proof -
      have "owns w p" using that run o by (simp add: owns_def)
      moreover have "\<not> bs_bit ?bs p" using r(3) run(3) that False by simp
      ultimately show ?thesis using sp ph that by (simp add: own_sparse_def)
    qed
    then show ?thesis by (simp add: zero_run_def)
  qed
  then show ?thesis using run ph by (intro phase_change [OF sh ok]) (simp_all add: set_run_def zero_run_def)
qed

lemma finds_clear_effect:
  assumes sh: "srv_shape sv" and ok: "writer_ok sv w" and ph: "w_phase w = Counted run"
    and c: "bitset_is_set_at (allocation_map sv) (w_from w) = Some 0"
  shows "step_effect sv w sv (w\<lparr>w_phase := Blocks run\<rparr>)"
proof -
  let ?bs = "allocation_map sv" and ?a = "unat (w_from w)"
  note o = ok [unfolded writer_ok_def ph phase_ok.simps]
  have "wf_bitset ?bs" "bs_size ?bs = serve_size sv" "?a < unat (serve_size sv)" using sh o by (simp_all add: srv_shape_def)
  then have "\<not> bs_bit ?bs ?a" using c bitset_is_set_at_eq [of ?bs "w_from w"] by simp
  then have "\<not> set_run sv ?a (?a + unat run)" using o by (auto simp: set_run_def)
  then have "zero_run sv ?a (?a + unat run)" using o by blast
  then show ?thesis using o ph by (intro phase_change [OF sh ok]) (simp_all add: zero_run_def)
qed

text \<open>Where the block in \<open>zerobuffer\<close> belongs.\<close>

lemma block_of_nth:
  assumes "writer_ok sv w" "0 < unat run" "unat run \<le> unat (w_len w)" "q < length (block_of w run)"
  shows "block_of w run ! q = payload w ! (unat (w_from w) + q - unat (rq_at w))"
  using block_length [OF assms(1-3)] pending_data_nth [OF assms(1), of q] assms by (simp add: block_of_def)

lemma block_left:
  assumes "writer_ok sv w" "0 < unat run" "unat run \<le> unat (w_len w)" "b = of_nat (length (block_of w run))"
  shows "unat b = length (block_of w run)" "unat (run - b) = unat run - length (block_of w run)"
    "unat (w_from w + b) = unat (w_from w) + length (block_of w run)" "unat (w_len w - b) = unat (w_len w) - length (block_of w run)"
proof -
  have b: "b = blockrun_at (w_from w) run" using block_length(1) [OF assms(1-3)] assms(4) by simp
  then show ub: "unat b = length (block_of w run)" using block_length(1) [OF assms(1-3)] by simp
  then have le: "unat b \<le> unat run" using block_length(3) [OF assms(1-3)] by simp
  with ub show "unat (run - b) = unat run - length (block_of w run)" by (simp add: unat_sub_u64)
  from le have "unat b \<le> unat (w_len w)" using assms(3) by simp
  with ub show "unat (w_len w - b) = unat (w_len w) - length (block_of w run)" by (simp add: unat_sub_u64)
  have "unat (w_from w) + unat b \<le> unat (serve_size sv)" using assms(1) le assms(3) by (simp add: writer_ok_def)
  then have "unat (w_from w) + unat b < 2 ^ 64" by (rule order_le_less_trans) simp
  with ub show "unat (w_from w + b) = unat (w_from w) + length (block_of w run)" by (simp add: unat_add_u64)
qed

lemma skips_zeros_effect:
  assumes sh: "srv_shape sv" and ok: "writer_ok sv w" and ph: "w_phase w = Block run zb" and z: "all_zeros zb" and b: "b = of_nat (length zb)"
  shows "step_effect sv w sv (w\<lparr>w_from := w_from w + b, w_len := w_len w - b, w_phase := Blocks (run - b)\<rparr>)"
proof -
  note o = ok [unfolded writer_ok_def ph phase_ok.simps]
  have run: "0 < unat run" "unat run \<le> unat (w_len w)" and zb: "zb = block_of w run" using o by blast+
  note bl = block_length [OF ok run] and nth = block_of_nth [OF ok run] and lft = block_left [OF ok run b [unfolded zb]]
  have ne: "zb \<noteq> []" using bl(2) zb by auto
  have here: "file_map sv ! p = payload w ! (p - unat (rq_at w))" if p: "unat (w_from w) \<le> p" "p < unat (w_from w) + unat b" for p
  proof -
    have "block_of w run ! (p - unat (w_from w)) = 0" using z all_zeros_iff [OF ne] p lft(1) zb by simp
    moreover have "file_map sv ! p = 0" using o p lft(1) bl(3) by (auto simp: zero_run_def)
    ultimately show ?thesis using nth [of "p - unat (w_from w)"] p lft(1) by simp
  qed
  show ?thesis
  proof (rule advance_effect [OF sh ok])
    show "phase_ok sv (w\<lparr>w_from := w_from w + b, w_len := w_len w - b, w_phase := Blocks (run - b)\<rparr>) (Blocks (run - b))"
      using o lft bl by (auto simp: zero_run_def)
    show "unat b \<le> unat (w_len w)" using lft(1) bl(3) run by simp
  qed (use here ph in \<open>auto simp: unmarked_def\<close>)
qed

lemma marks_effect:
  assumes sh: "srv_shape sv" and ok: "writer_ok sv w" and n: "0 < unat n" "unat n = stored (w_phase w)"
    and st: "sets_range sv (w_from w) n False sv'" and ph: "stored ph = 0"
      "phase_ok sv (w\<lparr>w_from := w_from w + n, w_len := w_len w - n, w_phase := ph\<rparr>) ph" "\<And>run. ph \<noteq> Counted run"
  shows "step_effect sv w sv' (w\<lparr>w_from := w_from w + n, w_len := w_len w - n, w_phase := ph\<rparr>)"
proof -
  note o = ok [unfolded writer_ok_def]
  have le: "unat n \<le> unat (w_len w)" using o n(2) by (simp add: phase_ok_bound [OF _ ok])
  then have "unat (w_from w) + unat n \<le> unat (serve_size sv)" using o by simp
  note e = sets_range_effect [OF sh n(1) this st]
  show ?thesis
  proof (rule advance_effect [OF e(1) ok e(2,3,4) le ph(1)])
    show "phase_ok sv' (w\<lparr>w_from := w_from w + n, w_len := w_len w - n, w_phase := ph\<rparr>) ph"
      using ph(2) ph(3) [THEN notE] e(3) by (cases ph) (auto simp: zero_run_def block_of_def pending_data_def)
    show "\<forall>p < unat (serve_size sv). unmarked w p \<longrightarrow> bs_bit (allocation_map sv') p"
      using e(5) n(2) by (simp add: unmarked_def set_run_def)
  qed (use o n(2) in auto)
qed

lemma copies_effect:
  assumes sh: "srv_shape sv" and ok: "writer_ok sv w" and ph: "w_phase w = Storing run zb k" and n: "k + n \<le> length zb"
    and m: "mem_write (unat (w_from w) + k) (take n (drop k zb)) (file_map sv) = Some m"
  shows "step_effect sv w (sv\<lparr>file_map := m\<rparr>) (w\<lparr>w_phase := Storing run zb (k + n)\<rparr>)"
proof -
  note o = ok [unfolded writer_ok_def ph phase_ok.simps]
  have run: "0 < unat run" "unat run \<le> unat (w_len w)" and zb: "zb = block_of w run" using o by blast+
  note bl = block_length [OF ok run]
  have kn: "k + n \<le> unat (w_len w)" using n bl(3) run zb by simp
  have ld: "length (take n (drop k zb)) = n" using n by simp
  have "take n (drop k zb) = take n (drop k (pending_data w))"
    using n bl(1) by (simp add: zb block_of_def drop_take min_def)
  note m' = m [unfolded this]
  have "m ! p = 0" if p: "unat (w_from w) + (k + n) \<le> p" "p < unat (w_from w) + unat run" for p
  proof -
    have "p < length (file_map sv)" using p o sh by (simp add: srv_shape_def)
    then have "m ! p = file_map sv ! p" using mem_write_nth [OF m] ld p by simp
    then show ?thesis using o p by (simp add: zero_run_def)
  qed
  then have "phase_ok (sv\<lparr>file_map := m\<rparr>) (w\<lparr>w_phase := Storing run zb (k + n)\<rparr>) (Storing run zb (k + n))"
    using o n by (simp add: zero_run_def block_of_def pending_data_def)
  then show ?thesis using ph kn by (intro store_effect [OF sh ok _ _ m']) simp_all
qed

lemma waits_effect:
  assumes sh: "srv_shape sv" and ok: "writer_ok sv w" and n: "stored (w_phase w) = stores (w_phase w)" "0 < stores (w_phase w)"
    and st: "sets_range sv (w_from w) (of_nat (stores (w_phase w))) True sv'"
  shows "step_effect sv w sv' w"
proof -
  let ?n = "of_nat (stores (w_phase w)) :: u64"
  note o = ok [unfolded writer_ok_def]
  have "stored (w_phase w) \<le> unat (w_len w)" using o by (intro phase_ok_bound [OF _ ok]) blast
  then have le: "unat (w_from w) + stores (w_phase w) \<le> unat (serve_size sv)" using o n by simp
  have "stores (w_phase w) \<le> unat (serve_size sv)" using le by simp
  then have "stores (w_phase w) < 2 ^ 64" by (rule order_le_less_trans) simp
  then have u: "unat ?n = stores (w_phase w)" by (simp add: unat_of_nat take_bit_nat_eq_self)
  note e = sets_range_effect [OF sh _ _ st, unfolded u, OF n(2) le]
  have "writer_ok sv' w" using e by (intro writer_ok_stable [OF ok]) simp_all
  then show ?thesis using e by (simp add: step_effect_def)
qed

lemma writer_step_ok:
  assumes "writer_step sv w sv' w'" and sh: "srv_shape sv" and ok: "writer_ok sv w" and sp: "own_sparse sv w"
  shows "step_effect sv w sv' w'"
  using assms(1)
proof cases
  case (counts run0 run)
  with counts_effect [OF sh ok sp] show ?thesis by simp
next
  case (finds_set run b)
  then have "0 < unat run \<and> unat run \<le> unat (w_len w)" using ok by (simp add: writer_ok_def)
  then show ?thesis using finds_set by (auto intro: phase_change [OF sh ok])
next
  case (finds_clear run)
  with finds_clear_effect [OF sh ok] show ?thesis by simp
next
  case (reads_through run k n m)
  then have "0 < unat run \<and> unat run \<le> unat (w_len w)" using ok by (simp add: writer_ok_def)
  then show ?thesis unfolding reads_through(1,2) using reads_through by (intro store_effect [OF sh ok]) auto
next
  case (marks_run run k)
  then have "0 < unat run" using ok by (simp add: writer_ok_def)
  with marks_run show ?thesis by (auto intro: marks_effect [OF sh ok])
next
  case (reads_block run)
  then have "0 < unat run" by (simp add: word_less_nat_alt)
  then show ?thesis using reads_block ok
    by (auto intro!: phase_change [OF sh ok] simp: block_of_def pending_data_def writer_ok_def zero_run_def)
next
  case blocks_done
  then show ?thesis by (auto intro!: phase_change [OF sh ok])
next
  case (skips_zeros run zb b)
  with skips_zeros_effect [OF sh ok] show ?thesis by simp
next
  case (takes_block run zb)
  then show ?thesis using ok
    by (auto intro!: phase_change [OF sh ok] simp: block_of_def pending_data_def writer_ok_def zero_run_def)
next
  case (copies run zb k n m)
  with copies_effect [OF sh ok] show ?thesis by simp
next
  case (marks_block run zb k b)
  note ok' = ok [unfolded writer_ok_def marks_block(2,3) phase_ok.simps]
  have o: "0 < unat run" "unat run \<le> unat (w_len w)" "zb = block_of w run"
    "zero_run sv (unat (w_from w) + length zb) (unat (w_from w) + unat run)" using ok' by blast+
  note lft = block_left [OF ok o(1,2), of b] and bl = block_length [OF ok o(1,2)]
  have "b = of_nat (length (block_of w run))" using marks_block o(3) by simp
  note lft = lft [OF this]
  show ?thesis unfolding marks_block(1)
  proof (rule marks_effect [OF sh ok _ _ marks_block(5)])
    show "phase_ok sv (w\<lparr>w_from := w_from w + b, w_len := w_len w - b, w_phase := Blocks (run - b)\<rparr>) (Blocks (run - b))"
      using o lft bl by simp
  qed (use marks_block(2,3) lft(1) bl(2) o(3) in simp_all)
next
  case waits_for_mirror
  with waits_effect [OF sh ok] show ?thesis by simp
qed

subsection \<open>What holds between the steps\<close>

definition sparse_but :: "writing \<Rightarrow> bool" where
  "sparse_but s \<longleftrightarrow> (\<forall>p < unat (serve_size (wserve s)). \<not> bs_bit (allocation_map (wserve s)) p \<longrightarrow>
     file_map (wserve s) ! p = 0 \<or> (\<exists>i w. writers s i = Some w \<and> unmarked w p))"

definition apart :: "writing \<Rightarrow> bool" where
  "apart s \<longleftrightarrow> (\<forall>i j w v p. writers s i = Some w \<and> writers s j = Some v \<and> i \<noteq> j \<and> owns w p \<longrightarrow> \<not> owns v p)"

definition writers_inv :: "writing \<Rightarrow> bool" where
  "writers_inv s \<longleftrightarrow> srv_shape (wserve s) \<and> (\<forall>i w. writers s i = Some w \<longrightarrow> writer_ok (wserve s) w) \<and> apart s \<and> sparse_but s"

definition writers_init :: "writing \<Rightarrow> bool" where
  "writers_init s \<longleftrightarrow> srv_ok (wserve s) \<and> writers s = (\<lambda>_. None)"

lemma unmarked_owned:
  assumes "writer_ok sv w" "unmarked w p"
  shows "owns w p"
proof -
  have "stored (w_phase w) \<le> unat (w_len w)" using assms(1) phase_ok_bound [OF _ assms(1)] by (simp add: writer_ok_def)
  then show ?thesis using assms by (auto simp: writer_ok_def unmarked_def owns_def)
qed

lemma own_sparse_of_inv:
  assumes inv: "writers_inv s" and w: "writers s i = Some w"
  shows "own_sparse (wserve s) w"
  unfolding own_sparse_def
proof (intro allI impI, elim conjE)
  fix p assume p: "owns w p" "\<not> bs_bit (allocation_map (wserve s)) p" "unat (w_from w) + stored (w_phase w) \<le> p"
  have ok: "writer_ok (wserve s) v" if "writers s j = Some v" for j v using inv that by (simp add: writers_inv_def)
  have "p < unat (serve_size (wserve s))" using p(1) ok [OF w] by (auto simp: owns_def writer_ok_def)
  moreover have "\<not> unmarked v p" if v: "writers s j = Some v" for j v
  proof (cases "j = i")
    case True
    with v w p(3) show ?thesis by (simp add: unmarked_def)
  next
    case False
    then have "\<not> owns v p" using inv v w p(1) by (auto simp: writers_inv_def apart_def)
    then show ?thesis using unmarked_owned [OF ok [OF v]] by blast
  qed
  ultimately show "file_map (wserve s) ! p = 0" using inv p(2) by (auto simp: writers_inv_def sparse_but_def)
qed

lemma acts_inv:
  assumes inv: "writers_inv s" and w: "writers s i = Some w" and st: "writer_step (wserve s) w sv' w'"
  shows "writers_inv (s\<lparr>wserve := sv', writers := (writers s)(i \<mapsto> w')\<rparr>)"
proof -
  let ?sv = "wserve s"
  have sh: "srv_shape ?sv" and ok: "\<And>j v. writers s j = Some v \<Longrightarrow> writer_ok ?sv v" and ap: "apart s" and sb: "sparse_but s"
    using inv by (simp_all add: writers_inv_def)
  note e = writer_step_ok [OF st sh ok [OF w] own_sparse_of_inv [OF inv w], unfolded step_effect_def]
  have own: "owns w' p = owns w p" for p using e by (simp add: owns_def)
  have ok': "writer_ok sv' w'" using e by blast
  have other: "writer_ok sv' v" if v: "writers s j = Some v" "j \<noteq> i" for j v
  proof (rule writer_ok_stable [OF ok [OF v(1)]])
    show "\<forall>p. owns v p \<longrightarrow> file_map sv' ! p = file_map ?sv ! p"
      using e unmarked_owned [OF ok'] own ap w v unfolding apart_def by metis
  qed (use e in blast)+
  have "apart (s\<lparr>wserve := sv', writers := (writers s)(i \<mapsto> w')\<rparr>)"
    using ap w own by (auto simp: apart_def)
  moreover have "sparse_but (s\<lparr>wserve := sv', writers := (writers s)(i \<mapsto> w')\<rparr>)"
    unfolding sparse_but_def
  proof (intro allI impI)
    fix p assume "p < unat (serve_size (wserve (s\<lparr>wserve := sv', writers := (writers s)(i \<mapsto> w')\<rparr>)))"
      "\<not> bs_bit (allocation_map (wserve (s\<lparr>wserve := sv', writers := (writers s)(i \<mapsto> w')\<rparr>))) p"
    then have p: "p < unat (serve_size ?sv)" "\<not> bs_bit (allocation_map sv') p" using e by auto
    then have nb: "\<not> bs_bit (allocation_map ?sv) p" using e by (auto simp: bits_grow_def)
    consider "unmarked w' p" | "file_map sv' ! p = file_map ?sv ! p" "\<not> unmarked w p" using e p by blast
    then show "file_map (wserve (s\<lparr>wserve := sv', writers := (writers s)(i \<mapsto> w')\<rparr>)) ! p = 0
        \<or> (\<exists>j v. writers (s\<lparr>wserve := sv', writers := (writers s)(i \<mapsto> w')\<rparr>) j = Some v \<and> unmarked v p)"
    proof cases
      case 1
      then show ?thesis by (intro disjI2 exI [of _ i] exI [of _ w']) simp
    next
      case 2
      with sb p(1) nb consider "file_map sv' ! p = 0" | j v where "writers s j = Some v" "unmarked v p" "j \<noteq> i"
        using w unfolding sparse_but_def by (metis option.inject)
      then show ?thesis by cases auto
    qed
  qed
  ultimately show ?thesis using e ok' other by (simp add: writers_inv_def)
qed

lemma new_writer_inv:
  assumes inv: "writers_inv s" and free: "writers s i = None" and len: "length data < 2 ^ 32"
    and le: "unat from + length data \<le> unat (serve_size (wserve s))"
    and d: "\<forall>j w p. writers s j = Some w \<longrightarrow> owns w p \<longrightarrow> \<not> owns (new_writer from data) p"
  shows "writers_inv (s\<lparr>writers := (writers s)(i \<mapsto> new_writer from data)\<rparr>)"
proof -
  have "length data < 2 ^ 64" using len by (rule order_less_trans) simp
  then have "unat (of_nat (length data) :: u64) = length data" by (simp add: unat_of_nat take_bit_nat_eq_self)
  then have "writer_ok (wserve s) (new_writer from data)" using le by (auto simp: writer_ok_def new_writer_def)
  moreover have "apart (s\<lparr>writers := (writers s)(i \<mapsto> new_writer from data)\<rparr>)"
    using inv d unfolding writers_inv_def apart_def by auto
  moreover have "sparse_but (s\<lparr>writers := (writers s)(i \<mapsto> new_writer from data)\<rparr>)"
    using inv free unfolding writers_inv_def sparse_but_def by simp (metis option.distinct(1))
  ultimately show ?thesis using inv by (simp add: writers_inv_def)
qed

lemma leaves_inv:
  assumes inv: "writers_inv s" and w: "writers s i = Some w" and h: "harmless (wserve s) w"
  shows "writers_inv (s\<lparr>writers := (writers s)(i := None)\<rparr>)"
proof -
  have "apart (s\<lparr>writers := (writers s)(i := None)\<rparr>)" using inv by (auto simp: writers_inv_def apart_def)
  moreover have "sparse_but (s\<lparr>writers := (writers s)(i := None)\<rparr>)"
    using inv w h unfolding writers_inv_def sparse_but_def harmless_def by simp (metis option.inject)
  ultimately show ?thesis using inv by (simp add: writers_inv_def)
qed

lemma mirror_reads_inv:
  assumes inv: "writers_inv s" and b: "bits bs = bits (allocation_map (wserve s))" "bs_size bs = bs_size (allocation_map (wserve s))"
    "resolution bs = resolution (allocation_map (wserve s))" "wf_bitset bs"
  shows "writers_inv (s\<lparr>wserve := (wserve s)\<lparr>allocation_map := bs\<rparr>\<rparr>)"
proof -
  have bit: "bs_bit bs p = bs_bit (allocation_map (wserve s)) p" for p using b by (simp add: bs_bit_def res64_def)
  have "writer_ok ((wserve s)\<lparr>allocation_map := bs\<rparr>) w" if "writers s i = Some w" for i w
  proof (rule writer_ok_stable [of "wserve s"])
    show "writer_ok (wserve s) w" using inv that by (simp add: writers_inv_def)
  qed (simp_all add: bits_grow_def bit)
  moreover have "srv_shape ((wserve s)\<lparr>allocation_map := bs\<rparr>)" using inv b by (simp add: writers_inv_def srv_shape_def res64_def)
  ultimately show ?thesis using inv bit by (simp add: writers_inv_def apart_def sparse_but_def)
qed

lemma write_step_inv: "writers_inv s \<Longrightarrow> write_step harmless s s' \<Longrightarrow> writers_inv s'"
proof (erule write_step.cases)
  fix t i w assume inv: "writers_inv s" and t: "s = t" "s' = t\<lparr>writers := (writers t)(i := None)\<rparr>" "writers t i = Some w" "w_phase w = Choose"
  then have "harmless (wserve t) w" by (auto simp: harmless_def unmarked_def)
  with leaves_inv [of t i w] inv t show "writers_inv s'" by simp
qed (auto intro: acts_inv new_writer_inv leaves_inv mirror_reads_inv)

lemma writers_init_inv: "writers_init s \<Longrightarrow> writers_inv s"
  by (auto simp: writers_init_def writers_inv_def srv_ok_def srv_shape_def apart_def sparse_but_def sparse_def)

interpretation wrt: step_invariant writers_init "write_step harmless" writers_inv
  by unfold_locales (auto intro: writers_init_inv write_step_inv)

subsection \<open>A thread left alone\<close>

abbreviation alone :: "server \<times> writer \<Rightarrow> server \<times> writer \<Rightarrow> bool" where
  "alone \<equiv> \<lambda>(sv, w) (sv', w'). writer_step sv w sv' w'"

text \<open>What is left of the payload is what the socket will deliver.\<close>

definition feeds :: "client \<Rightarrow> writer \<Rightarrow> bool" where
  "feeds c w \<longleftrightarrow> pending_data w = take (unat (w_len w)) (rd_data (sock_in c))
     \<and> unat (w_len w) \<le> length (rd_data (sock_in c)) \<and> unat (w_len w) \<le> length (payload w)"

lemma feeds_advance:
  assumes f: "feeds c w" and n: "unat n \<le> unat (w_len w)" and d: "rd_data (sock_in c') = drop (unat n) (rd_data (sock_in c))"
  shows "feeds c' (w\<lparr>w_from := a, w_len := w_len w - n, w_phase := ph\<rparr>)"
proof -
  have l: "unat (w_len w - n) = unat (w_len w) - unat n" using n by (rule unat_sub_u64)
  have "pending_data (w\<lparr>w_from := a, w_len := w_len w - n, w_phase := ph\<rparr>) = drop (unat n) (pending_data w)"
  proof -
    have "length (payload w) - (unat (w_len w) - unat n) = unat n + (length (payload w) - unat (w_len w))" using f n by (simp add: feeds_def)
    then show ?thesis using l by (simp add: pending_data_def)
  qed
  also have "\<dots> = take (unat (w_len w - n)) (rd_data (sock_in c'))" using f l d by (simp add: feeds_def drop_take)
  finally show ?thesis using f l d n by (auto simp: feeds_def)
qed

lemma map_set_range_sets:
  "map_set_range from n c = Ret u c' \<Longrightarrow> sets_range (serve c) from n False (serve c') \<and> sock_in c' = sock_in c"
  by (auto simp: map_set_range_def sets_range.simps put_map_def split: cresult.splits)

lemma read_into_file_feeds:
  assumes r: "and_then (read_into_file (w_from w) run c) (\<lambda>_. map_set_range (w_from w) run) = Ret u c'"
    and f: "feeds c w" and ph: "w_phase w = Direct run 0" and le: "unat run \<le> unat (w_len w)"
  shows "alone\<^sup>*\<^sup>* (serve c, w) (serve c', w\<lparr>w_from := w_from w + run, w_len := w_len w - run, w_phase := Choose\<rparr>)"
    and "feeds c' (w\<lparr>w_from := w_from w + run, w_len := w_len w - run, w_phase := Choose\<rparr>)"
proof -
  let ?w = "w\<lparr>w_phase := Direct run (unat run)\<rparr>"
  have "unat run \<le> length (rd_data (sock_in c))" using f le by (simp add: feeds_def)
  from sock_read_ok [OF this] obtain es e where sr: "sock_read (unat run) c = (take (unat run) (rd_data (sock_in c)), IoDone, c\<lparr>sock_in := es, errno := e\<rparr>)"
    "rd_data es = drop (unat run) (rd_data (sock_in c))" by blast
  have pd: "take (unat run) (rd_data (sock_in c)) = take (unat run) (pending_data w)" using f le by (simp add: feeds_def)
  obtain m where m: "mem_write (unat (w_from w)) (take (unat run) (pending_data w)) (file_map (serve c)) = Some m"
    "map_set_range (w_from w) run (put_file m (c\<lparr>sock_in := es, errno := e\<rparr>)) = Ret u c'"
    using r sr(1) pd by (auto simp: read_into_file_def split: option.splits)
  note ms = map_set_range_sets [OF m(2)]
  have "writer_step (serve c) w ((serve c)\<lparr>file_map := m\<rparr>) ?w"
    using reads_through [OF ph, of "unat run"] m(1) by simp
  moreover have "writer_step ((serve c)\<lparr>file_map := m\<rparr>) ?w (serve c') (?w\<lparr>w_from := w_from w + run, w_len := w_len w - run, w_phase := Choose\<rparr>)"
    using marks_run [of ?w run "unat run"] ms by (simp add: put_file_def)
  ultimately show "alone\<^sup>*\<^sup>* (serve c, w) (serve c', w\<lparr>w_from := w_from w + run, w_len := w_len w - run, w_phase := Choose\<rparr>)"
    by (intro converse_rtranclp_into_rtranclp [of alone "(serve c, w)" "((serve c)\<lparr>file_map := m\<rparr>, ?w)"] r_into_rtranclp) simp_all
  show "feeds c' (w\<lparr>w_from := w_from w + run, w_len := w_len w - run, w_phase := Choose\<rparr>)"
    using ms sr(2) by (intro feeds_advance [OF f le]) (simp add: put_file_def)
qed

lemma write_block_steps:
  assumes r: "write_block (w_from w) zb c = Ret u c'" and ph: "w_phase w = Block run zb" and b: "b = of_nat (length zb)"
  shows "alone\<^sup>*\<^sup>* (serve c, w) (serve c', w\<lparr>w_from := w_from w + b, w_len := w_len w - b, w_phase := Blocks (run - b)\<rparr>)"
    and "sock_in c' = sock_in c"
proof -
  let ?w = "w\<lparr>w_from := w_from w + b, w_len := w_len w - b, w_phase := Blocks (run - b)\<rparr>"
  show "sock_in c' = sock_in c"
    using r by (auto simp: write_block_def put_file_def dest!: map_set_range_sets split: if_splits option.splits)
  show "alone\<^sup>*\<^sup>* (serve c, w) (serve c', ?w)"
  proof (cases "all_zeros zb")
    case True
    with r skips_zeros [OF ph True b] show ?thesis by (auto simp: write_block_def)
  next
    case False
    let ?w1 = "w\<lparr>w_phase := Storing run zb 0\<rparr>" and ?w2 = "w\<lparr>w_phase := Storing run zb (length zb)\<rparr>"
    obtain m where m: "mem_write (unat (w_from w)) zb (file_map (serve c)) = Some m"
      "map_set_range (w_from w) b (put_file m c) = Ret u c'" using r False b by (auto simp: write_block_def split: option.splits)
    have "writer_step (serve c) w (serve c) ?w1" by (rule takes_block [OF ph False])
    moreover have "writer_step (serve c) ?w1 ((serve c)\<lparr>file_map := m\<rparr>) ?w2"
      using copies [of ?w1 run zb 0 "length zb" "serve c" m] m(1) by simp
    moreover have "writer_step ((serve c)\<lparr>file_map := m\<rparr>) ?w2 (serve c') ?w"
      using marks_block [of ?w2 run zb "length zb" b "(serve c)\<lparr>file_map := m\<rparr>" "serve c'"] map_set_range_sets [OF m(2)] b
      by (simp add: put_file_def)
    ultimately show ?thesis
      by (intro converse_rtranclp_into_rtranclp [of alone "(serve c, w)" "(serve c, ?w1)"]
          converse_rtranclp_into_rtranclp [of alone "(serve c, ?w1)" "((serve c)\<lparr>file_map := m\<rparr>, ?w2)"] r_into_rtranclp) simp_all
  qed
qed

lemma write_blocks_steps:
  "write_blocks from len run c = Ret fl c' \<Longrightarrow> w_from w = from \<Longrightarrow> w_len w = len \<Longrightarrow> w_phase w = Blocks run \<Longrightarrow> feeds c w \<Longrightarrow>
     unat run \<le> unat len \<Longrightarrow>
     \<exists>w'. alone\<^sup>*\<^sup>* (serve c, w) (serve c', w') \<and> w_from w' = fst fl \<and> w_len w' = snd fl \<and> w_phase w' = Choose \<and> feeds c' w'"
proof (induction "from" len run c arbitrary: w rule: write_blocks.induct)
  case (1 "from" len run c)
  note ret = 1(2) [unfolded write_blocks.simps [of "from"]] and w = 1(3-5) and f = 1(6) and le = 1(7)
  show ?case
  proof (cases "run > 0")
    case False
    then have r0: "run = 0" by (simp add: word_neq_0_conv [symmetric])
    have "writer_step (serve c) w (serve c) (w\<lparr>w_phase := Choose\<rparr>)" using w(3) r0 by (intro blocks_done) simp
    moreover have "feeds c (w\<lparr>w_phase := Choose\<rparr>)" using f by (simp add: feeds_def pending_data_def)
    ultimately show ?thesis using ret False w by (intro exI [of _ "w\<lparr>w_phase := Choose\<rparr>"]) auto
  next
    case True
    define b where "b = blockrun_at from run"
    have b: "0 < unat b" "unat b \<le> unat run" using blockrun_split [OF _ b_def] True by (simp_all add: word_less_nat_alt)
    then have bd: "unat b \<le> length (rd_data (sock_in c))" using le f w(2) by (simp add: feeds_def)
    from sock_read_ok [OF bd] obtain es e where sr: "sock_read (unat b) c = (take (unat b) (rd_data (sock_in c)), IoDone, c\<lparr>sock_in := es, errno := e\<rparr>)"
      "rd_data es = drop (unat b) (rd_data (sock_in c))" by blast
    define zb c1 where "zb = take (unat b) (pending_data w)" and "c1 = c\<lparr>sock_in := es, errno := e\<rparr>"
    have zb: "take (unat b) (rd_data (sock_in c)) = zb" using f le b w(2) by (simp add: zb_def feeds_def)
    have lb: "of_nat (length zb) = b" using bd by (simp add: zb [symmetric])
    have rb: "read_into_buffer b c = Ret zb c1" using sr(1) zb by (simp add: read_into_buffer_def c1_def)
    obtain u c2 where c2: "write_block from zb c1 = Ret u c2" "write_blocks (from + b) (len - b) (run - b) c2 = Ret fl c'"
      using ret True rb by (auto simp: b_def [symmetric] Let_def)
    let ?w1 = "w\<lparr>w_phase := Block run zb\<rparr>"
    let ?w2 = "w\<lparr>w_from := w_from w + b, w_len := w_len w - b, w_phase := Blocks (run - b)\<rparr>"
    have st1: "writer_step (serve c) w (serve c1) ?w1"
      using reads_block [OF w(3) True, of "serve c"] w(1) by (simp add: zb_def b_def c1_def)
    have wb: "alone\<^sup>*\<^sup>* (serve c1, ?w1) (serve c2, ?w2)" "sock_in c2 = sock_in c1"
      using write_block_steps [of ?w1 zb c1 u c2 run b] c2(1) w(1) lb by simp_all
    have f2: "feeds c2 ?w2" using b le w(2) wb(2) sr(2) by (intro feeds_advance [OF f]) (simp_all add: c1_def)
    have "unat (run - b) \<le> unat (len - b)" using b le by (simp add: unat_sub_u64)
    then obtain w' where w': "alone\<^sup>*\<^sup>* (serve c2, ?w2) (serve c', w')" "w_from w' = fst fl" "w_len w' = snd fl" "w_phase w' = Choose" "feeds c' w'"
      using 1(1) [OF True b_def c2(2), of ?w2] w f2 by auto
    have "alone\<^sup>*\<^sup>* (serve c, w) (serve c', w')"
      using st1 rtranclp_trans [OF wb(1) w'(1)] by (intro converse_rtranclp_into_rtranclp [of alone "(serve c, w)" "(serve c1, ?w1)"]) simp_all
    with w' show ?thesis by blast
  qed
qed

lemma write_not_zeroes_steps:
  assumes "write_not_zeroes from len c = Some out" "w_from w = from" "w_len w = len" "w_phase w = Choose" "feeds c w" "out = Ret () c'"
  shows "\<exists>w'. alone\<^sup>*\<^sup>* (serve c, w) (serve c', w') \<and> w_len w' = 0 \<and> w_phase w' = Choose"
  using assms
proof (induction arbitrary: w rule: write_not_zeroes.raw_induct [rotated, consumes 1, case_names unfold])
  case (unfold wnz "from" len c out)
  note ih = unfold(1) and ret = unfold(2) and w = unfold(3-5) and f = unfold(6) and out = unfold(7)
  show ?case
  proof (cases "len > 0")
    case False
    then have "len = 0" by (simp add: word_neq_0_conv [symmetric])
    with ret w out show ?thesis by (intro exI [of _ w]) simp
  next
    case True
    with ret out obtain run0 b where rc: "bitset_run_count (allocation_map (serve c)) from len = Some run0"
      "bitset_is_set_at (allocation_map (serve c)) from = Some b" by (auto simp: Let_def split: option.splits)
    define run where "run = (if run0 > len then len else run0)"
    have le: "unat run \<le> unat len" by (auto simp: run_def word_less_nat_alt)
    let ?w1 = "w\<lparr>w_phase := Counted run\<rparr>"
    have c1: "writer_step (serve c) w (serve c) ?w1" unfolding run_def w(2) [symmetric] by (rule counts [OF w(3) _ _ refl]) (use True w rc(1) in simp_all)
    show ?thesis
    proof (cases "b \<noteq> 0")
      case bn: True
      let ?w2 = "w\<lparr>w_phase := Direct run 0\<rparr>" and ?w3 = "w\<lparr>w_from := w_from w + run, w_len := w_len w - run, w_phase := Choose\<rparr>"
      from ret bn True rc out obtain c2 where r: "and_then (read_into_file from run c) (\<lambda>_. map_set_range from run) = Ret () c2"
        "wnz (from + run) (len - run) c2 = Some (Ret () c')"
        by (auto simp: run_def [symmetric] Let_def simp del: and_then_Ret split: outcome.splits)
      have f2: "feeds c ?w2" using f by (simp add: feeds_def pending_data_def)
      have "writer_step (serve c) ?w1 (serve c) ?w2" using finds_set [of ?w1 run "serve c" b] rc(2) bn w(1) by simp
      moreover have st: "alone\<^sup>*\<^sup>* (serve c, ?w2) (serve c2, ?w3)" and f3: "feeds c2 ?w3"
        using read_into_file_feeds [of ?w2 run c _ c2] r(1) w f2 le by simp_all
      moreover obtain w' where "alone\<^sup>*\<^sup>* (serve c2, ?w3) (serve c', w')" "w_len w' = 0" "w_phase w' = Choose"
        using ih [OF r(2), of ?w3] w f3 by auto
      ultimately show ?thesis using c1
        by (intro exI [of _ w'] conjI converse_rtranclp_into_rtranclp [of alone "(serve c, w)" "(serve c, ?w1)"]
            converse_rtranclp_into_rtranclp [of alone "(serve c, ?w1)" "(serve c, ?w2)"] rtranclp_trans [OF st]) simp_all
    next
      case bn: False
      let ?w2 = "w\<lparr>w_phase := Blocks run\<rparr>"
      from ret bn True rc out obtain fl c2 where r: "write_blocks from len run c = Ret fl c2" "wnz (fst fl) (snd fl) c2 = Some (Ret () c')"
        by (auto simp: run_def [symmetric] Let_def split: outcome.splits)
      have f2: "feeds c ?w2" using f by (simp add: feeds_def pending_data_def)
      have "writer_step (serve c) ?w1 (serve c) ?w2" using finds_clear [of ?w1 run "serve c"] rc(2) bn w(1) by simp
      moreover obtain w3 where w3: "alone\<^sup>*\<^sup>* (serve c, ?w2) (serve c2, w3)" "w_from w3 = fst fl" "w_len w3 = snd fl" "w_phase w3 = Choose" "feeds c2 w3"
        using write_blocks_steps [OF r(1), of ?w2] w f2 le by auto
      moreover obtain w' where "alone\<^sup>*\<^sup>* (serve c2, w3) (serve c', w')" "w_len w' = 0" "w_phase w' = Choose"
        using ih [OF r(2) w3(2-5)] by auto
      ultimately show ?thesis using c1
        by (intro exI [of _ w'] conjI converse_rtranclp_into_rtranclp [of alone "(serve c, w)" "(serve c, ?w1)"]
            converse_rtranclp_into_rtranclp [of alone "(serve c, ?w1)" "(serve c, ?w2)"] rtranclp_trans [OF w3(1)]) simp_all
    qed
  qed
qed

lemma alone_steps:
  assumes "alone\<^sup>*\<^sup>* (sv, w) (sv', w')" "writers s i = Some w" "wserve s = sv"
  shows "(write_step may_lose)\<^sup>*\<^sup>* s (s\<lparr>wserve := sv', writers := (writers s)(i \<mapsto> w')\<rparr>)"
  using assms(1)
proof (induction rule: rtranclp_induct2)
  case refl
  have "s\<lparr>wserve := sv, writers := (writers s)(i \<mapsto> w)\<rparr> = s"
    using assms(2,3) by (cases s) (auto simp: map_upd_triv)
  then show ?case by (metis rtranclp.rtrancl_refl)
next
  case (step sv1 w1 sv2 w2)
  have "write_step may_lose (s\<lparr>wserve := sv1, writers := (writers s)(i \<mapsto> w1)\<rparr>) (s\<lparr>wserve := sv2, writers := (writers s)(i \<mapsto> w2)\<rparr>)"
    using acts [of "s\<lparr>wserve := sv1, writers := (writers s)(i \<mapsto> w1)\<rparr>" i w1 sv2 w2 may_lose] step(2) by simp
  with step(3) show ?case by (rule rtranclp.rtrancl_into_rtrancl)
qed

text \<open>The steps are those of \<open>write_not_zeroes\<close>: a call of it that returns, on data the client has sent, is one of the
  schedules of \<open>write_step\<close>.\<close>

theorem write_steps_run:
  assumes "write_not_zeroes from len c = Some (Ret () c')" "unat len \<le> length (rd_data (sock_in c))"
    "wserve s = serve c" "writers s i = Some (new_writer from (take (unat len) (rd_data (sock_in c))))"
  shows "\<exists>w. (write_step may_lose)\<^sup>*\<^sup>* s (s\<lparr>wserve := serve c', writers := (writers s)(i \<mapsto> w)\<rparr>) \<and> w_len w = 0 \<and> w_phase w = Choose"
proof -
  let ?w = "new_writer from (take (unat len) (rd_data (sock_in c)))"
  have w: "w_from ?w = from" "w_len ?w = len" "w_phase ?w = Choose" using assms(2) by (simp_all add: new_writer_def)
  have "feeds c ?w" using assms(2) w by (simp add: feeds_def pending_data_def new_writer_def)
  from write_not_zeroes_steps [OF assms(1) w this refl] obtain w'
    where "alone\<^sup>*\<^sup>* (serve c, ?w) (serve c', w')" "w_len w' = 0" "w_phase w' = Choose" by blast
  with alone_steps [OF _ assms(4,3)] show ?thesis by blast
qed

subsection \<open>Clients that keep to their own ranges\<close>


subsection \<open>A schedule\<close>

text \<open>A client asks to write four bytes across the boundary of two chunks, neither of them allocated; its thread counts a run of
  four unallocated bytes.  Another client then writes the first byte of the file.\<close>

definition ex_writers_start :: writing where
  "ex_writers_start = \<lparr>wserve = ex_server, writers = (\<lambda>_. None)\<rparr>"

definition ex_marked :: bitset where
  "ex_marked = (bitset_alloc 0 8192 4096)\<lparr>bits := [1]\<rparr>"

definition ex_across :: "write_phase \<Rightarrow> writer" where
  "ex_across ph = (new_writer 4094 [7, 7, 7, 7])\<lparr>w_phase := ph\<rparr>"

definition ex_first :: server where
  "ex_first = ex_server\<lparr>file_map := 1 # replicate 8191 0, allocation_map := ex_marked\<rparr>"

definition ex_first_done :: writer where
  "ex_first_done = (new_writer 0 [1])\<lparr>w_from := 1, w_len := 0\<rparr>"

lemma ex_set_first: "bitset_set_range (bitset_alloc 0 8192 4096) 0 1 = Done ex_marked"
proof -
  have "INT_FIRST_AND_LAST (bitset_alloc 0 8192 4096) 0 1 = (0, 0, 1)" by code_simp
  moreover have "bit_set_range (bits (bitset_alloc 0 8192 4096)) 0 1 = Some [1]" by code_simp
  moreover have "\<not> stream_enabled (bitset_alloc 0 8192 4096)" by (simp add: bitset_alloc_def)
  ultimately show ?thesis by (simp add: bitset_set_range_def ex_marked_def)
qed

lemma ex_server_map: "allocation_map ex_server = bitset_alloc 0 8192 4096" "serve_size ex_server = 8192"
  "file_map ex_server = 0 # replicate 8191 0"
  by (simp_all add: ex_server_def flip: replicate_Suc)

lemma ex_runs:
  "bitset_run_count (bitset_alloc 0 8192 4096) 4094 4 = Some 4098" "bitset_run_count (bitset_alloc 0 8192 4096) 0 1 = Some 4096"
  "bitset_is_set_at (bitset_alloc 0 8192 4096) 0 = Some 0" "bitset_is_set_at ex_marked 4094 = Some 1"
  "bitset_run_count ex_marked 4096 2 = Some 4096" "bitset_is_set_at ex_marked 4096 = Some 0" "blockrun_at 0 1 = 1" "blockrun_at 4096 2 = 2"
  by code_simp+

lemma alone_step: "writer_step sv w sv' w' \<Longrightarrow> alone\<^sup>*\<^sup>* (sv', w') z \<Longrightarrow> alone\<^sup>*\<^sup>* (sv, w) z"
  by (rule converse_rtranclp_into_rtranclp) simp_all

lemma ex_first_run: "alone\<^sup>*\<^sup>* (ex_server, new_writer 0 [1]) (ex_first, ex_first_done)"
proof -
  let ?w = "\<lambda>ph. (new_writer 0 [1])\<lparr>w_phase := ph\<rparr>" and ?m = "1 # replicate 8191 0"
  have "writer_step ex_server (new_writer 0 [1]) ex_server (?w (Counted 1))"
    by (rule counts [where ?run0.0 = 4096]) (simp_all add: new_writer_def ex_server_map ex_runs)
  moreover have "writer_step ex_server (?w (Counted 1)) ex_server (?w (Blocks 1))"
    using finds_clear [of "?w (Counted 1)" 1 ex_server] by (simp add: new_writer_def ex_server_map ex_runs)
  moreover have "writer_step ex_server (?w (Blocks 1)) ex_server (?w (Block 1 [1]))"
    using reads_block [of "?w (Blocks 1)" 1 ex_server] by (simp add: new_writer_def ex_runs pending_data_def)
  moreover have "writer_step ex_server (?w (Block 1 [1])) ex_server (?w (Storing 1 [1] 0))"
    using takes_block [of "?w (Block 1 [1])" 1 "[1]" ex_server] by (simp add: new_writer_def all_zeros_def)
  moreover have "writer_step ex_server (?w (Storing 1 [1] 0)) (ex_server\<lparr>file_map := ?m\<rparr>) (?w (Storing 1 [1] 1))"
    using copies [of "?w (Storing 1 [1] 0)" 1 "[1]" 0 1 ex_server ?m] by (simp add: new_writer_def ex_server_map mem_write.simps)
  moreover have "writer_step (ex_server\<lparr>file_map := ?m\<rparr>) (?w (Storing 1 [1] 1)) ex_first (ex_first_done\<lparr>w_phase := Blocks 0\<rparr>)"
    using marks_block [of "?w (Storing 1 [1] 1)" 1 "[1]" 1 1 "ex_server\<lparr>file_map := ?m\<rparr>" ex_first]
    by (simp add: new_writer_def ex_server_map sets_range.simps ex_set_first ex_first_def ex_first_done_def)
  moreover have "writer_step ex_first (ex_first_done\<lparr>w_phase := Blocks 0\<rparr>) ex_first ex_first_done"
    using blocks_done [of "ex_first_done\<lparr>w_phase := Blocks 0\<rparr>" ex_first] by (simp add: ex_first_done_def new_writer_def)
  ultimately show ?thesis by (elim alone_step) (rule rtranclp.rtrancl_refl)
qed

definition ex_writers :: writing where
  "ex_writers = \<lparr>wserve = ex_first, writers = [0 \<mapsto> ex_across (Counted 4), 1 \<mapsto> ex_first_done]\<rparr>"

lemma ex_writers_reached: "(write_step may_lose)\<^sup>*\<^sup>* ex_writers_start ex_writers"
proof -
  let ?a = "\<lparr>wserve = ex_server, writers = [0 \<mapsto> new_writer 4094 [7, 7, 7, 7]]\<rparr>"
  let ?b = "\<lparr>wserve = ex_server, writers = [0 \<mapsto> new_writer 4094 [7, 7, 7, 7], 1 \<mapsto> new_writer 0 [1]]\<rparr>"
  let ?c = "\<lparr>wserve = ex_server, writers = [0 \<mapsto> ex_across (Counted 4), 1 \<mapsto> new_writer 0 [1]]\<rparr>"
  have "write_step may_lose ex_writers_start ?a"
    using begins [of ex_writers_start 0 "[7, 7, 7, 7]" 4094 may_lose] by (simp add: ex_writers_start_def ex_server_map)
  moreover have "write_step may_lose ?a ?b"
    using begins [of ?a 1 "[1]" 0 may_lose] by (simp add: ex_server_map owns_def new_writer_def)
  moreover have "writer_step ex_server (new_writer 4094 [7, 7, 7, 7]) ex_server (ex_across (Counted 4))"
    unfolding ex_across_def by (rule counts [where ?run0.0 = 4098]) (simp_all add: new_writer_def ex_server_map ex_runs)
  then have "write_step may_lose ?b ?c"
    using acts [of ?b 0 "new_writer 4094 [7, 7, 7, 7]" ex_server "ex_across (Counted 4)" may_lose] by (simp add: fun_upd_twist)
  moreover have "(write_step may_lose)\<^sup>*\<^sup>* ?c ex_writers"
    using alone_steps [OF ex_first_run, of ?c 1 may_lose] by (simp add: ex_writers_def)
  ultimately show ?thesis by (auto intro: converse_rtranclp_into_rtranclp)
qed

lemma ex_writers_start_init: "writers_init ex_writers_start"
  using ex_server_ok by (simp add: writers_init_def ex_writers_start_def)


text \<open>The first thread stores its four bytes without telling the map; a third one skips two zeroes meant for the second chunk.\<close>

definition ex_torn :: "byte list" where
  "ex_torn = 1 # replicate 4093 0 @ [7, 7, 7, 7] @ replicate 4094 0"

definition ex_stale :: server where
  "ex_stale = ex_first\<lparr>file_map := ex_torn\<rparr>"

definition ex_zeroes_done :: writer where
  "ex_zeroes_done = (new_writer 4096 [0, 0])\<lparr>w_from := 4098, w_len := 0\<rparr>"

lemma ex_stale_sel: "file_map ex_stale = ex_torn" "allocation_map ex_stale = ex_marked" "serve_size ex_stale = 8192"
  by (simp_all add: ex_stale_def ex_first_def ex_server_map)

lemma ex_torn_byte: "drop 4096 ex_torn = [7, 7] @ replicate 4094 0" "ex_torn ! 4096 = 7"
proof -
  have "ex_torn = (1 # replicate 4093 0 @ [7, 7]) @ [7, 7] @ replicate 4094 0" "length (1 # replicate 4093 0 @ [7, 7 :: byte]) = 4096"
    by (simp_all add: ex_torn_def)
  then show d: "drop 4096 ex_torn = [7, 7] @ replicate 4094 0" by (metis append_eq_conv_conj)
  have "length ex_torn = 8192" by (simp add: ex_torn_def)
  then show "ex_torn ! 4096 = 7" using nth_drop [of 4096 ex_torn 0] d by simp
qed

lemma ex_stale_not_sparse: "\<not> sparse ex_stale"
proof -
  have "\<not> bs_bit ex_marked 4096" by (simp add: bs_bit_def ex_marked_def bitset_alloc_def res64_def bf_bit_def)
  then show ?thesis using ex_torn_byte(2) by (auto simp: sparse_def ex_stale_sel intro!: exI [of _ 4096])
qed

lemma ex_stale_run: "alone\<^sup>*\<^sup>* (ex_first, ex_across (Counted 4)) (ex_stale, ex_across (Direct 4 4))"
proof -
  have fm: "file_map ex_first = 1 # replicate 4093 0 @ replicate 4098 0" unfolding ex_first_def by (simp flip: replicate_add)
  have mm: "mem_write 4094 [7, 7, 7, 7] (file_map ex_first) = Some ex_torn" unfolding fm ex_torn_def by (simp add: mem_write.simps)
  have "writer_step ex_first (ex_across (Counted 4)) ex_first (ex_across (Direct 4 0))"
    using finds_set [of "ex_across (Counted 4)" 4 ex_first 1] by (simp add: ex_across_def ex_first_def new_writer_def ex_runs)
  moreover have "writer_step ex_first (ex_across (Direct 4 0)) ex_stale (ex_across (Direct 4 4))"
    using reads_through [of "ex_across (Direct 4 0)" 4 0 4 ex_first ex_torn] mm
    by (simp add: ex_across_def new_writer_def pending_data_def ex_stale_def)
  ultimately show ?thesis by (elim alone_step) (rule rtranclp.rtrancl_refl)
qed

lemma ex_zeroes_run: "alone\<^sup>*\<^sup>* (ex_stale, new_writer 4096 [0, 0]) (ex_stale, ex_zeroes_done)"
proof -
  let ?w = "\<lambda>ph. (new_writer 4096 [0, 0])\<lparr>w_phase := ph\<rparr>"
  have "writer_step ex_stale (new_writer 4096 [0, 0]) ex_stale (?w (Counted 2))"
    by (rule counts [where ?run0.0 = 4096]) (simp_all add: new_writer_def ex_stale_sel ex_runs)
  moreover have "writer_step ex_stale (?w (Counted 2)) ex_stale (?w (Blocks 2))"
    using finds_clear [of "?w (Counted 2)" 2 ex_stale] by (simp add: new_writer_def ex_stale_sel ex_runs)
  moreover have "writer_step ex_stale (?w (Blocks 2)) ex_stale (?w (Block 2 [0, 0]))"
    using reads_block [of "?w (Blocks 2)" 2 ex_stale] by (simp add: new_writer_def ex_runs pending_data_def)
  moreover have "writer_step ex_stale (?w (Block 2 [0, 0])) ex_stale (ex_zeroes_done\<lparr>w_phase := Blocks 0\<rparr>)"
  proof -
    have "w_phase (?w (Block 2 [0, 0])) = Block 2 [0, 0]" "all_zeros [0, 0]" by (simp_all add: all_zeros_def)
    from skips_zeros [OF this, of 2 ex_stale] show ?thesis by (simp add: new_writer_def ex_zeroes_done_def)
  qed
  moreover have "writer_step ex_stale (ex_zeroes_done\<lparr>w_phase := Blocks 0\<rparr>) ex_stale ex_zeroes_done"
    using blocks_done [of "ex_zeroes_done\<lparr>w_phase := Blocks 0\<rparr>" ex_stale] by (simp add: new_writer_def ex_zeroes_done_def)
  ultimately show ?thesis by (elim alone_step) (rule rtranclp.rtrancl_refl)
qed


end
