(* ===== verification/Lifecycle.thy ===== *)
theory Lifecycle
  imports Control "HOL-Library.Multiset"
begin

text \<open>
  Creation and destruction of the program's objects.  The store maps addresses to objects: memory with the pointers it holds,
  descriptors, timers and file mappings.  Using, freeing or closing what is not there is the result \<open>Fault\<close>; a call that fails where the
  code gives up is \<open>Fatal\<close>.  An assertion says which part of the store belongs to an object; \<open>triple P m Q\<close> says that \<open>m\<close>, started
  on its own part of the store, never faults, touches nothing else, and ends on the part \<open>Q\<close>.  The locale \<open>managed\<close> is the contract of
  a pair of create and destroy functions; it is interpreted on the pairs of the program.
\<close>

subsection \<open>The store\<close>

type_synonym addr = nat

text \<open>Pipes, clients and so on hold the addresses of what they own.  A descriptor knows the number of bytes that wait to be read
  from it, a timer the socket its signal names, a mutex its holder.\<close>

datatype obj =
    Buffer
  | Descriptor nat
  | Timer addr
  | Mapping
  | Pipe_o addr addr
  | Mutex_o "nat option"
  | Mbox_o "addr option" bool
  | Acl_o "addr option"
  | Client_o addr addr addr
  | Bitset_o "addr option"
  | Server_o "addr option" "addr option" addr addr "addr option" addr
  | Mirror_o addr "addr option" "addr option" addr "addr option"
  | Super_o addr addr
  | Control_o addr addr addr
  | Control_client_o addr addr
  | Flexnbd_o addr "addr option" addr
  | Prefetch_o addr
  | Proxier_o addr addr addr "addr option"

fun is_memory :: "obj \<Rightarrow> bool" where
  "is_memory (Descriptor n) = False"
| "is_memory (Timer s) = False"
| "is_memory Mapping = False"
| "is_memory _ = True"

fun is_descriptor :: "obj \<Rightarrow> bool" where
  "is_descriptor (Descriptor n) = True"
| "is_descriptor _ = False"

fun is_timer :: "obj \<Rightarrow> bool" where
  "is_timer (Timer s) = True"
| "is_timer _ = False"

text \<open>The list \<open>calls\<close> says whether the next calls that can fail succeed; those after its end do.  Addresses and descriptors are not
  reused, so that nothing that is used too late looks alive.\<close>

record heap =
  store :: "addr \<Rightarrow> obj option"
  fresh :: addr
  calls :: "bool list"

type_synonym 'a heap_op = "heap \<Rightarrow> (heap, 'a) outcome"

definition attempt :: "unit heap_op" where
  "attempt h = (case calls h of [] \<Rightarrow> Ret () h | ok # cs \<Rightarrow> if ok then Ret () (h\<lparr>calls := cs\<rparr>) else Fatal (h\<lparr>calls := cs\<rparr>))"

definition acquire :: "obj \<Rightarrow> addr heap_op" where
  "acquire ob h = and_then (attempt h) (\<lambda>_ h1. Ret (fresh h1) (h1\<lparr>store := (store h1)(fresh h1 \<mapsto> ob), fresh := fresh h1 + 1\<rparr>))"

definition release :: "(obj \<Rightarrow> bool) \<Rightarrow> addr \<Rightarrow> unit heap_op" where
  "release is_kind a h =
     (case store h a of
        None \<Rightarrow> Fault
      | Some ob \<Rightarrow> if is_kind ob then Ret () (h\<lparr>store := (store h)(a := None)\<rparr>) else Fault)"

abbreviation free_mem :: "addr \<Rightarrow> unit heap_op" where
  "free_mem \<equiv> release is_memory"

abbreviation close_fd :: "addr \<Rightarrow> unit heap_op" where
  "close_fd \<equiv> release is_descriptor"

definition put_obj :: "addr \<Rightarrow> obj \<Rightarrow> heap \<Rightarrow> heap" where
  "put_obj a ob h = h\<lparr>store := (store h)(a \<mapsto> ob)\<rparr>"

subsection \<open>Parts of the store\<close>

type_synonym part = "(addr \<Rightarrow> obj option) \<Rightarrow> addr set \<Rightarrow> bool"

definition wf_heap :: "heap \<Rightarrow> bool" where
  "wf_heap h \<longleftrightarrow> (\<forall>a \<ge> fresh h. store h a = None)"

definition local_part :: "part \<Rightarrow> bool" where
  "local_part P \<longleftrightarrow> (\<forall>m S. P m S \<longrightarrow> S \<subseteq> dom m) \<and> (\<forall>m m' S. P m S \<longrightarrow> (\<forall>x\<in>S. m' x = m x) \<longrightarrow> P m' S)"

definition nothing :: part where
  "nothing m S \<longleftrightarrow> S = {}"

definition cell :: "addr \<Rightarrow> obj \<Rightarrow> part" where
  "cell a ob m S \<longleftrightarrow> m a = Some ob \<and> S = {a}"

definition both :: "part \<Rightarrow> part \<Rightarrow> part" where
  "both P Q m S \<longleftrightarrow> (\<exists>A B. P m A \<and> Q m B \<and> A \<inter> B = {} \<and> S = A \<union> B)"

definition some_part :: "('x \<Rightarrow> part) \<Rightarrow> part" where
  "some_part P m S \<longleftrightarrow> (\<exists>x. P x m S)"

fun opt_part :: "('x \<Rightarrow> part) \<Rightarrow> 'x option \<Rightarrow> part" where
  "opt_part P None = nothing"
| "opt_part P (Some x) = P x"

text \<open>The end of an operation that was started in the heap \<open>h\<close> on the part \<open>S\<close> of its store.\<close>

fun ends_on :: "('a \<Rightarrow> part) \<Rightarrow> heap \<Rightarrow> addr set \<Rightarrow> (heap, 'a) outcome \<Rightarrow> bool" where
  "ends_on Q h S (Ret a h') \<longleftrightarrow> wf_heap h' \<and> fresh h \<le> fresh h' \<and> set (calls h') \<subseteq> set (calls h)
     \<and> (\<exists>S'. Q a (store h') S' \<and> S' \<subseteq> S \<union> {fresh h..} \<and> (\<forall>x. x \<notin> S \<union> S' \<longrightarrow> store h' x = store h x) \<and> (\<forall>x \<in> S - S'. store h' x = None))"
| "ends_on Q h S (Fatal h') \<longleftrightarrow> False \<in> set (calls h)"
| "ends_on Q h S _ \<longleftrightarrow> False"

definition triple :: "part \<Rightarrow> 'a heap_op \<Rightarrow> ('a \<Rightarrow> part) \<Rightarrow> bool" where
  "triple P m Q \<longleftrightarrow> (\<forall>h S. wf_heap h \<and> P (store h) S \<longrightarrow> ends_on Q h S (m h))"

lemma local_nothing [simp]: "local_part nothing"
  by (simp add: local_part_def nothing_def)

lemma local_cell [simp]: "local_part (cell a ob)"
  by (auto simp: local_part_def cell_def)

lemma local_both [simp]:
  assumes "local_part P" "local_part Q"
  shows "local_part (both P Q)"
  unfolding local_part_def
proof (intro conjI allI impI)
  fix m S assume "both P Q m S"
  then show "S \<subseteq> dom m" using assms unfolding local_part_def both_def by blast
next
  fix m m' S assume "both P Q m S" and same: "\<forall>x\<in>S. m' x = m x"
  then obtain A B where "P m A" "Q m B" "A \<inter> B = {}" "S = A \<union> B" unfolding both_def by blast
  moreover have "P m' A" "Q m' B" using assms same calculation unfolding local_part_def by simp_all
  ultimately show "both P Q m' S" unfolding both_def by blast
qed

lemma local_some [simp]: "(\<And>x. local_part (P x)) \<Longrightarrow> local_part (some_part P)"
  unfolding local_part_def some_part_def by blast

lemma local_opt [simp]: "(\<And>x. local_part (P x)) \<Longrightarrow> local_part (opt_part P a)"
  by (cases a) simp_all

lemma both_comm: "both P Q = both Q P"
proof -
  have "both Q P m S" if "both P Q m S" for P Q m S
  proof -
    from that obtain A B where "P m A" "Q m B" "A \<inter> B = {}" "S = A \<union> B" unfolding both_def by blast
    then show ?thesis unfolding both_def by (intro exI [of _ B] exI [of _ A]) auto
  qed
  then show ?thesis by (intro ext iffI)
qed

lemma both_assoc: "both (both P Q) R = both P (both Q R)"
proof -
  have shift: "both P (both Q R) m S" if b: "both (both P Q) R m S" for P Q R m S
  proof -
    from b obtain D C where D: "both P Q m D" and C: "R m C" "D \<inter> C = {}" "S = D \<union> C" unfolding both_def by blast
    from D obtain A B where A: "P m A" "Q m B" "A \<inter> B = {}" "D = A \<union> B" unfolding both_def by blast
    have "both Q R m (B \<union> C)" unfolding both_def using A C by (intro exI [of _ B] exI [of _ C]) auto
    then show ?thesis unfolding both_def [of P] using A C by (intro exI [of _ A] exI [of _ "B \<union> C"]) auto
  qed
  show ?thesis
  proof (intro ext iffI)
    fix m S assume "both P (both Q R) m S"
    then have "both (both R Q) P m S" by (simp add: both_comm)
    then have "both R (both Q P) m S" by (rule shift)
    then show "both (both P Q) R m S" by (simp add: both_comm)
  qed (rule shift)
qed

lemma both_left_comm: "both P (both Q R) = both Q (both P R)"
  by (metis both_assoc both_comm)

lemmas both_ac = both_assoc both_comm both_left_comm

lemma both_nothing [simp]: "both P nothing = P" "both nothing P = P"
  by (auto simp: both_def nothing_def intro!: ext)

lemma both_some: "both (some_part P) Q = some_part (\<lambda>x. both (P x) Q)" "both Q (some_part P) = some_part (\<lambda>x. both Q (P x))"
  unfolding both_def some_part_def by (intro ext; blast)+

subsection \<open>Rules\<close>

lemma triple_ret: "triple (P a) (Ret a) P"
  by (auto simp: triple_def)

lemma triple_seq:
  assumes m: "triple P m Q" and k: "\<And>a. triple (Q a) (k a) R"
  shows "triple P (\<lambda>h. and_then (m h) k) R"
  unfolding triple_def
proof (intro allI impI, elim conjE)
  fix h S assume h: "wf_heap h" "P (store h) S"
  note mh = m [unfolded triple_def, rule_format, OF conjI [OF h]]
  show "ends_on R h S (and_then (m h) k)"
  proof (cases "m h")
    case (Ret a h1)
    with mh obtain S1 where h1: "wf_heap h1" "fresh h \<le> fresh h1" "set (calls h1) \<subseteq> set (calls h)" "Q a (store h1) S1"
      "S1 \<subseteq> S \<union> {fresh h..}" "\<forall>x. x \<notin> S \<union> S1 \<longrightarrow> store h1 x = store h x" "\<forall>x \<in> S - S1. store h1 x = None" by auto
    note kh = k [unfolded triple_def, rule_format, OF conjI [OF h1(1,4)]]
    show ?thesis
    proof (cases "k a h1")
      case k2: (Ret b h2)
      with kh obtain S2 where h2: "wf_heap h2" "fresh h1 \<le> fresh h2" "set (calls h2) \<subseteq> set (calls h1)" "R b (store h2) S2"
        "S2 \<subseteq> S1 \<union> {fresh h1..}" "\<forall>x. x \<notin> S1 \<union> S2 \<longrightarrow> store h2 x = store h1 x" "\<forall>x \<in> S1 - S2. store h2 x = None" by auto
      have sub: "S2 \<subseteq> S \<union> {fresh h..}" using h1(2,5) h2(5) by auto
      have out: "store h2 x = store h x" if "x \<notin> S" "x \<notin> S2" for x
      proof (cases "x \<in> S1")
        case True
        then have "store h2 x = None" using h2(7) that(2) by blast
        moreover have "fresh h \<le> x" using True h1(5) that(1) by auto
        then have "store h x = None" using h(1) by (simp add: wf_heap_def)
        ultimately show ?thesis by simp
      next
        case False
        with h2(6) that have "store h2 x = store h1 x" by blast
        with h1(6) that False show ?thesis by simp
      qed
      have gone: "store h2 x = None" if "x \<in> S" "x \<notin> S2" for x
        using h2(6,7) h1(7) that by (cases "x \<in> S1") auto
      have "(\<exists>S2. R b (store h2) S2 \<and> S2 \<subseteq> S \<union> {fresh h..} \<and> (\<forall>x. x \<notin> S \<union> S2 \<longrightarrow> store h2 x = store h x) \<and> (\<forall>x \<in> S - S2. store h2 x = None))"
        using h2(4) sub out gone by (intro exI [of _ S2]) blast
      then show ?thesis using Ret k2 h1(2,3) h2(1-3) by auto
    qed (use kh Ret h1(3) in auto)
  qed (use mh in auto)
qed

lemma triple_frame:
  assumes m: "triple P m Q" and F: "local_part F" and P: "local_part P"
  shows "triple (both P F) m (\<lambda>a. both (Q a) F)"
  unfolding triple_def
proof (intro allI impI, elim conjE)
  fix h S assume wf: "wf_heap h" and "both P F (store h) S"
  then obtain A B where S: "P (store h) A" "F (store h) B" "A \<inter> B = {}" "S = A \<union> B" unfolding both_def by blast
  note mh = m [unfolded triple_def, rule_format, OF conjI [OF wf S(1)]]
  have low: "x < fresh h" if "x \<in> B" for x
  proof (rule ccontr)
    assume "\<not> x < fresh h"
    then have "store h x = None" using wf by (simp add: wf_heap_def)
    moreover have "x \<in> dom (store h)" using F S(2) that unfolding local_part_def by blast
    ultimately show False by auto
  qed
  show "ends_on (\<lambda>a. both (Q a) F) h S (m h)"
  proof (cases "m h")
    case (Ret a h')
    with mh obtain A' where h': "wf_heap h'" "fresh h \<le> fresh h'" "set (calls h') \<subseteq> set (calls h)" "Q a (store h') A'"
      "A' \<subseteq> A \<union> {fresh h..}" "\<forall>x. x \<notin> A \<union> A' \<longrightarrow> store h' x = store h x" "\<forall>x \<in> A - A'. store h' x = None" by auto
    have disj: "A' \<inter> B = {}" using h'(5) S(3) low by fastforce
    have same: "store h' x = store h x" if "x \<in> B" for x using h'(6) S(3) disj that by blast
    have "F (store h') B" using F S(2) same unfolding local_part_def by blast
    then have "both (Q a) F (store h') (A' \<union> B)" using h'(4) disj unfolding both_def by blast
    moreover have "A' \<union> B \<subseteq> S \<union> {fresh h..}" using h'(5) S(4) by blast
    moreover have "\<forall>x. x \<notin> S \<union> (A' \<union> B) \<longrightarrow> store h' x = store h x" "\<forall>x \<in> S - (A' \<union> B). store h' x = None"
      subgoal using h'(6) S(4) by auto
      subgoal using h'(7) S(4) by blast
      done
    ultimately show ?thesis using Ret h'(1-3) by auto
  qed (use mh in auto)
qed

lemma triple_weaken: "triple P m Q \<Longrightarrow> (\<And>m S. P' m S \<Longrightarrow> P m S) \<Longrightarrow> (\<And>a m S. Q a m S \<Longrightarrow> Q' a m S) \<Longrightarrow> triple P' m Q'"
  unfolding triple_def
proof (intro allI impI, elim conjE)
  fix h S assume m: "\<forall>h S. wf_heap h \<and> P (store h) S \<longrightarrow> ends_on Q h S (m h)" and w: "\<And>m S. P' m S \<Longrightarrow> P m S" "\<And>a m S. Q a m S \<Longrightarrow> Q' a m S"
    and h: "wf_heap h" "P' (store h) S"
  then have e: "ends_on Q h S (m h)" by blast
  show "ends_on Q' h S (m h)"
  proof (cases "m h")
    case (Ret a h')
    with e obtain S' where "Q a (store h') S'" "S' \<subseteq> S \<union> {fresh h..}" "\<forall>x. x \<notin> S \<union> S' \<longrightarrow> store h' x = store h x" "\<forall>x \<in> S - S'. store h' x = None"
      "wf_heap h'" "fresh h \<le> fresh h'" "set (calls h') \<subseteq> set (calls h)" by auto
    with w(2) show ?thesis unfolding Ret ends_on.simps by blast
  qed (use e in auto)
qed

lemma triple_some: "(\<And>x. triple (P x) m Q) \<Longrightarrow> triple (some_part P) m Q"
  unfolding triple_def some_part_def by blast

text \<open>Reading a field of an object.\<close>

lemma triple_read:
  assumes "triple (both (cell a ob) F) m' Q" "\<And>h. store h a = Some ob \<Longrightarrow> m h = m' h"
  shows "triple (both (cell a ob) F) m Q"
  unfolding triple_def
proof (intro allI impI, elim conjE)
  fix h S assume h: "wf_heap h" "both (cell a ob) F (store h) S"
  then have "store h a = Some ob" by (auto simp: both_def cell_def)
  then show "ends_on Q h S (m h)" using assms h by (simp add: triple_def)
qed

lemma triple_attempt: "triple nothing attempt (\<lambda>_. nothing)"
  by (auto simp: triple_def nothing_def attempt_def wf_heap_def split: list.splits)

lemma triple_acquire: "triple nothing (acquire ob) (\<lambda>a. cell a ob)"
  unfolding acquire_def
proof (rule triple_seq [OF triple_attempt], unfold triple_def, intro allI impI, elim conjE)
  fix u :: unit and h S assume h: "wf_heap h" "nothing (store h) S"
  then show "ends_on (\<lambda>a. cell a ob) h S (Ret (fresh h) (h\<lparr>store := (store h)(fresh h \<mapsto> ob), fresh := fresh h + 1\<rparr>))"
    by (auto simp: cell_def wf_heap_def nothing_def)
qed

lemma triple_release: "is_kind ob \<Longrightarrow> triple (cell a ob) (release is_kind a) (\<lambda>_. nothing)"
  by (auto simp: triple_def cell_def nothing_def release_def wf_heap_def)

text \<open>Changing a field.\<close>

lemma triple_put: "triple (cell a ob) (\<lambda>h. Ret u (put_obj a ob' h)) (\<lambda>_. cell a ob')"
  unfolding triple_def
proof (intro allI impI, elim conjE)
  fix h S assume h: "wf_heap h" "cell a ob (store h) S"
  then have "a < fresh h" by (metis cell_def not_le option.distinct(1) wf_heap_def)
  then have "wf_heap (put_obj a ob' h)" using h(1) by (simp add: wf_heap_def put_obj_def)
  then show "ends_on (\<lambda>_. cell a ob') h S (Ret u (put_obj a ob' h))" using h(2) by (auto simp: cell_def put_obj_def)
qed

text \<open>The rules in the form in which operations are walked through, one call after the other.\<close>

lemma triple_end: "(\<And>m S. P m S \<Longrightarrow> Q a m S) \<Longrightarrow> triple P (Ret a) Q"
  using triple_weaken [OF triple_ret [of Q a], of P Q] by blast

lemma triple_step:
  assumes "triple P m Q" "local_part P" "local_part F" "\<And>a. triple (both (Q a) F) (k a) R"
  shows "triple (both P F) (\<lambda>h. and_then (m h) k) R"
  using triple_seq [OF triple_frame [OF assms(1,3,2)] assms(4)] .

lemma triple_new:
  assumes "triple nothing m Q" "local_part F" "\<And>a. triple (both (Q a) F) (k a) R"
  shows "triple F (\<lambda>h. and_then (m h) k) R"
  using triple_step [OF assms(1) local_nothing assms(2,3)] by simp

lemma triple_drop:
  assumes "triple P m (\<lambda>_. nothing)" "local_part P" "local_part F" "triple F (k ()) R"
  shows "triple (both P F) (\<lambda>h. and_then (m h) k) R"
  using triple_step [OF assms(1-3)] assms(4) by simp

lemma triple_look:
  assumes "triple P m' Q" "\<And>h S. P (store h) S \<Longrightarrow> m h = m' h"
  shows "triple P m Q"
  using assms unfolding triple_def by fastforce

lemma triple_set:
  assumes "local_part F" "triple (both (cell a ob') F) k R"
  shows "triple (both (cell a ob) F) (\<lambda>h. k (put_obj a ob' h)) R"
proof -
  have "triple (both (cell a ob) F) (\<lambda>h. and_then (Ret () (put_obj a ob' h)) (\<lambda>_. k)) R"
    by (rule triple_step [OF triple_put]) (use assms in simp_all)
  then show ?thesis by simp
qed

text \<open>The last step of most create functions: the pointers of a structure are filled in.\<close>

lemma triple_fill:
  assumes "P = both (cell a ob) F" "local_part F" "\<And>m S. both (cell a ob') F m S \<Longrightarrow> Q r m S"
  shows "triple P (\<lambda>h. Ret r (put_obj a ob' h)) Q"
  unfolding assms(1) by (rule triple_set [OF assms(2)], rule triple_end) (rule assms(3))

lemma both_imp: "both P Q m S \<Longrightarrow> (\<exists>A. P m A) \<and> (\<exists>B. Q m B)"
  by (auto simp: both_def)

lemmas triple_simps = both_def cell_def nothing_def some_part_def

subsection \<open>Create and destroy\<close>

text \<open>Any number of objects.\<close>

fun create_all :: "nat \<Rightarrow> addr heap_op \<Rightarrow> addr list heap_op" where
  "create_all 0 create h = Ret [] h"
| "create_all (Suc n) create h = and_then (create h) (\<lambda>a h1. and_then (create_all n create h1) (\<lambda>as. Ret (a # as)))"

fun destroy_all :: "(addr \<Rightarrow> unit heap_op) \<Rightarrow> addr list \<Rightarrow> unit heap_op" where
  "destroy_all destroy [] h = Ret () h"
| "destroy_all destroy (a # as) h = and_then (destroy a h) (\<lambda>_. destroy_all destroy as)"

fun all_at :: "(addr \<Rightarrow> part) \<Rightarrow> addr list \<Rightarrow> part" where
  "all_at P [] = nothing"
| "all_at P (a # as) = both (P a) (all_at P as)"

lemma all_at_remove1: "a \<in> set as \<Longrightarrow> all_at P as = both (P a) (all_at P (remove1 a as))"
  by (induction as) (auto simp: both_left_comm)

lemma all_at_mset: "mset as = mset bs \<Longrightarrow> all_at P as = all_at P bs"
proof (induction as arbitrary: bs)
  case (Cons a as)
  then have "a \<in> set bs" by (metis list.set_intros(1) set_mset_mset)
  moreover have "mset as = mset (remove1 a bs)" using Cons.prems by (metis add_mset_remove_trivial mset.simps(2) mset_remove1)
  then have "all_at P as = all_at P (remove1 a bs)" by (rule Cons.IH)
  ultimately show ?case by (simp add: all_at_remove1 [of a bs])
qed simp

lemma local_all_at [simp]: "(\<And>a. local_part (P a)) \<Longrightarrow> local_part (all_at P as)"
  by (induction as) simp_all

text \<open>Objects that need not be there.\<close>

definition create_if :: "bool \<Rightarrow> addr heap_op \<Rightarrow> addr option heap_op" where
  "create_if b create h = (if b then and_then (create h) (\<lambda>a. Ret (Some a)) else Ret None h)"

fun destroy_opt :: "(addr \<Rightarrow> unit heap_op) \<Rightarrow> addr option \<Rightarrow> unit heap_op" where
  "destroy_opt destroy None h = Ret () h"
| "destroy_opt destroy (Some a) h = destroy a h"

locale managed =
  fixes create :: "addr heap_op" and destroy :: "addr \<Rightarrow> unit heap_op" and obj_at :: "addr \<Rightarrow> part"
  assumes creates: "triple nothing create obj_at"
    and destroys: "triple (obj_at a) (destroy a) (\<lambda>_. nothing)"
    and obj_local: "local_part (obj_at a)"
begin

text \<open>What is created and destroyed leaves no trace, whatever else is done to the rest of the store in between.\<close>

lemma round: "triple nothing (\<lambda>h. and_then (create h) destroy) (\<lambda>_. nothing)"
  by (rule triple_seq [OF creates destroys])

lemma round_around:
  assumes "triple F m (\<lambda>_. G)" "local_part F" "local_part G"
  shows "triple F (\<lambda>h. and_then (create h) (\<lambda>a h1. and_then (m h1) (\<lambda>_. destroy a))) (\<lambda>_. G)"
proof (rule triple_new [OF creates assms(2)])
  fix a
  have "triple (both F (obj_at a)) (\<lambda>h. and_then (m h) (\<lambda>_. destroy a)) (\<lambda>_. G)"
  proof (rule triple_step [OF assms(1,2) obj_local])
    show "triple (both G (obj_at a)) (destroy a) (\<lambda>_. G)" for u
      using triple_frame [OF destroys assms(3) obj_local] by (simp add: both_comm)
  qed
  then show "triple (both (obj_at a) F) (\<lambda>h. and_then (m h) (\<lambda>_. destroy a)) (\<lambda>_. G)" by (simp add: both_comm)
qed

lemma create_if_at: "triple nothing (create_if b create) (opt_part obj_at)"
proof (cases b)
  case True
  then have "create_if b create = (\<lambda>h. and_then (create h) (\<lambda>a. Ret (Some a)))" by (intro ext) (simp add: create_if_def)
  moreover have "triple nothing (\<lambda>h. and_then (create h) (\<lambda>a. Ret (Some a))) (opt_part obj_at)"
    by (rule triple_seq [OF creates], rule triple_end) simp
  ultimately show ?thesis by simp
next
  case False
  then have "create_if b create = Ret None" by (intro ext) (simp add: create_if_def)
  then show ?thesis by (simp add: triple_end)
qed

lemma destroy_opt_gone: "triple (opt_part obj_at p) (destroy_opt destroy p) (\<lambda>_. nothing)"
proof (cases p)
  case None
  have "destroy_opt destroy None = Ret ()" by (rule ext) simp
  with None show ?thesis by (simp add: triple_end)
next
  case (Some a)
  have "destroy_opt destroy (Some a) = destroy a" by (rule ext) simp
  with Some show ?thesis by (simp add: destroys)
qed

text \<open>Objects can be destroyed in any order.\<close>

lemma create_all_at: "triple nothing (create_all n create) (all_at obj_at)"
proof (induction n)
  case 0
  have "triple nothing (Ret []) (all_at obj_at)" by (rule triple_end) simp
  moreover have "create_all 0 create = Ret []" by (rule ext) simp
  ultimately show ?case by simp
next
  case (Suc n)
  have "create_all (Suc n) create = (\<lambda>h. and_then (create h) (\<lambda>a h1. and_then (create_all n create h1) (\<lambda>as. Ret (a # as))))" by (rule ext) simp
  moreover have "triple nothing (\<lambda>h. and_then (create h) (\<lambda>a h1. and_then (create_all n create h1) (\<lambda>as. Ret (a # as)))) (all_at obj_at)"
  proof (rule triple_seq [OF creates])
    show "triple (obj_at a) (\<lambda>h1. and_then (create_all n create h1) (\<lambda>as. Ret (a # as))) (all_at obj_at)" for a
      by (rule triple_new [OF Suc.IH obj_local], rule triple_end) (simp add: both_comm)
  qed
  ultimately show ?case by simp
qed

lemma destroy_all_gone: "triple (all_at obj_at as) (destroy_all destroy as) (\<lambda>_. nothing)"
proof (induction as)
  case Nil
  have "destroy_all destroy [] = Ret ()" by (rule ext) simp
  then show ?case by (simp add: triple_end)
next
  case (Cons a as)
  have "destroy_all destroy (a # as) = (\<lambda>h. and_then (destroy a h) (\<lambda>_. destroy_all destroy as))" by (rule ext) simp
  then show ?case using triple_drop [OF destroys obj_local _ Cons.IH] obj_local by simp
qed

lemma destroyed_in_any_order:
  assumes "\<And>as. mset (order as) = mset as"
  shows "triple nothing (\<lambda>h. and_then (create_all n create h) (\<lambda>as. destroy_all destroy (order as))) (\<lambda>_. nothing)"
proof (rule triple_seq [OF create_all_at])
  show "triple (all_at obj_at as) (destroy_all destroy (order as)) (\<lambda>_. nothing)" for as
    using destroy_all_gone [of "order as"] all_at_mset [OF assms] by simp
qed

end

abbreviation buffer_at :: "addr \<Rightarrow> part" where
  "buffer_at a \<equiv> cell a Buffer"

interpretation buffers: managed "acquire Buffer" free_mem buffer_at
  by unfold_locales (simp_all add: triple_acquire triple_release)

subsection \<open>Pipes, mutexes, mailboxes\<close>

definition h_self_pipe_create :: "addr heap_op" where
  "h_self_pipe_create h =
     and_then (acquire (Pipe_o 0 0) h) (\<lambda>sig h1.
     and_then (acquire (Descriptor 0) h1) (\<lambda>r h2.
     and_then (acquire (Descriptor 0) h2) (\<lambda>w h3.
     and_then (attempt h3) (\<lambda>_ h4. Ret sig (put_obj sig (Pipe_o r w) h4)))))"

definition h_self_pipe_destroy :: "addr \<Rightarrow> unit heap_op" where
  "h_self_pipe_destroy sig h =
     (case store h sig of
        Some (Pipe_o r w) \<Rightarrow>
          and_then (close_fd r h) (\<lambda>_ h1. and_then (close_fd w h1) (\<lambda>_. free_mem sig))
      | _ \<Rightarrow> Fault)"

definition h_self_pipe_signal :: "addr \<Rightarrow> unit heap_op" where
  "h_self_pipe_signal sig h =
     (case store h sig of
        Some (Pipe_o r w) \<Rightarrow>
          (case (store h r, store h w) of
             (Some (Descriptor n), Some (Descriptor k)) \<Rightarrow> and_then (attempt h) (\<lambda>_ h1. Ret () (put_obj r (Descriptor (n + 1)) h1))
           | _ \<Rightarrow> Fault)
      | _ \<Rightarrow> Fault)"

definition pipe_at :: "addr \<Rightarrow> part" where
  "pipe_at sig = some_part (\<lambda>(r, w, n, k). both (cell r (Descriptor n)) (both (cell w (Descriptor k)) (cell sig (Pipe_o r w))))"

lemma local_pipe_at [simp]: "local_part (pipe_at sig)"
  unfolding pipe_at_def by (intro local_some) (simp split: prod.split)

lemma pipe_created: "triple nothing h_self_pipe_create pipe_at"
  unfolding h_self_pipe_create_def
proof (rule triple_seq [OF triple_acquire], rule triple_new [OF triple_acquire], simp, rule triple_new [OF triple_acquire], simp,
    rule triple_new [OF triple_attempt], simp, rule triple_fill)
  fix sig r w m S assume "both (cell sig (Pipe_o r w)) (both (cell r (Descriptor 0)) (cell w (Descriptor 0))) m S"
  then show "pipe_at sig m S"
    unfolding pipe_at_def some_part_def by (intro exI [of _ "(r, w, 0, 0)"]) (simp add: both_ac)
qed (simp_all add: both_ac)

lemma pipe_destroyed: "triple (pipe_at sig) (h_self_pipe_destroy sig) (\<lambda>_. nothing)"
  unfolding pipe_at_def
proof (rule triple_some, clarify)
  fix r w n k
  show "triple (both (cell r (Descriptor n)) (both (cell w (Descriptor k)) (cell sig (Pipe_o r w)))) (h_self_pipe_destroy sig) (\<lambda>_. nothing)"
  proof (rule triple_look)
    show "triple (both (cell r (Descriptor n)) (both (cell w (Descriptor k)) (cell sig (Pipe_o r w))))
        (\<lambda>h. and_then (close_fd r h) (\<lambda>_ h1. and_then (close_fd w h1) (\<lambda>_. free_mem sig))) (\<lambda>_. nothing)"
      by (intro triple_drop triple_release) simp_all
  qed (auto simp: h_self_pipe_destroy_def triple_simps)
qed

interpretation pipes: managed h_self_pipe_create h_self_pipe_destroy pipe_at
  by unfold_locales (simp_all add: pipe_created pipe_destroyed)

text \<open>The condition variables of a mailbox are inside it; its destruction does not look at the contents.\<close>

definition h_mutex_create :: "addr heap_op" where
  "h_mutex_create h = and_then (acquire (Mutex_o None) h) (\<lambda>ftm h1. and_then (attempt h1) (\<lambda>_. Ret ftm))"

definition h_mutex_destroy :: "nat \<Rightarrow> addr \<Rightarrow> unit heap_op" where
  "h_mutex_destroy me ftm h =
     (case store h ftm of
        Some (Mutex_o holder) \<Rightarrow>
          if holder = Some me \<or> holder = None then and_then (attempt h) (\<lambda>_. free_mem ftm) else Fatal h
      | _ \<Rightarrow> Fault)"

definition mbox_create :: "addr heap_op" where
  "mbox_create h = and_then (acquire (Mbox_o None False) h) (\<lambda>mb h1.
     and_then (attempt h1) (\<lambda>_ h2. and_then (attempt h2) (\<lambda>_ h3. and_then (attempt h3) (\<lambda>_. Ret mb))))"

definition mbox_contents :: "addr \<Rightarrow> addr option heap_op" where
  "mbox_contents mb h = (case store h mb of Some (Mbox_o c full) \<Rightarrow> Ret c h | _ \<Rightarrow> Fault)"

definition mbox_is_full :: "addr \<Rightarrow> bool heap_op" where
  "mbox_is_full mb h = (case store h mb of Some (Mbox_o c full) \<Rightarrow> Ret full h | _ \<Rightarrow> Fault)"

definition h_mbox_post :: "addr \<Rightarrow> addr \<Rightarrow> unit heap_op" where
  "h_mbox_post mb contents h =
     (case store h mb of
        Some (Mbox_o c full) \<Rightarrow> if full then Asleep h else Ret () (put_obj mb (Mbox_o (Some contents) True) h)
      | _ \<Rightarrow> Fault)"

definition h_mbox_receive :: "addr \<Rightarrow> addr option heap_op" where
  "h_mbox_receive mb h =
     (case store h mb of
        Some (Mbox_o c full) \<Rightarrow> if full then Ret c (put_obj mb (Mbox_o None False) h) else Asleep h
      | _ \<Rightarrow> Fault)"

definition mbox_destroy :: "addr \<Rightarrow> unit heap_op" where
  "mbox_destroy mb h = (case store h mb of Some (Mbox_o c full) \<Rightarrow> free_mem mb h | _ \<Rightarrow> Fault)"

definition mbox_post_mirror_state :: "addr \<Rightarrow> unit heap_op" where
  "mbox_post_mirror_state mb h = and_then (acquire Buffer h) (h_mbox_post mb)"

text \<open>Who receives a state frees it.\<close>

definition h_control_client_mirror_wait :: "addr \<Rightarrow> unit heap_op" where
  "h_control_client_mirror_wait mb h =
     and_then (h_mbox_receive mb h) (\<lambda>contents h1. case contents of None \<Rightarrow> Fatal h1 | Some a \<Rightarrow> free_mem a h1)"

definition mutex_at :: "addr \<Rightarrow> part" where
  "mutex_at ftm = cell ftm (Mutex_o None)"

definition mbox_at :: "addr \<Rightarrow> part" where
  "mbox_at mb = cell mb (Mbox_o None False)"

lemma local_mutex_mbox [simp]: "local_part (mutex_at ftm)" "local_part (mbox_at mb)"
  by (simp_all add: mutex_at_def mbox_at_def)

lemma mutex_created: "triple nothing h_mutex_create mutex_at"
  unfolding h_mutex_create_def mutex_at_def
  by (rule triple_seq [OF triple_acquire], rule triple_new [OF triple_attempt], simp, rule triple_end) simp

lemma mutex_destroyed: "triple (mutex_at ftm) (h_mutex_destroy me ftm) (\<lambda>_. nothing)"
  unfolding mutex_at_def
proof (rule triple_look)
  show "triple (cell ftm (Mutex_o None)) (\<lambda>h. and_then (attempt h) (\<lambda>_. free_mem ftm)) (\<lambda>_. nothing)"
    by (rule triple_new [OF triple_attempt], simp) (simp add: triple_release)
qed (auto simp: h_mutex_destroy_def cell_def)

lemma mbox_created: "triple nothing mbox_create mbox_at"
  unfolding mbox_create_def mbox_at_def
  by (rule triple_seq [OF triple_acquire], rule triple_new [OF triple_attempt], simp, rule triple_new [OF triple_attempt], simp,
      rule triple_new [OF triple_attempt], simp, rule triple_end) simp

lemma mbox_freed: "triple (cell mb (Mbox_o c full)) (mbox_destroy mb) (\<lambda>_. nothing)"
  by (rule triple_look [OF triple_release [of is_memory]]) (auto simp: mbox_destroy_def cell_def)

interpretation mutexes: managed h_mutex_create "h_mutex_destroy me" mutex_at for me
  by unfold_locales (simp_all add: mutex_created mutex_destroyed)

interpretation mboxes: managed mbox_create mbox_destroy mbox_at
  by unfold_locales (simp_all add: mbox_created mbox_freed mbox_at_def [of a for a])

text \<open>A state that is posted to an empty mailbox and received leaves no memory behind; one that is still there when the mailbox goes is lost.\<close>

lemma state_posted: "triple (mbox_at mb) (mbox_post_mirror_state mb) (\<lambda>_. some_part (\<lambda>a. both (buffer_at a) (cell mb (Mbox_o (Some a) True))))"
  unfolding mbox_post_mirror_state_def mbox_at_def
proof (rule triple_new [OF triple_acquire], simp)
  fix a
  let ?Q = "\<lambda>_. some_part (\<lambda>a. both (buffer_at a) (cell mb (Mbox_o (Some a) True)))"
  have "triple (both (cell mb (Mbox_o None False)) (buffer_at a)) (\<lambda>h. Ret () (put_obj mb (Mbox_o (Some a) True) h)) ?Q"
    by (rule triple_fill [OF refl]) (auto simp: some_part_def both_comm)
  then show "triple (both (buffer_at a) (cell mb (Mbox_o None False))) (h_mbox_post mb a) ?Q"
    unfolding both_comm [of "buffer_at a" "cell mb (Mbox_o None False)"]
    by (rule triple_look) (auto simp: h_mbox_post_def cell_def dest!: both_imp)
qed

lemma state_received: "triple (both (buffer_at a) (cell mb (Mbox_o (Some a) True))) (h_control_client_mirror_wait mb) (\<lambda>_. mbox_at mb)"
proof -
  have "triple (both (buffer_at a) (cell mb (Mbox_o None False))) (free_mem a) (\<lambda>_. both nothing (cell mb (Mbox_o None False)))"
    by (rule triple_frame [OF triple_release]) simp_all
  then have "triple (both (cell mb (Mbox_o None False)) (buffer_at a)) (free_mem a) (\<lambda>_. mbox_at mb)" by (simp add: both_comm mbox_at_def)
  then have "triple (both (cell mb (Mbox_o (Some a) True)) (buffer_at a)) (\<lambda>h. free_mem a (put_obj mb (Mbox_o None False) h)) (\<lambda>_. mbox_at mb)"
    by (intro triple_set) simp_all
  then show ?thesis unfolding both_comm [of "buffer_at a"]
    by (rule triple_look) (auto simp: h_control_client_mirror_wait_def h_mbox_receive_def cell_def dest!: both_imp)
qed

theorem posted_state_received: "triple (mbox_at mb) (\<lambda>h. and_then (mbox_post_mirror_state mb h) (\<lambda>_. h_control_client_mirror_wait mb)) (\<lambda>_. mbox_at mb)"
  by (rule triple_seq [OF state_posted], rule triple_some, rule state_received)

theorem unread_state_lost:
  "triple (mbox_at mb) (\<lambda>h. and_then (mbox_post_mirror_state mb h) (\<lambda>_. mbox_destroy mb)) (\<lambda>_. some_part buffer_at)"
proof (rule triple_seq [OF state_posted], rule triple_some)
  fix a
  have "triple (both (cell mb (Mbox_o (Some a) True)) (buffer_at a)) (mbox_destroy mb) (\<lambda>_. buffer_at a)"
    using triple_frame [OF mbox_freed, of "buffer_at a"] by simp
  then show "triple (both (buffer_at a) (cell mb (Mbox_o (Some a) True))) (mbox_destroy mb) (\<lambda>_. some_part buffer_at)"
    unfolding both_comm [of "buffer_at a"] by (rule triple_weaken) (auto simp: some_part_def)
qed

subsection \<open>Clients and access lists\<close>

text \<open>The killswitch signal carries the number of the socket; its handler shuts that socket down.\<close>

definition client_create :: "addr \<Rightarrow> addr heap_op" where
  "client_create socket h =
     and_then (acquire (Client_o 0 0 socket) h) (\<lambda>c h1.
     and_then (h_self_pipe_create h1) (\<lambda>stop_signal h2.
     and_then (acquire (Timer socket) h2) (\<lambda>kill h3.
       Ret c (put_obj c (Client_o stop_signal kill socket) h3))))"

definition h_client_signal_stop :: "addr \<Rightarrow> unit heap_op" where
  "h_client_signal_stop c h =
     (case store h c of Some (Client_o stop_signal kill socket) \<Rightarrow> h_self_pipe_signal stop_signal h | _ \<Rightarrow> Fault)"

definition client_destroy :: "addr \<Rightarrow> unit heap_op" where
  "client_destroy c h =
     (case store h c of
        Some (Client_o stop_signal kill socket) \<Rightarrow>
          and_then (release is_timer kill h) (\<lambda>_ h1. and_then (h_self_pipe_destroy stop_signal h1) (\<lambda>_. free_mem c))
      | _ \<Rightarrow> Fault)"

definition client_killswitch_hit :: "addr \<Rightarrow> (addr \<Rightarrow> bool) \<Rightarrow> unit heap_op" where
  "client_killswitch_hit kill shuts h =
     (case store h kill of
        Some (Timer fd) \<Rightarrow>
          (case store h fd of Some (Descriptor n) \<Rightarrow> if shuts fd then Ret () h else Fatal h | _ \<Rightarrow> Fatal h)
      | _ \<Rightarrow> Fault)"

definition client_at :: "addr \<Rightarrow> part" where
  "client_at c = some_part (\<lambda>(p, t, s). both (cell t (Timer s)) (both (pipe_at p) (cell c (Client_o p t s))))"

lemma local_client_at [simp]: "local_part (client_at c)"
  unfolding client_at_def by (intro local_some) (simp split: prod.split)

lemma client_created: "triple nothing (client_create socket) client_at"
  unfolding client_create_def
proof (rule triple_seq [OF triple_acquire], rule triple_new [OF pipe_created], simp, rule triple_new [OF triple_acquire], simp, rule triple_fill)
  fix c p t m S assume "both (cell c (Client_o p t socket)) (both (pipe_at p) (cell t (Timer socket))) m S"
  then show "client_at c m S"
    unfolding client_at_def some_part_def by (intro exI [of _ "(p, t, socket)"]) (simp add: both_ac)
qed (simp_all add: both_ac)

lemma client_destroyed: "triple (client_at c) (client_destroy c) (\<lambda>_. nothing)"
  unfolding client_at_def
proof (rule triple_some, clarify)
  fix p t s
  show "triple (both (cell t (Timer s)) (both (pipe_at p) (cell c (Client_o p t s)))) (client_destroy c) (\<lambda>_. nothing)"
  proof (rule triple_look)
    show "triple (both (cell t (Timer s)) (both (pipe_at p) (cell c (Client_o p t s))))
        (\<lambda>h. and_then (release is_timer t h) (\<lambda>_ h1. and_then (h_self_pipe_destroy p h1) (\<lambda>_. free_mem c))) (\<lambda>_. nothing)"
      by (intro triple_drop triple_release pipe_destroyed) simp_all
  qed (auto simp: client_destroy_def triple_simps)
qed

interpretation clients: managed "client_create socket" client_destroy client_at for socket
  by unfold_locales (simp_all add: client_created client_destroyed)

text \<open>The entries of an access list are a second block, absent when there are none; \<open>n\<close> is the number of lines parsed.\<close>

definition h_acl_create :: "nat \<Rightarrow> addr heap_op" where
  "h_acl_create n h =
     and_then (acquire (Acl_o None) h) (\<lambda>al h1.
       if n = 0 then Ret al h1
       else and_then (acquire Buffer h1) (\<lambda>es h2. Ret al (put_obj al (Acl_o (Some es)) h2)))"

definition acl_destroy :: "addr \<Rightarrow> unit heap_op" where
  "acl_destroy al h =
     (case store h al of Some (Acl_o es) \<Rightarrow> and_then (destroy_opt free_mem es h) (\<lambda>_. free_mem al) | _ \<Rightarrow> Fault)"

definition acl_at :: "addr \<Rightarrow> part" where
  "acl_at al = some_part (\<lambda>es. both (opt_part buffer_at es) (cell al (Acl_o es)))"

lemma local_acl_at [simp]: "local_part (acl_at al)"
  by (simp add: acl_at_def)

lemma acl_created: "triple nothing (h_acl_create n) acl_at"
  unfolding h_acl_create_def
proof (rule triple_seq [OF triple_acquire])
  fix al
  show "triple (cell al (Acl_o None)) (\<lambda>h1. if n = 0 then Ret al h1
      else and_then (acquire Buffer h1) (\<lambda>es h2. Ret al (put_obj al (Acl_o (Some es)) h2))) acl_at"
  proof (cases "n = 0")
    case True
    have "triple (cell al (Acl_o None)) (Ret al) acl_at"
      by (rule triple_end) (auto simp: acl_at_def some_part_def intro!: exI [of _ None])
    with True show ?thesis by simp
  next
    case False
    have "triple (cell al (Acl_o None)) (\<lambda>h1. and_then (acquire Buffer h1) (\<lambda>es h2. Ret al (put_obj al (Acl_o (Some es)) h2))) acl_at"
    proof (rule triple_new [OF triple_acquire], simp, rule triple_fill)
      fix es m S assume "both (cell al (Acl_o (Some es))) (buffer_at es) m S"
      then show "acl_at al m S" unfolding acl_at_def some_part_def by (intro exI [of _ "Some es"]) (simp add: both_comm)
    qed (simp_all add: both_ac)
    with False show ?thesis by simp
  qed
qed

lemma acl_destroyed: "triple (acl_at al) (acl_destroy al) (\<lambda>_. nothing)"
  unfolding acl_at_def
proof (rule triple_some)
  fix es
  show "triple (both (opt_part buffer_at es) (cell al (Acl_o es))) (acl_destroy al) (\<lambda>_. nothing)"
  proof (rule triple_look)
    show "triple (both (opt_part buffer_at es) (cell al (Acl_o es))) (\<lambda>h. and_then (destroy_opt free_mem es h) (\<lambda>_. free_mem al)) (\<lambda>_. nothing)"
      by (intro triple_drop triple_release buffers.destroy_opt_gone) simp_all
  qed (auto simp: acl_destroy_def triple_simps)
qed

interpretation acls: managed "h_acl_create n" acl_destroy acl_at for n
  by unfold_locales (simp_all add: acl_created acl_destroyed)

subsection \<open>The server\<close>

text \<open>The allocation map is one block with its bits; its st is another.\<close>

definition h_bitset_alloc :: "addr heap_op" where
  "h_bitset_alloc h =
     and_then (acquire (Bitset_o None) h) (\<lambda>bs h1.
     and_then (acquire Buffer h1) (\<lambda>st h2. Ret bs (put_obj bs (Bitset_o (Some st)) h2)))"

definition bitset_free :: "addr \<Rightarrow> unit heap_op" where
  "bitset_free bs h =
     (case store h bs of
        Some (Bitset_o st) \<Rightarrow> and_then (destroy_opt free_mem st h) (\<lambda>_ h1. free_mem bs (put_obj bs (Bitset_o None) h1))
      | _ \<Rightarrow> Fault)"

definition bitset_at :: "addr \<Rightarrow> part" where
  "bitset_at bs = some_part (\<lambda>st. both (opt_part buffer_at st) (cell bs (Bitset_o st)))"

lemma local_bitset_at [simp]: "local_part (bitset_at bs)"
  by (simp add: bitset_at_def)

lemma bitset_created: "triple nothing h_bitset_alloc bitset_at"
  unfolding h_bitset_alloc_def
proof (rule triple_seq [OF triple_acquire], rule triple_new [OF triple_acquire], simp, rule triple_fill)
  fix bs st m S assume "both (cell bs (Bitset_o (Some st))) (buffer_at st) m S"
  then show "bitset_at bs m S" unfolding bitset_at_def some_part_def by (intro exI [of _ "Some st"]) (simp add: both_comm)
qed (simp_all add: both_ac)

lemma bitset_destroyed: "triple (bitset_at bs) (bitset_free bs) (\<lambda>_. nothing)"
  unfolding bitset_at_def
proof (rule triple_some)
  fix st
  let ?P = "both (opt_part buffer_at st) (cell bs (Bitset_o st))"
  have put: "triple (cell bs (Bitset_o st)) (\<lambda>h1. free_mem bs (put_obj bs (Bitset_o None) h1)) (\<lambda>_. nothing)"
    using triple_set [of nothing bs "Bitset_o None" "free_mem bs" "\<lambda>_. nothing" "Bitset_o st"] by (simp add: triple_release)
  show "triple ?P (bitset_free bs) (\<lambda>_. nothing)"
  proof (rule triple_look)
    show "triple ?P (\<lambda>h. and_then (destroy_opt free_mem st h) (\<lambda>_ h1. free_mem bs (put_obj bs (Bitset_o None) h1))) (\<lambda>_. nothing)"
      by (intro triple_drop buffers.destroy_opt_gone put) simp_all
  qed (auto simp: bitset_free_def triple_simps)
qed

interpretation maps: managed h_bitset_alloc bitset_free bitset_at
  by unfold_locales (simp_all add: bitset_created bitset_destroyed)

text \<open>Address, port and access list are checked on the way.\<close>

definition h_server_create :: "nat \<Rightarrow> addr heap_op" where
  "h_server_create entries_n h =
     and_then (acquire (Server_o None None 0 0 None 0) h) (\<lambda>out h1.
     and_then (acquire Buffer h1) (\<lambda>nbd h2.
     and_then (attempt h2) (\<lambda>_ h3.
     and_then (h_acl_create entries_n h3) (\<lambda>al h4.
     and_then (attempt h4) (\<lambda>_ h5.
     and_then (h_mutex_create h5) (\<lambda>la h6.
     and_then (h_mutex_create h6) (\<lambda>lm h7.
     and_then (h_self_pipe_create h7) (\<lambda>cl h8.
     and_then (h_self_pipe_create h8) (\<lambda>au h9.
       Ret out (put_obj out (Server_o (Some au) (Some cl) lm la (Some al) nbd) h9))))))))))"

definition server_destroy :: "nat \<Rightarrow> addr \<Rightarrow> unit heap_op" where
  "server_destroy me sv h =
     (case store h sv of
        Some (Server_o (Some au) (Some cl) lm la al nbd) \<Rightarrow>
          and_then (h_self_pipe_destroy au h) (\<lambda>_ h1.
          and_then (h_self_pipe_destroy cl h1) (\<lambda>_ h2.
          and_then (h_mutex_destroy me lm h2) (\<lambda>_ h3.
          and_then (h_mutex_destroy me la h3) (\<lambda>_ h4.
          and_then (destroy_opt acl_destroy al h4) (\<lambda>_ h5.
          and_then (free_mem nbd h5) (\<lambda>_. free_mem sv))))))
      | _ \<Rightarrow> Fault)"

definition server_at :: "addr \<Rightarrow> part" where
  "server_at sv = some_part (\<lambda>(au, cl, lm, la, al, nbd).
     both (pipe_at au) (both (pipe_at cl) (both (mutex_at lm) (both (mutex_at la) (both (opt_part acl_at al) (both (buffer_at nbd)
       (cell sv (Server_o (Some au) (Some cl) lm la al nbd))))))))"

lemma local_server_at [simp]: "local_part (server_at sv)"
  unfolding server_at_def by (intro local_some) (simp split: prod.split)

lemma server_created: "triple nothing (h_server_create entries_n) server_at"
  unfolding h_server_create_def
proof (rule triple_seq [OF triple_acquire], rule triple_new [OF triple_acquire], simp, rule triple_new [OF triple_attempt], simp,
    rule triple_new [OF acl_created], simp, rule triple_new [OF triple_attempt], simp, rule triple_new [OF mutex_created], simp,
    rule triple_new [OF mutex_created], simp, rule triple_new [OF pipe_created], simp, rule triple_new [OF pipe_created], simp, rule triple_fill)
  fix out nbd al la lm cl au m S
  assume "both (cell out (Server_o (Some au) (Some cl) lm la (Some al) nbd))
    (both (pipe_at au) (both (pipe_at cl) (both (mutex_at lm) (both (mutex_at la) (both (acl_at al) (buffer_at nbd)))))) m S"
  then show "server_at out m S"
    unfolding server_at_def some_part_def by (intro exI [of _ "(au, cl, lm, la, Some al, nbd)"]) (simp add: both_ac)
qed (simp_all add: both_ac)

lemma server_destroyed: "triple (server_at sv) (server_destroy me sv) (\<lambda>_. nothing)"
  unfolding server_at_def
proof (rule triple_some, clarify)
  fix au cl lm la al nbd
  let ?P = "both (pipe_at au) (both (pipe_at cl) (both (mutex_at lm) (both (mutex_at la) (both (opt_part acl_at al) (both (buffer_at nbd)
       (cell sv (Server_o (Some au) (Some cl) lm la al nbd)))))))"
  show "triple ?P (server_destroy me sv) (\<lambda>_. nothing)"
  proof (rule triple_look)
    show "triple ?P (\<lambda>h. and_then (h_self_pipe_destroy au h) (\<lambda>_ h1. and_then (h_self_pipe_destroy cl h1) (\<lambda>_ h2.
        and_then (h_mutex_destroy me lm h2) (\<lambda>_ h3. and_then (h_mutex_destroy me la h3) (\<lambda>_ h4.
        and_then (destroy_opt acl_destroy al h4) (\<lambda>_ h5. and_then (free_mem nbd h5) (\<lambda>_. free_mem sv))))))) (\<lambda>_. nothing)"
      by (intro triple_drop triple_release pipe_destroyed mutex_destroyed acls.destroy_opt_gone) simp_all
  qed (auto simp: server_destroy_def both_def cell_def)
qed

interpretation servers: managed "h_server_create entries_n" "server_destroy me" server_at for entries_n me
  by unfold_locales (simp_all add: server_created server_destroyed)

text \<open>Ownership of a new access list passes to the server; the old list goes.\<close>

definition h_server_replace_acl :: "addr \<Rightarrow> addr \<Rightarrow> unit heap_op" where
  "h_server_replace_acl sv new_acl h =
     (case store h sv of
        Some (Server_o (Some au) cl lm la old_acl nbd) \<Rightarrow>
          and_then (destroy_opt acl_destroy old_acl (put_obj sv (Server_o (Some au) cl lm la (Some new_acl) nbd) h)) (\<lambda>_. h_self_pipe_signal au)
      | _ \<Rightarrow> Fault)"

lemma pipe_signalled: "triple (pipe_at sig) (h_self_pipe_signal sig) (\<lambda>_. pipe_at sig)"
  unfolding pipe_at_def
proof (rule triple_some, clarify)
  fix r w n k
  let ?F = "both (cell w (Descriptor k)) (cell sig (Pipe_o r w))"
  show "triple (both (cell r (Descriptor n)) ?F) (h_self_pipe_signal sig)
      (\<lambda>_. some_part (\<lambda>(r, w, n, k). both (cell r (Descriptor n)) (both (cell w (Descriptor k)) (cell sig (Pipe_o r w)))))"
  proof (rule triple_look)
    show "triple (both (cell r (Descriptor n)) ?F) (\<lambda>h. and_then (attempt h) (\<lambda>_ h1. Ret () (put_obj r (Descriptor (n + 1)) h1)))
        (\<lambda>_. some_part (\<lambda>(r, w, n, k). both (cell r (Descriptor n)) (both (cell w (Descriptor k)) (cell sig (Pipe_o r w)))))"
    proof (rule triple_new [OF triple_attempt], simp, rule triple_fill)
      fix m S assume "both (cell r (Descriptor (n + 1))) ?F m S"
      then show "some_part (\<lambda>(r, w, n, k). both (cell r (Descriptor n)) (both (cell w (Descriptor k)) (cell sig (Pipe_o r w)))) m S"
        unfolding some_part_def by (intro exI [of _ "(r, w, n + 1, k)"]) simp
    qed simp_all
  qed (auto simp: h_self_pipe_signal_def triple_simps)
qed

lemma acl_replaced: "triple (both (server_at sv) (acl_at new_acl)) (h_server_replace_acl sv new_acl) (\<lambda>_. server_at sv)"
  unfolding server_at_def both_some
proof (rule triple_some, clarify)
  fix au cl lm la al nbd
  let ?F = "both (pipe_at cl) (both (mutex_at lm) (both (mutex_at la) (both (acl_at new_acl) (buffer_at nbd))))"
  let ?s = "\<lambda>a. cell sv (Server_o (Some au) (Some cl) lm la a nbd)"
  let ?Q = "\<lambda>_. some_part (\<lambda>(au, cl, lm, la, al, nbd). both (pipe_at au) (both (pipe_at cl) (both (mutex_at lm) (both (mutex_at la)
      (both (opt_part acl_at al) (both (buffer_at nbd) (cell sv (Server_o (Some au) (Some cl) lm la al nbd))))))))"
  have sig: "triple (both (pipe_at au) (both (?s (Some new_acl)) ?F)) (h_self_pipe_signal au) ?Q"
  proof (rule triple_weaken [OF triple_frame [OF pipe_signalled, of "both (?s (Some new_acl)) ?F"]])
    fix m S assume "both (pipe_at au) (both (?s (Some new_acl)) ?F) m S"
    then show "?Q () m S" unfolding some_part_def by (intro exI [of _ "(au, cl, lm, la, Some new_acl, nbd)"]) (simp add: both_ac)
  qed simp_all
  have "triple (both (opt_part acl_at al) (both (?s (Some new_acl)) (both (pipe_at au) ?F)))
      (\<lambda>h. and_then (destroy_opt acl_destroy al h) (\<lambda>_. h_self_pipe_signal au)) ?Q"
    using sig by (intro triple_drop acls.destroy_opt_gone) (simp_all add: both_left_comm)
  then have "triple (both (?s (Some new_acl)) (both (opt_part acl_at al) (both (pipe_at au) ?F)))
      (\<lambda>h. and_then (destroy_opt acl_destroy al h) (\<lambda>_. h_self_pipe_signal au)) ?Q" by (simp add: both_left_comm)
  then have "triple (both (?s al) (both (opt_part acl_at al) (both (pipe_at au) ?F)))
      (\<lambda>h. and_then (destroy_opt acl_destroy al (put_obj sv (Server_o (Some au) (Some cl) lm la (Some new_acl) nbd) h)) (\<lambda>_. h_self_pipe_signal au)) ?Q"
    by (intro triple_set) simp_all
  then have "triple (both (both (pipe_at au) (both (pipe_at cl) (both (mutex_at lm) (both (mutex_at la) (both (opt_part acl_at al) (both (buffer_at nbd) (?s al))))))) (acl_at new_acl))
      (\<lambda>h. and_then (destroy_opt acl_destroy al (put_obj sv (Server_o (Some au) (Some cl) lm la (Some new_acl) nbd) h)) (\<lambda>_. h_self_pipe_signal au)) ?Q"
    by (simp add: both_ac)
  then show "triple (both (both (pipe_at au) (both (pipe_at cl) (both (mutex_at lm) (both (mutex_at la) (both (opt_part acl_at al) (both (buffer_at nbd) (?s al))))))) (acl_at new_acl))
      (h_server_replace_acl sv new_acl) ?Q"
    by (rule triple_look) (auto simp: h_server_replace_acl_def both_def cell_def)
qed

subsection \<open>The control socket and the process\<close>

definition control_create :: "addr heap_op" where
  "control_create h =
     and_then (acquire (Control_o 0 0 0) h) (\<lambda>control h1.
     and_then (h_self_pipe_create h1) (\<lambda>open_signal h2.
     and_then (h_self_pipe_create h2) (\<lambda>close_signal h3.
     and_then (mbox_create h3) (\<lambda>mirror_state_mbox h4.
       Ret control (put_obj control (Control_o open_signal close_signal mirror_state_mbox) h4)))))"

definition control_destroy :: "addr \<Rightarrow> unit heap_op" where
  "control_destroy control h =
     (case store h control of
        Some (Control_o op cl mb) \<Rightarrow>
          and_then (mbox_destroy mb h) (\<lambda>_ h1.
          and_then (h_self_pipe_destroy cl h1) (\<lambda>_ h2.
          and_then (h_self_pipe_destroy op h2) (\<lambda>_. free_mem control)))
      | _ \<Rightarrow> Fault)"

definition control_client_create :: "addr \<Rightarrow> addr \<Rightarrow> addr heap_op" where
  "control_client_create client_fd state_mbox = acquire (Control_client_o client_fd state_mbox)"

definition control_client_destroy :: "addr \<Rightarrow> unit heap_op" where
  "control_client_destroy = free_mem"

definition control_at :: "addr \<Rightarrow> part" where
  "control_at co = some_part (\<lambda>(op, cl, mb). both (mbox_at mb) (both (pipe_at cl) (both (pipe_at op) (cell co (Control_o op cl mb)))))"

lemma local_control_at [simp]: "local_part (control_at co)"
  unfolding control_at_def by (intro local_some) (simp split: prod.split)

lemma control_created: "triple nothing control_create control_at"
  unfolding control_create_def
proof (rule triple_seq [OF triple_acquire], rule triple_new [OF pipe_created], simp, rule triple_new [OF pipe_created], simp,
    rule triple_new [OF mbox_created], simp, rule triple_fill)
  fix co op cl mb m S assume "both (cell co (Control_o op cl mb)) (both (mbox_at mb) (both (pipe_at cl) (pipe_at op))) m S"
  then show "control_at co m S" unfolding control_at_def some_part_def by (intro exI [of _ "(op, cl, mb)"]) (simp add: both_ac)
qed (simp_all add: both_ac)

lemma control_destroyed: "triple (control_at co) (control_destroy co) (\<lambda>_. nothing)"
  unfolding control_at_def
proof (rule triple_some, clarify)
  fix op cl mb
  let ?P = "both (mbox_at mb) (both (pipe_at cl) (both (pipe_at op) (cell co (Control_o op cl mb))))"
  have mb: "triple (mbox_at mb) (mbox_destroy mb) (\<lambda>_. nothing)" by (simp add: mbox_at_def mbox_freed)
  show "triple ?P (control_destroy co) (\<lambda>_. nothing)"
  proof (rule triple_look)
    show "triple ?P (\<lambda>h. and_then (mbox_destroy mb h) (\<lambda>_ h1. and_then (h_self_pipe_destroy cl h1) (\<lambda>_ h2.
        and_then (h_self_pipe_destroy op h2) (\<lambda>_. free_mem co)))) (\<lambda>_. nothing)"
      by (intro triple_drop triple_release pipe_destroyed mb) simp_all
  qed (auto simp: control_destroy_def both_def cell_def)
qed

interpretation controls: managed control_create control_destroy control_at
  by unfold_locales (simp_all add: control_created control_destroyed)

interpretation control_clients: managed "control_client_create client_fd mb" control_client_destroy
    "\<lambda>a. some_part (\<lambda>(fd, mb). cell a (Control_client_o fd mb))" for client_fd mb
proof unfold_locales
  show "triple nothing (control_client_create client_fd mb) (\<lambda>a. some_part (\<lambda>(fd, mb). cell a (Control_client_o fd mb)))"
    unfolding control_client_create_def
    by (rule triple_weaken [OF triple_acquire]) (auto simp: some_part_def)
  show "triple (some_part (\<lambda>(fd, mb). cell a (Control_client_o fd mb))) (control_client_destroy a) (\<lambda>_. nothing)" for a
    by (rule triple_some) (auto simp: control_client_destroy_def triple_release)
  show "local_part (some_part (\<lambda>(fd, mb). cell a (Control_client_o fd mb)))" for a
    by (intro local_some) (simp split: prod.split)
qed

text \<open>The process: a server, a control object when a socket was named, and a descriptor for signals.  \<open>flexnbd_destroy\<close> leaves the server alone.\<close>

definition flexnbd_build_signal_fd :: "addr heap_op" where
  "flexnbd_build_signal_fd h = and_then (attempt h) (\<lambda>_. acquire (Descriptor 0))"

definition flexnbd_create_shared :: "addr \<Rightarrow> bool \<Rightarrow> unit heap_op" where
  "flexnbd_create_shared flexnbd has_sock h =
     (case store h flexnbd of
        Some (Flexnbd_o sv c0 fd0) \<Rightarrow>
          and_then (create_if has_sock control_create h) (\<lambda>control h1.
          and_then (flexnbd_build_signal_fd h1) (\<lambda>signal_fd h2. Ret () (put_obj flexnbd (Flexnbd_o sv control signal_fd) h2)))
      | _ \<Rightarrow> Fault)"

definition h_flexnbd_create :: "nat \<Rightarrow> bool \<Rightarrow> bool \<Rightarrow> addr heap_op" where
  "h_flexnbd_create entries_n has_sock killswitch_on h =
     and_then (acquire (Flexnbd_o 0 None 0) h) (\<lambda>flexnbd h1.
     and_then (h_server_create entries_n h1) (\<lambda>sv h2.
     and_then (flexnbd_create_shared flexnbd has_sock (put_obj flexnbd (Flexnbd_o sv None 0) h2)) (\<lambda>_ h3.
       if killswitch_on then and_then (attempt h3) (\<lambda>_. Ret flexnbd) else Ret flexnbd h3)))"

text \<open>While it serves, the process runs a control thread, which it stops by a signal and joins.\<close>

definition h_control_signal_close :: "addr \<Rightarrow> unit heap_op" where
  "h_control_signal_close co h = (case store h co of Some (Control_o op cl mb) \<Rightarrow> h_self_pipe_signal cl h | _ \<Rightarrow> Fault)"

definition flexnbd_spawn_control :: "addr \<Rightarrow> unit heap_op" where
  "flexnbd_spawn_control flexnbd h =
     (case store h flexnbd of
        Some (Flexnbd_o sv None fd) \<Rightarrow> Fatal h
      | Some (Flexnbd_o sv (Some co) fd) \<Rightarrow> (case store h co of Some (Control_o op cl mb) \<Rightarrow> attempt h | _ \<Rightarrow> Fault)
      | _ \<Rightarrow> Fault)"

definition flexnbd_stop_control :: "addr \<Rightarrow> unit heap_op" where
  "flexnbd_stop_control flexnbd h =
     (case store h flexnbd of
        Some (Flexnbd_o sv None fd) \<Rightarrow> Fatal h
      | Some (Flexnbd_o sv (Some co) fd) \<Rightarrow> and_then (h_control_signal_close co h) (\<lambda>_. attempt)
      | _ \<Rightarrow> Fault)"

definition h_flexnbd_serve :: "addr \<Rightarrow> unit heap_op" where
  "h_flexnbd_serve flexnbd h =
     (case store h flexnbd of
        Some (Flexnbd_o sv None fd) \<Rightarrow> Ret () h
      | Some (Flexnbd_o sv (Some co) fd) \<Rightarrow> and_then (flexnbd_spawn_control flexnbd h) (\<lambda>_. flexnbd_stop_control flexnbd)
      | _ \<Rightarrow> Fault)"

definition flexnbd_server :: "addr \<Rightarrow> addr heap_op" where
  "flexnbd_server flexnbd h = (case store h flexnbd of Some (Flexnbd_o sv c fd) \<Rightarrow> Ret sv h | _ \<Rightarrow> Fault)"

definition flexnbd_signal_fd :: "addr \<Rightarrow> addr heap_op" where
  "flexnbd_signal_fd flexnbd h = (case store h flexnbd of Some (Flexnbd_o sv c fd) \<Rightarrow> Ret fd h | _ \<Rightarrow> Fault)"

definition flexnbd_set_server :: "addr \<Rightarrow> addr \<Rightarrow> unit heap_op" where
  "flexnbd_set_server flexnbd sv h =
     (case store h flexnbd of Some (Flexnbd_o _ c fd) \<Rightarrow> Ret () (put_obj flexnbd (Flexnbd_o sv c fd) h) | _ \<Rightarrow> Fault)"

definition flexnbd_replace_acl :: "addr \<Rightarrow> addr \<Rightarrow> unit heap_op" where
  "flexnbd_replace_acl flexnbd new_acl h = and_then (flexnbd_server flexnbd h) (\<lambda>sv. h_server_replace_acl sv new_acl)"

definition flexnbd_destroy :: "addr \<Rightarrow> unit heap_op" where
  "flexnbd_destroy flexnbd h =
     (case store h flexnbd of
        Some (Flexnbd_o sv c fd) \<Rightarrow>
          and_then (destroy_opt control_destroy c h) (\<lambda>_ h1. and_then (close_fd fd h1) (\<lambda>_. free_mem flexnbd))
      | _ \<Rightarrow> Fault)"

definition flexnbd_at :: "addr \<Rightarrow> addr \<Rightarrow> part" where
  "flexnbd_at sv f = some_part (\<lambda>(c, fd, n). both (opt_part control_at c) (both (cell fd (Descriptor n)) (cell f (Flexnbd_o sv c fd))))"

lemma local_flexnbd_at [simp]: "local_part (flexnbd_at sv f)"
  unfolding flexnbd_at_def by (intro local_some) (simp split: prod.split)

lemma signal_fd_created: "triple nothing flexnbd_build_signal_fd (\<lambda>fd. cell fd (Descriptor 0))"
  unfolding flexnbd_build_signal_fd_def by (rule triple_seq [OF triple_attempt], rule triple_acquire)

lemma shared_created: "triple (cell f (Flexnbd_o sv c0 fd0)) (flexnbd_create_shared f has_sock) (\<lambda>_. flexnbd_at sv f)"
proof (rule triple_look)
  show "triple (cell f (Flexnbd_o sv c0 fd0)) (\<lambda>h. and_then (create_if has_sock control_create h) (\<lambda>control h1.
      and_then (flexnbd_build_signal_fd h1) (\<lambda>signal_fd h2. Ret () (put_obj f (Flexnbd_o sv control signal_fd) h2)))) (\<lambda>_. flexnbd_at sv f)"
  proof (rule triple_new [OF controls.create_if_at], simp, rule triple_new [OF signal_fd_created], simp, rule triple_fill)
    fix c fd m S assume "both (cell f (Flexnbd_o sv c fd)) (both (opt_part control_at c) (cell fd (Descriptor 0))) m S"
    then show "flexnbd_at sv f m S" unfolding flexnbd_at_def some_part_def by (intro exI [of _ "(c, fd, 0)"]) (simp add: both_ac)
  qed (simp_all add: both_ac)
qed (auto simp: flexnbd_create_shared_def cell_def)

text \<open>A process as it stands: its own objects and its server.\<close>

definition process_at :: "addr \<Rightarrow> part" where
  "process_at f = some_part (\<lambda>sv. both (flexnbd_at sv f) (server_at sv))"

lemma local_process_at [simp]: "local_part (process_at f)"
  by (simp add: process_at_def)

lemma flexnbd_created: "triple nothing (h_flexnbd_create entries_n has_sock killswitch_on) process_at"
  unfolding h_flexnbd_create_def
proof (rule triple_seq [OF triple_acquire], rule triple_new [OF server_created], simp)
  fix f sv :: addr
  let ?fin = "\<lambda>h3. if killswitch_on then and_then (attempt h3) (\<lambda>_. Ret f) else Ret f h3"
  have fin: "triple (both (flexnbd_at sv f) (server_at sv)) ?fin process_at"
  proof -
    have ok: "triple (both (flexnbd_at sv f) (server_at sv)) (Ret f) process_at" by (rule triple_end) (auto simp: process_at_def some_part_def)
    have "triple (both (flexnbd_at sv f) (server_at sv)) (\<lambda>h3. and_then (attempt h3) (\<lambda>_. Ret f)) process_at"
      by (rule triple_new [OF triple_attempt], simp) (simp add: ok)
    with ok show ?thesis by (cases killswitch_on) simp_all
  qed
  have "triple (both (cell f (Flexnbd_o sv None 0)) (server_at sv)) (\<lambda>h. and_then (flexnbd_create_shared f has_sock h) (\<lambda>_. ?fin)) process_at"
    by (rule triple_step [OF shared_created]) (simp_all add: fin)
  then have "triple (both (cell f (Flexnbd_o 0 None 0)) (server_at sv))
      (\<lambda>h. and_then (flexnbd_create_shared f has_sock (put_obj f (Flexnbd_o sv None 0) h)) (\<lambda>_. ?fin)) process_at"
    by (intro triple_set) simp_all
  then show "triple (both (server_at sv) (cell f (Flexnbd_o 0 None 0)))
      (\<lambda>h. and_then (flexnbd_create_shared f has_sock (put_obj f (Flexnbd_o sv None 0) h)) (\<lambda>_. ?fin)) process_at"
    by (simp add: both_comm)
qed

lemma control_at_obj: "control_at co m S \<Longrightarrow> \<exists>op cl mb. m co = Some (Control_o op cl mb)"
  by (auto simp: control_at_def some_part_def cell_def dest!: both_imp)

lemma control_close_signalled: "triple (control_at co) (h_control_signal_close co) (\<lambda>_. control_at co)"
  unfolding control_at_def
proof (rule triple_some, clarify)
  fix op cl mb
  let ?F = "both (mbox_at mb) (both (pipe_at op) (cell co (Control_o op cl mb)))"
  let ?Q = "\<lambda>_. some_part (\<lambda>(op, cl, mb). both (mbox_at mb) (both (pipe_at cl) (both (pipe_at op) (cell co (Control_o op cl mb)))))"
  have "triple (both (pipe_at cl) ?F) (h_self_pipe_signal cl) ?Q"
  proof (rule triple_weaken [OF triple_frame [OF pipe_signalled, of ?F]])
    fix m S assume "both (pipe_at cl) ?F m S"
    then show "?Q () m S" unfolding some_part_def by (intro exI [of _ "(op, cl, mb)"]) (simp add: both_ac)
  qed simp_all
  then have "triple (both (mbox_at mb) (both (pipe_at cl) (both (pipe_at op) (cell co (Control_o op cl mb))))) (h_self_pipe_signal cl) ?Q" by (simp add: both_ac)
  then show "triple (both (mbox_at mb) (both (pipe_at cl) (both (pipe_at op) (cell co (Control_o op cl mb))))) (h_control_signal_close co) ?Q"
    by (rule triple_look) (auto simp: h_control_signal_close_def cell_def dest!: both_imp)
qed

lemma process_served: "triple (process_at f) (h_flexnbd_serve f) (\<lambda>_. process_at f)"
  unfolding process_at_def flexnbd_at_def both_some
proof (rule triple_some, rule triple_some, clarify)
  fix sv c fd n
  let ?G = "both (both (cell fd (Descriptor n)) (cell f (Flexnbd_o sv c fd))) (server_at sv)"
  let ?Q = "\<lambda>_. some_part (\<lambda>sv. some_part (\<lambda>x. both (case x of (c, fd, n) \<Rightarrow> both (opt_part control_at c) (both (cell fd (Descriptor n)) (cell f (Flexnbd_o sv c fd)))) (server_at sv)))"
  have "triple (both (opt_part control_at c) ?G) (h_flexnbd_serve f) (\<lambda>_. both (opt_part control_at c) ?G)"
  proof (cases c)
    case None
    then show ?thesis
      by (intro triple_look [OF triple_end]) (auto simp: h_flexnbd_serve_def cell_def dest!: both_imp)
  next
    case (Some co)
    have st: "triple (both (control_at co) ?G) (\<lambda>h. and_then (h_control_signal_close co h) (\<lambda>_. attempt)) (\<lambda>_. both (control_at co) ?G)"
      using triple_frame [OF triple_attempt, of "both (control_at co) ?G"] by (intro triple_step [OF control_close_signalled]) simp_all
    have "triple (both (control_at co) ?G) (flexnbd_stop_control f) (\<lambda>_. both (control_at co) ?G)"
      by (rule triple_look [OF st]) (auto simp: flexnbd_stop_control_def Some cell_def dest!: both_imp)
    then have "triple (both (control_at co) ?G) (\<lambda>h. and_then (attempt h) (\<lambda>_. flexnbd_stop_control f)) (\<lambda>_. both (control_at co) ?G)"
      by (intro triple_new [OF triple_attempt]) simp_all
    then have "triple (both (control_at co) ?G) (h_flexnbd_serve f) (\<lambda>_. both (control_at co) ?G)"
      by (rule triple_look) (auto simp: h_flexnbd_serve_def flexnbd_spawn_control_def Some cell_def dest!: both_imp control_at_obj)
    then show ?thesis using Some by simp
  qed
  then have "triple (both (both (opt_part control_at c) (both (cell fd (Descriptor n)) (cell f (Flexnbd_o sv c fd)))) (server_at sv)) (h_flexnbd_serve f)
      (\<lambda>_. both (both (opt_part control_at c) (both (cell fd (Descriptor n)) (cell f (Flexnbd_o sv c fd)))) (server_at sv))" by (simp add: both_ac)
  then show "triple (both (both (opt_part control_at c) (both (cell fd (Descriptor n)) (cell f (Flexnbd_o sv c fd)))) (server_at sv)) (h_flexnbd_serve f) ?Q"
  proof (rule triple_weaken)
    fix m S assume "both (both (opt_part control_at c) (both (cell fd (Descriptor n)) (cell f (Flexnbd_o sv c fd)))) (server_at sv) m S"
    then show "?Q () m S" unfolding some_part_def by (intro exI [of _ sv] exI [of _ "(c, fd, n)"]) simp
  qed
qed

text \<open>The access list command: the new list is built first and goes to the server, or is destroyed when a line is bad.\<close>

definition h_control_acl :: "addr \<Rightarrow> nat \<Rightarrow> bool \<Rightarrow> unit heap_op" where
  "h_control_acl flexnbd linesc good h =
     and_then (h_acl_create linesc h) (\<lambda>new_acl. if good then flexnbd_replace_acl flexnbd new_acl else acl_destroy new_acl)"

lemma flexnbd_at_obj: "flexnbd_at sv f m S \<Longrightarrow> \<exists>c fd. m f = Some (Flexnbd_o sv c fd)"
  by (auto simp: flexnbd_at_def some_part_def cell_def dest!: both_imp)

lemma process_acl_replaced: "triple (both (acl_at new_acl) (process_at f)) (flexnbd_replace_acl f new_acl) (\<lambda>_. process_at f)"
  unfolding process_at_def both_some
proof (rule triple_some)
  fix sv
  have "triple (both (both (server_at sv) (acl_at new_acl)) (flexnbd_at sv f)) (h_server_replace_acl sv new_acl) (\<lambda>_. both (server_at sv) (flexnbd_at sv f))"
    by (rule triple_frame [OF acl_replaced]) simp_all
  then have "triple (both (acl_at new_acl) (both (flexnbd_at sv f) (server_at sv))) (h_server_replace_acl sv new_acl) (\<lambda>_. both (flexnbd_at sv f) (server_at sv))"
    by (simp add: both_ac)
  then have "triple (both (acl_at new_acl) (both (flexnbd_at sv f) (server_at sv))) (flexnbd_replace_acl f new_acl) (\<lambda>_. both (flexnbd_at sv f) (server_at sv))"
    by (rule triple_look) (auto simp: flexnbd_replace_acl_def flexnbd_server_def dest!: both_imp flexnbd_at_obj)
  then show "triple (both (acl_at new_acl) (both (flexnbd_at sv f) (server_at sv))) (flexnbd_replace_acl f new_acl)
      (\<lambda>_. some_part (\<lambda>sv. both (flexnbd_at sv f) (server_at sv)))"
    by (rule triple_weaken) (auto simp: some_part_def)
qed

theorem acl_command_keeps_memory: "triple (process_at f) (h_control_acl f linesc good) (\<lambda>_. process_at f)"
  unfolding h_control_acl_def
proof (rule triple_new [OF acl_created local_process_at])
  show "triple (both (acl_at a) (process_at f)) (if good then flexnbd_replace_acl f a else acl_destroy a) (\<lambda>_. process_at f)" for a
    using process_acl_replaced [of a f] triple_frame [OF acl_destroyed local_process_at, of a f] by simp
qed

lemma flexnbd_destroyed: "triple (process_at f) (flexnbd_destroy f) (\<lambda>_. some_part server_at)"
  unfolding process_at_def flexnbd_at_def both_some
proof (rule triple_some, rule triple_some, clarify)
  fix sv c fd n
  let ?P = "both (both (opt_part control_at c) (both (cell fd (Descriptor n)) (cell f (Flexnbd_o sv c fd)))) (server_at sv)"
  have own: "triple (both (opt_part control_at c) (both (cell fd (Descriptor n)) (cell f (Flexnbd_o sv c fd))))
      (\<lambda>h. and_then (destroy_opt control_destroy c h) (\<lambda>_ h1. and_then (close_fd fd h1) (\<lambda>_. free_mem f))) (\<lambda>_. nothing)"
    by (intro triple_drop triple_release controls.destroy_opt_gone) simp_all
  have "triple ?P (\<lambda>h. and_then (destroy_opt control_destroy c h) (\<lambda>_ h1. and_then (close_fd fd h1) (\<lambda>_. free_mem f))) (\<lambda>_. server_at sv)"
    using triple_frame [OF own local_server_at] by simp
  then have "triple ?P (flexnbd_destroy f) (\<lambda>_. server_at sv)"
    by (rule triple_look) (auto simp: flexnbd_destroy_def cell_def dest!: both_imp)
  then show "triple ?P (flexnbd_destroy f) (\<lambda>_. some_part server_at)"
    by (rule triple_weaken) (auto simp: some_part_def)
qed

subsection \<open>Mirrors\<close>

text \<open>The addresses come from the control thread and belong to the mirror; \<open>map_fd\<close>, the descriptor of the mapped file, is a local variable
  of \<^verbatim>\<open>mirror_init\<close>.\<close>

definition h_mirror_alloc :: "addr option \<Rightarrow> addr option \<Rightarrow> addr \<Rightarrow> addr heap_op" where
  "h_mirror_alloc connect_to connect_from mb h =
     and_then (acquire (Mirror_o 0 connect_to connect_from mb None) h) (\<lambda>mi h1.
     and_then (h_self_pipe_create h1) (\<lambda>ab h2. Ret mi (put_obj mi (Mirror_o ab connect_to connect_from mb None) h2)))"

definition h_mirror_init :: "addr \<Rightarrow> unit heap_op" where
  "h_mirror_init mi h =
     (case store h mi of
        Some (Mirror_o ab connect_to connect_from mb _) \<Rightarrow>
          and_then (acquire (Descriptor 0) h) (\<lambda>map_fd h1.
          and_then (acquire Mapping h1) (\<lambda>mp h2.
          and_then (attempt h2) (\<lambda>_ h3. Ret () (put_obj mi (Mirror_o ab connect_to connect_from mb (Some mp)) h3))))
      | _ \<Rightarrow> Fault)"

definition h_mirror_create :: "addr option \<Rightarrow> addr option \<Rightarrow> addr \<Rightarrow> addr heap_op" where
  "h_mirror_create connect_to connect_from mb h =
     and_then (h_mirror_alloc connect_to connect_from mb h) (\<lambda>mi h1. and_then (h_mirror_init mi h1) (\<lambda>_. Ret mi))"

definition mirror_destroy :: "addr \<Rightarrow> unit heap_op" where
  "mirror_destroy mi h =
     (case store h mi of
        Some (Mirror_o ab connect_to connect_from mb mp) \<Rightarrow>
          and_then (h_self_pipe_destroy ab h) (\<lambda>_ h1.
          and_then (destroy_opt free_mem connect_to h1) (\<lambda>_ h2.
          and_then (destroy_opt free_mem connect_from h2) (\<lambda>_. free_mem mi)))
      | _ \<Rightarrow> Fault)"

definition mirror_super_create :: "addr option \<Rightarrow> addr option \<Rightarrow> addr \<Rightarrow> addr heap_op" where
  "mirror_super_create connect_to connect_from state_mbox h =
     and_then (acquire (Super_o 0 state_mbox) h) (\<lambda>su h1.
     and_then (mbox_create h1) (\<lambda>mb h2.
     and_then (h_mirror_create connect_to connect_from mb h2) (\<lambda>mi h3. Ret su (put_obj su (Super_o mi state_mbox) h3))))"

definition mirror_super_destroy :: "addr \<Rightarrow> unit heap_op" where
  "mirror_super_destroy su h =
     (case store h su of
        Some (Super_o mi state_mbox) \<Rightarrow>
          (case store h mi of
             Some (Mirror_o ab connect_to connect_from mb mp) \<Rightarrow>
               and_then (mbox_destroy mb h) (\<lambda>_ h1. and_then (mirror_destroy mi h1) (\<lambda>_. free_mem su))
           | _ \<Rightarrow> Fault)
      | _ \<Rightarrow> Fault)"

definition h_mirror_signal_commit :: "addr \<Rightarrow> unit heap_op" where
  "h_mirror_signal_commit mi h =
     (case store h mi of Some (Mirror_o ab connect_to connect_from mb mp) \<Rightarrow> mbox_post_mirror_state mb h | _ \<Rightarrow> Fault)"

definition mirror_super_signal_committed :: "addr \<Rightarrow> unit heap_op" where
  "mirror_super_signal_committed su h = (case store h su of Some (Super_o mi st) \<Rightarrow> mbox_post_mirror_state st h | _ \<Rightarrow> Fault)"

definition addrs_at :: "addr option \<Rightarrow> addr option \<Rightarrow> part" where
  "addrs_at connect_to connect_from = both (opt_part buffer_at connect_to) (opt_part buffer_at connect_from)"

definition mirror_at :: "addr option \<Rightarrow> addr option \<Rightarrow> addr \<Rightarrow> addr option \<Rightarrow> addr \<Rightarrow> part" where
  "mirror_at to fr mb mp mi = some_part (\<lambda>ab. both (pipe_at ab) (cell mi (Mirror_o ab to fr mb mp)))"

definition super_at :: "addr option \<Rightarrow> addr option \<Rightarrow> addr option \<Rightarrow> addr \<Rightarrow> addr \<Rightarrow> part" where
  "super_at to fr mp st su = some_part (\<lambda>(mi, mb). both (mbox_at mb) (both (mirror_at to fr mb mp mi) (cell su (Super_o mi st))))"

text \<open>What only \<^verbatim>\<open>mirror_init\<close> knows of: the descriptor of the file, and its mapping, which \<^verbatim>\<open>mirror_cleanup\<close> would remove.\<close>

definition mapped_at :: "addr \<Rightarrow> part" where
  "mapped_at mp = some_part (\<lambda>fd. both (cell fd (Descriptor 0)) (cell mp Mapping))"

lemma local_mirror [simp]: "local_part (addrs_at to fr)" "local_part (mirror_at to fr mb mp mi)" "local_part (mapped_at q)"
  by (simp_all add: addrs_at_def mirror_at_def mapped_at_def)

lemma local_super [simp]: "local_part (super_at to fr mp st su)"
  unfolding super_at_def by (intro local_some) (simp split: prod.split)

lemma mirror_alloced: "triple nothing (h_mirror_alloc to fr mb) (mirror_at to fr mb None)"
  unfolding h_mirror_alloc_def
proof (rule triple_seq [OF triple_acquire], rule triple_new [OF pipe_created], simp, rule triple_fill)
  fix mi ab m S assume "both (cell mi (Mirror_o ab to fr mb None)) (pipe_at ab) m S"
  then show "mirror_at to fr mb None mi m S" unfolding mirror_at_def some_part_def by (intro exI [of _ ab]) (simp add: both_comm)
qed (simp_all add: both_ac)

lemma mirror_inited: "triple (mirror_at to fr mb None mi) (h_mirror_init mi) (\<lambda>_. some_part (\<lambda>mp. both (mirror_at to fr mb (Some mp) mi) (mapped_at mp)))"
  unfolding mirror_at_def [of to fr mb None]
proof (rule triple_some)
  fix ab
  let ?P = "both (pipe_at ab) (cell mi (Mirror_o ab to fr mb None))"
  have "triple ?P (\<lambda>h. and_then (acquire (Descriptor 0) h) (\<lambda>map_fd h1. and_then (acquire Mapping h1) (\<lambda>mp h2.
      and_then (attempt h2) (\<lambda>_ h3. Ret () (put_obj mi (Mirror_o ab to fr mb (Some mp)) h3)))))
      (\<lambda>_. some_part (\<lambda>mp. both (mirror_at to fr mb (Some mp) mi) (mapped_at mp)))"
  proof (rule triple_new [OF triple_acquire], simp, rule triple_new [OF triple_acquire], simp, rule triple_new [OF triple_attempt], simp)
    fix fd mp :: addr and u :: unit
    let ?F = "both (pipe_at ab) (both (cell fd (Descriptor 0)) (cell mp Mapping))"
    have "triple (both (cell mi (Mirror_o ab to fr mb None)) ?F) (\<lambda>h3. Ret () (put_obj mi (Mirror_o ab to fr mb (Some mp)) h3))
        (\<lambda>_. some_part (\<lambda>mp. both (mirror_at to fr mb (Some mp) mi) (mapped_at mp)))"
    proof (rule triple_fill [OF refl])
      fix m S assume "both (cell mi (Mirror_o ab to fr mb (Some mp))) ?F m S"
      then have "both (both (pipe_at ab) (cell mi (Mirror_o ab to fr mb (Some mp)))) (both (cell fd (Descriptor 0)) (cell mp Mapping)) m S" by (simp add: both_ac)
      then show "some_part (\<lambda>mp. both (mirror_at to fr mb (Some mp) mi) (mapped_at mp)) m S"
        unfolding mirror_at_def mapped_at_def both_some some_part_def by blast
    qed simp
    then show "triple (both nothing (both (cell mp Mapping) (both (cell fd (Descriptor 0)) ?P))) (\<lambda>h3. Ret () (put_obj mi (Mirror_o ab to fr mb (Some mp)) h3))
        (\<lambda>_. some_part (\<lambda>mp. both (mirror_at to fr mb (Some mp) mi) (mapped_at mp)))" by (simp add: both_ac)
  qed
  then show "triple ?P (h_mirror_init mi) (\<lambda>_. some_part (\<lambda>mp. both (mirror_at to fr mb (Some mp) mi) (mapped_at mp)))"
    by (rule triple_look) (auto simp: h_mirror_init_def cell_def dest!: both_imp)
qed

lemma mirror_created: "triple nothing (h_mirror_create to fr mb) (\<lambda>mi. some_part (\<lambda>mp. both (mirror_at to fr mb (Some mp) mi) (mapped_at mp)))"
  unfolding h_mirror_create_def
  by (rule triple_seq [OF mirror_alloced], rule triple_seq [OF mirror_inited], rule triple_end)

lemma super_created: "triple nothing (mirror_super_create to fr st) (\<lambda>su. some_part (\<lambda>mp. both (super_at to fr (Some mp) st su) (mapped_at mp)))"
  unfolding mirror_super_create_def
proof (rule triple_seq [OF triple_acquire], rule triple_new [OF mbox_created], simp, rule triple_new [OF mirror_created], simp)
  fix su mb mi
  have one: "triple (both (both (mirror_at to fr mb (Some mp) mi) (mapped_at mp)) (both (mbox_at mb) (cell su (Super_o 0 st))))
      (\<lambda>h3. Ret su (put_obj su (Super_o mi st) h3)) (\<lambda>su. some_part (\<lambda>mp. both (super_at to fr (Some mp) st su) (mapped_at mp)))" for mp
  proof (rule triple_fill)
    fix m S assume "both (cell su (Super_o mi st)) (both (mbox_at mb) (both (mirror_at to fr mb (Some mp) mi) (mapped_at mp))) m S"
    then have "both (both (mbox_at mb) (both (mirror_at to fr mb (Some mp) mi) (cell su (Super_o mi st)))) (mapped_at mp) m S" by (simp add: both_ac)
    then show "some_part (\<lambda>mp. both (super_at to fr (Some mp) st su) (mapped_at mp)) m S"
      unfolding super_at_def both_some some_part_def by (intro exI [of _ mp] exI [of _ "(mi, mb)"]) simp
  qed (simp_all add: both_ac)
  show "triple (both (some_part (\<lambda>mp. both (mirror_at to fr mb (Some mp) mi) (mapped_at mp))) (both (mbox_at mb) (cell su (Super_o 0 st))))
      (\<lambda>h3. Ret su (put_obj su (Super_o mi st) h3)) (\<lambda>su. some_part (\<lambda>mp. both (super_at to fr (Some mp) st su) (mapped_at mp)))"
    unfolding both_some by (rule triple_some, rule one)
qed

lemma mirror_destroyed: "triple (both (mirror_at to fr mb mp mi) (addrs_at to fr)) (mirror_destroy mi) (\<lambda>_. nothing)"
  unfolding mirror_at_def both_some
proof (rule triple_some)
  fix ab
  have "triple (both (pipe_at ab) (both (opt_part buffer_at to) (both (opt_part buffer_at fr) (cell mi (Mirror_o ab to fr mb mp)))))
      (\<lambda>h. and_then (h_self_pipe_destroy ab h) (\<lambda>_ h1. and_then (destroy_opt free_mem to h1) (\<lambda>_ h2. and_then (destroy_opt free_mem fr h2) (\<lambda>_. free_mem mi)))) (\<lambda>_. nothing)"
    by (intro triple_drop triple_release pipe_destroyed buffers.destroy_opt_gone) simp_all
  then have "triple (both (both (pipe_at ab) (cell mi (Mirror_o ab to fr mb mp))) (addrs_at to fr))
      (\<lambda>h. and_then (h_self_pipe_destroy ab h) (\<lambda>_ h1. and_then (destroy_opt free_mem to h1) (\<lambda>_ h2. and_then (destroy_opt free_mem fr h2) (\<lambda>_. free_mem mi)))) (\<lambda>_. nothing)"
    by (simp add: both_ac addrs_at_def)
  then show "triple (both (both (pipe_at ab) (cell mi (Mirror_o ab to fr mb mp))) (addrs_at to fr)) (mirror_destroy mi) (\<lambda>_. nothing)"
    by (rule triple_look) (auto simp: mirror_destroy_def cell_def dest!: both_imp)
qed

lemma mirror_at_obj: "mirror_at to fr mb mp mi m S \<Longrightarrow> \<exists>ab. m mi = Some (Mirror_o ab to fr mb mp)"
  by (auto simp: mirror_at_def some_part_def cell_def dest!: both_imp)

lemma super_destroyed: "triple (both (super_at to fr mp st su) (addrs_at to fr)) (mirror_super_destroy su) (\<lambda>_. nothing)"
  unfolding super_at_def both_some
proof (rule triple_some, clarify)
  fix mi mb
  have mb: "triple (mbox_at mb) (mbox_destroy mb) (\<lambda>_. nothing)" by (simp add: mbox_at_def mbox_freed)
  have "triple (both (mbox_at mb) (both (both (mirror_at to fr mb mp mi) (addrs_at to fr)) (cell su (Super_o mi st))))
      (\<lambda>h. and_then (mbox_destroy mb h) (\<lambda>_ h1. and_then (mirror_destroy mi h1) (\<lambda>_. free_mem su))) (\<lambda>_. nothing)"
    by (intro triple_drop triple_release mirror_destroyed mb) simp_all
  then have "triple (both (both (mbox_at mb) (both (mirror_at to fr mb mp mi) (cell su (Super_o mi st)))) (addrs_at to fr))
      (\<lambda>h. and_then (mbox_destroy mb h) (\<lambda>_ h1. and_then (mirror_destroy mi h1) (\<lambda>_. free_mem su))) (\<lambda>_. nothing)"
    by (simp add: both_ac)
  then show "triple (both (both (mbox_at mb) (both (mirror_at to fr mb mp mi) (cell su (Super_o mi st)))) (addrs_at to fr)) (mirror_super_destroy su) (\<lambda>_. nothing)"
    by (rule triple_look) (auto simp: mirror_super_destroy_def cell_def dest!: both_imp mirror_at_obj)
qed

text \<open>After an error the mirror thread unmaps the file.\<close>

definition h_mirror_cleanup :: "addr \<Rightarrow> unit heap_op" where
  "h_mirror_cleanup mi h =
     (case store h mi of
        Some (Mirror_o ab connect_to connect_from mb mp) \<Rightarrow>
          and_then (case mp of None \<Rightarrow> Ret () h | Some q \<Rightarrow> release (\<lambda>ob. ob = Mapping) q h) (\<lambda>_ h1.
            Ret () (put_obj mi (Mirror_o ab connect_to connect_from mb None) h1))
      | _ \<Rightarrow> Fault)"

lemma mirror_cleaned: "triple (both (mirror_at to fr mb (Some q) mi) (mapped_at q)) (h_mirror_cleanup mi)
    (\<lambda>_. both (mirror_at to fr mb None mi) (some_part (\<lambda>fd. cell fd (Descriptor 0))))"
  unfolding mirror_at_def [of to fr mb "Some q"] mapped_at_def both_some
proof (rule triple_some, rule triple_some)
  fix ab fd
  let ?F = "both (pipe_at ab) (cell fd (Descriptor 0))"
  let ?Q = "\<lambda>_. some_part (\<lambda>fd. both (mirror_at to fr mb None mi) (cell fd (Descriptor 0)))"
  have "triple (both (cell mi (Mirror_o ab to fr mb (Some q))) ?F) (\<lambda>h1. Ret () (put_obj mi (Mirror_o ab to fr mb None) h1)) ?Q"
  proof (rule triple_fill [OF refl])
    fix m S assume "both (cell mi (Mirror_o ab to fr mb None)) ?F m S"
    then have "both (both (pipe_at ab) (cell mi (Mirror_o ab to fr mb None))) (cell fd (Descriptor 0)) m S" by (simp add: both_ac)
    then show "?Q () m S" unfolding mirror_at_def both_some some_part_def by blast
  qed simp
  then have "triple (both (cell q Mapping) (both (cell mi (Mirror_o ab to fr mb (Some q))) ?F))
      (\<lambda>h. and_then (release (\<lambda>ob. ob = Mapping) q h) (\<lambda>_ h1. Ret () (put_obj mi (Mirror_o ab to fr mb None) h1))) ?Q"
    by (intro triple_drop triple_release) simp_all
  then have "triple (both (both (pipe_at ab) (cell mi (Mirror_o ab to fr mb (Some q)))) (both (cell fd (Descriptor 0)) (cell q Mapping)))
      (\<lambda>h. and_then (release (\<lambda>ob. ob = Mapping) q h) (\<lambda>_ h1. Ret () (put_obj mi (Mirror_o ab to fr mb None) h1))) ?Q" by (simp add: both_ac)
  then show "triple (both (both (pipe_at ab) (cell mi (Mirror_o ab to fr mb (Some q)))) (both (cell fd (Descriptor 0)) (cell q Mapping))) (h_mirror_cleanup mi) ?Q"
    by (rule triple_look) (auto simp: h_mirror_cleanup_def cell_def dest!: both_imp)
qed

text \<open>The control thread's part: addresses are allocated as the arguments are read, and a refused command returns without them.\<close>

definition h_control_mirror :: "byte list list \<Rightarrow> bool \<Rightarrow> addr \<Rightarrow> addr option heap_op" where
  "h_control_mirror lines can_start state_mbox h =
     and_then (acquire Buffer h) (\<lambda>connect_to h1.
       case parse_mirror_args (take 3 lines) of
         Ret (Inl msg) _ \<Rightarrow> Ret None h1
       | Ret (Inr args) _ \<Rightarrow>
           and_then (create_if (length lines > 3) (acquire Buffer) h1) (\<lambda>connect_from h2.
             case parse_mirror_args lines of
               Ret (Inl msg) _ \<Rightarrow> Ret None h2
             | Ret (Inr args) _ \<Rightarrow>
                 if can_start then and_then (mirror_super_create (Some connect_to) connect_from state_mbox h2) (\<lambda>su. Ret (Some su))
                 else Ret None h2
             | _ \<Rightarrow> Fault)
       | _ \<Rightarrow> Fault)"

lemma parse_first_three:
  assumes "parse_mirror_args lines = Ret r ()"
  shows "\<exists>r3. parse_mirror_args (take 3 lines) = Ret r3 ()"
proof -
  have "drop 3 (take 3 lines) = []" "drop 4 (take 3 lines) = []" "drop 2 (take 3 lines) = take 1 (drop 2 lines)" by (simp_all add: drop_take)
  moreover have "parse_action (take 1 (drop 2 lines)) = parse_action (drop 2 lines)" by (cases "drop 2 lines") (simp_all add: parse_action_def)
  ultimately show ?thesis using assms
    by (auto simp: parse_mirror_args_def Let_def parse_bind_def parse_max_bps_def min_def split: if_splits cresult.splits option.splits)
qed

subsection \<open>The proxy\<close>

definition h_prefetch_create :: "addr heap_op" where
  "h_prefetch_create h =
     and_then (acquire (Prefetch_o 0) h) (\<lambda>out h1. and_then (acquire Buffer h1) (\<lambda>buffer h2. Ret out (put_obj out (Prefetch_o buffer) h2)))"

definition prefetch_destroy :: "addr \<Rightarrow> unit heap_op" where
  "prefetch_destroy pf h = (case store h pf of Some (Prefetch_o b) \<Rightarrow> and_then (free_mem b h) (\<lambda>_. free_mem pf) | _ \<Rightarrow> Fault)"

definition prefetch_at :: "addr \<Rightarrow> part" where
  "prefetch_at pf = some_part (\<lambda>b. both (buffer_at b) (cell pf (Prefetch_o b)))"

lemma local_prefetch_at [simp]: "local_part (prefetch_at pf)"
  by (simp add: prefetch_at_def)

lemma prefetch_created: "triple nothing h_prefetch_create prefetch_at"
  unfolding h_prefetch_create_def
proof (rule triple_seq [OF triple_acquire], rule triple_new [OF triple_acquire], simp, rule triple_fill)
  fix pf b m S assume "both (cell pf (Prefetch_o b)) (buffer_at b) m S"
  then show "prefetch_at pf m S" unfolding prefetch_at_def some_part_def by (intro exI [of _ b]) (simp add: both_comm)
qed (simp_all add: both_ac)

lemma prefetch_destroyed: "triple (prefetch_at pf) (prefetch_destroy pf) (\<lambda>_. nothing)"
  unfolding prefetch_at_def
proof (rule triple_some)
  fix b
  have "triple (both (buffer_at b) (cell pf (Prefetch_o b))) (\<lambda>h. and_then (free_mem b h) (\<lambda>_. free_mem pf)) (\<lambda>_. nothing)"
    by (intro triple_drop triple_release) simp_all
  then show "triple (both (buffer_at b) (cell pf (Prefetch_o b))) (prefetch_destroy pf) (\<lambda>_. nothing)"
    by (rule triple_look) (auto simp: prefetch_destroy_def cell_def dest!: both_imp)
qed

interpretation caches: managed h_prefetch_create prefetch_destroy prefetch_at
  by unfold_locales (simp_all add: prefetch_created prefetch_destroyed)

text \<open>The text for \<^verbatim>\<open>log_context\<close> is the second result of \<^verbatim>\<open>proxy_create\<close>; nothing frees it.\<close>

definition h_proxy_create :: "bool \<Rightarrow> (addr \<times> addr) heap_op" where
  "h_proxy_create cache h =
     and_then (acquire (Proxier_o 0 0 0 None) h) (\<lambda>out h1.
     and_then (attempt h1) (\<lambda>_ h2.
     and_then (create_if cache h_prefetch_create h2) (\<lambda>pf h3.
     and_then (acquire Buffer h3) (\<lambda>init_buf h4.
     and_then (acquire Buffer h4) (\<lambda>req_buf h5.
     and_then (acquire Buffer h5) (\<lambda>rsp_buf h6.
     and_then (acquire Buffer h6) (\<lambda>context h7. Ret (out, context) (put_obj out (Proxier_o init_buf req_buf rsp_buf pf) h7))))))))"

definition proxy_destroy :: "addr \<Rightarrow> unit heap_op" where
  "proxy_destroy p h =
     (case store h p of
        Some (Proxier_o i q r pf) \<Rightarrow>
          and_then (free_mem i h) (\<lambda>_ h1. and_then (free_mem q h1) (\<lambda>_ h2. and_then (free_mem r h2) (\<lambda>_ h3.
          and_then (destroy_opt prefetch_destroy pf h3) (\<lambda>_. free_mem p))))
      | _ \<Rightarrow> Fault)"

definition proxier_at :: "addr \<Rightarrow> part" where
  "proxier_at p = some_part (\<lambda>(i, q, r, pf). both (buffer_at i) (both (buffer_at q) (both (buffer_at r) (both (opt_part prefetch_at pf) (cell p (Proxier_o i q r pf))))))"

lemma local_proxier_at [simp]: "local_part (proxier_at p)"
  unfolding proxier_at_def by (intro local_some) (simp split: prod.split)

lemma proxy_created: "triple nothing (h_proxy_create cache) (\<lambda>(p, ctx). both (proxier_at p) (buffer_at ctx))"
  unfolding h_proxy_create_def
proof (rule triple_seq [OF triple_acquire], rule triple_new [OF triple_attempt], simp, rule triple_new [OF caches.create_if_at], simp,
    rule triple_new [OF triple_acquire], simp, rule triple_new [OF triple_acquire], simp, rule triple_new [OF triple_acquire], simp,
    rule triple_new [OF triple_acquire], simp)
  fix p :: addr and u :: unit and pf :: "addr option" and i q r ctx :: addr
  let ?F = "both (buffer_at i) (both (buffer_at q) (both (buffer_at r) (both (opt_part prefetch_at pf) (buffer_at ctx))))"
  have "triple (both (cell p (Proxier_o 0 0 0 None)) ?F) (\<lambda>h7. Ret (p, ctx) (put_obj p (Proxier_o i q r pf) h7))
      (\<lambda>(p, ctx). both (proxier_at p) (buffer_at ctx))"
  proof (rule triple_fill [OF refl])
    fix m S assume "both (cell p (Proxier_o i q r pf)) ?F m S"
    then have "both (both (buffer_at i) (both (buffer_at q) (both (buffer_at r) (both (opt_part prefetch_at pf) (cell p (Proxier_o i q r pf)))))) (buffer_at ctx) m S"
      by (simp add: both_ac)
    then show "(case (p, ctx) of (p, ctx) \<Rightarrow> both (proxier_at p) (buffer_at ctx)) m S"
      unfolding proxier_at_def both_some by (auto simp: some_part_def intro!: exI [of _ "(i, q, r, pf)"])
  qed simp
  then show "triple (both (buffer_at ctx) (both (buffer_at r) (both (buffer_at q) (both (buffer_at i) (both (opt_part prefetch_at pf) (both nothing (cell p (Proxier_o 0 0 0 None))))))))
      (\<lambda>h7. Ret (p, ctx) (put_obj p (Proxier_o i q r pf) h7)) (\<lambda>(p, ctx). both (proxier_at p) (buffer_at ctx))" by (simp add: both_ac)
qed

lemma proxy_destroyed: "triple (proxier_at p) (proxy_destroy p) (\<lambda>_. nothing)"
  unfolding proxier_at_def
proof (rule triple_some, clarify)
  fix i q r pf
  let ?P = "both (buffer_at i) (both (buffer_at q) (both (buffer_at r) (both (opt_part prefetch_at pf) (cell p (Proxier_o i q r pf)))))"
  have "triple ?P (\<lambda>h. and_then (free_mem i h) (\<lambda>_ h1. and_then (free_mem q h1) (\<lambda>_ h2. and_then (free_mem r h2) (\<lambda>_ h3.
      and_then (destroy_opt prefetch_destroy pf h3) (\<lambda>_. free_mem p))))) (\<lambda>_. nothing)"
    by (intro triple_drop triple_release caches.destroy_opt_gone) simp_all
  then show "triple ?P (proxy_destroy p) (\<lambda>_. nothing)"
    by (rule triple_look) (auto simp: proxy_destroy_def cell_def dest!: both_imp)
qed

subsection \<open>Life cycles\<close>

lemma triple_run:
  assumes "triple P m Q" "wf_heap h" "P (store h) S" "False \<notin> set (calls h)"
  obtains a h' S' where "m h = Ret a h'" "wf_heap h'" "False \<notin> set (calls h')" "Q a (store h') S'" "S' \<subseteq> S \<union> {fresh h..}"
    "\<forall>x. x \<notin> S \<union> S' \<longrightarrow> store h' x = store h x" "\<forall>x \<in> S - S'. store h' x = None"
proof -
  have e: "ends_on Q h S (m h)" using assms(1-3) unfolding triple_def by blast
  then obtain a h' where r: "m h = Ret a h'" using assms(4) by (cases "m h") auto
  with e assms(4) that show ?thesis by auto
qed


definition empty_heap :: heap where
  "empty_heap = \<lparr>store = Map.empty, fresh = 3, calls = []\<rparr>"

lemma empty_heap_wf: "wf_heap empty_heap" "False \<notin> set (calls empty_heap)"
  by (simp_all add: wf_heap_def empty_heap_def)


text \<open>Client objects come and go in any number and order without a trace; a client that is gone cannot be told to stop.\<close>

theorem client_life_cycle:
  assumes "wf_heap h" "False \<notin> set (calls h)" "\<And>as. mset (order as) = mset as"
  shows "\<exists>as h1 h2. create_all n (client_create socket) h = Ret as h1 \<and> destroy_all client_destroy (order as) h1 = Ret () h2
    \<and> store h2 = store h \<and> (\<forall>c \<in> set as. h_client_signal_stop c h2 = Fault)"
proof -
  obtain as h1 S1 where c: "create_all n (client_create socket) h = Ret as h1" "wf_heap h1" "False \<notin> set (calls h1)" "all_at client_at as (store h1) S1"
    "S1 \<subseteq> {fresh h..}" "\<forall>x. x \<notin> S1 \<longrightarrow> store h1 x = store h x"
    by (rule triple_run [OF clients.create_all_at assms(1) _ assms(2), of "{}"]) (auto simp: nothing_def)
  have "all_at client_at (order as) (store h1) S1" using c(4) all_at_mset [OF assms(3)] by simp
  then obtain u h2 where d: "destroy_all client_destroy (order as) h1 = Ret u h2" "\<forall>x. x \<notin> S1 \<longrightarrow> store h2 x = store h1 x" "\<forall>x \<in> S1. store h2 x = None"
    by (rule triple_run [OF clients.destroy_all_gone c(2) _ c(3)]) (auto simp: nothing_def)
  have own: "x \<in> S" if "all_at client_at bs m S" "x \<in> set bs" for x bs m S
    using that
  proof (induction bs arbitrary: S)
    case (Cons b bs)
    then show ?case by (auto simp: both_def client_at_def some_part_def cell_def)
  qed simp
  have "store h2 x = store h x" for x using d(2,3) c(5,6) assms(1) by (cases "x \<in> S1") (auto simp: wf_heap_def)
  then have "store h2 = store h" by (rule ext)
  moreover have "h_client_signal_stop x h2 = Fault" if "x \<in> set as" for x
    using own [OF c(4) that] d(3) by (simp add: h_client_signal_stop_def)
  ultimately show ?thesis using c(1) d(1) by auto
qed

text \<open>A mirror leaves behind the descriptor of the file it mapped, and the mapping unless \<^verbatim>\<open>mirror_cleanup\<close> has removed it.\<close>

theorem mirror_leaves_descriptor:
  "triple (addrs_at to fr) (\<lambda>h. and_then (mirror_super_create to fr st h) mirror_super_destroy) (\<lambda>_. some_part mapped_at)"
proof (rule triple_new [OF super_created], simp)
  fix su
  show "triple (both (some_part (\<lambda>mp. both (super_at to fr (Some mp) st su) (mapped_at mp))) (addrs_at to fr)) (mirror_super_destroy su) (\<lambda>_. some_part mapped_at)"
    unfolding both_some
  proof (rule triple_some)
    fix mp
    have "triple (both (both (super_at to fr (Some mp) st su) (addrs_at to fr)) (mapped_at mp)) (mirror_super_destroy su) (\<lambda>_. mapped_at mp)"
      using triple_frame [OF super_destroyed, of "mapped_at mp" to fr "Some mp" st su] by simp
    then show "triple (both (both (super_at to fr (Some mp) st su) (mapped_at mp)) (addrs_at to fr)) (mirror_super_destroy su) (\<lambda>_. some_part mapped_at)"
      by (rule triple_weaken) (auto simp: both_ac some_part_def)
  qed
qed

text \<open>A mirror command that is refused keeps the memory of the addresses it has read.\<close>

theorem refused_mirror_command_leaks:
  assumes "parse_mirror_args lines = Ret (Inl msg) () \<or> (\<exists>args. parse_mirror_args lines = Ret (Inr args) ()) \<and> \<not> can_start" "calls h = []"
  shows "\<exists>k h'. h_control_mirror lines can_start st h = Ret None h' \<and> 1 \<le> k \<and> k \<le> 2 \<and> fresh h' = fresh h + k
    \<and> store h' = (\<lambda>a. if fresh h \<le> a \<and> a < fresh h + k then Some Buffer else store h a)"
proof -
  obtain r where r: "parse_mirror_args lines = Ret r ()" using assms(1) by blast
  obtain r3 where r3: "parse_mirror_args (take 3 lines) = Ret r3 ()" using parse_first_three [OF r] by blast
  let ?one = "(store h)(fresh h \<mapsto> Buffer)" and ?two = "(store h)(fresh h \<mapsto> Buffer, Suc (fresh h) \<mapsto> Buffer)"
  have s1: "?one = (\<lambda>a. if fresh h \<le> a \<and> a < fresh h + 1 then Some Buffer else store h a)" by auto
  have s2: "?two = (\<lambda>a. if fresh h \<le> a \<and> a < fresh h + 2 then Some Buffer else store h a)" by (auto simp: fun_eq_iff)
  have "h_control_mirror lines can_start st h = Ret None (h\<lparr>store := ?one, fresh := fresh h + 1\<rparr>)
      \<or> h_control_mirror lines can_start st h = Ret None (h\<lparr>store := ?two, fresh := fresh h + 2\<rparr>)"
    using assms r r3 by (auto simp: h_control_mirror_def acquire_def attempt_def create_if_def split: sum.splits)
  then show ?thesis
  proof
    assume "h_control_mirror lines can_start st h = Ret None (h\<lparr>store := ?one, fresh := fresh h + 1\<rparr>)"
    then show ?thesis using s1 by (intro exI [of _ 1]) simp
  next
    assume "h_control_mirror lines can_start st h = Ret None (h\<lparr>store := ?two, fresh := fresh h + 2\<rparr>)"
    then show ?thesis using s2 by (intro exI [of _ 2]) simp
  qed
qed

text \<open>The proxy leaves the text of its log context.\<close>

theorem proxy_life_cycle:
  "triple nothing (\<lambda>h. and_then (h_proxy_create cache h) (\<lambda>(p, ctx). proxy_destroy p)) (\<lambda>_. some_part buffer_at)"
proof (rule triple_seq [OF proxy_created], clarify)
  fix p ctx
  show "triple (both (proxier_at p) (buffer_at ctx)) (proxy_destroy p) (\<lambda>_. some_part buffer_at)"
    by (rule triple_weaken [OF triple_frame [OF proxy_destroyed local_cell [of ctx Buffer]]]) (auto simp: some_part_def)
qed

end
