(* ===== verification/Netaddr.thy ===== *)
theory Netaddr
  imports Control
begin

text \<open>
  Addresses in print: \<open>sockaddr_address_string\<close> of \<^verbatim>\<open>sockutil.c\<close> with the \<^verbatim>\<open>inet_ntop\<close> of the C library.  An IPv4 address that is printed
  is read back by \<open>parse_ip_to_sockaddr\<close>, and the buffers of the callers are large enough for every address of an IP socket, so that no
  connection is turned away because its address cannot be printed.
\<close>

subsection \<open>inet_ntop\<close>

fun join_with :: "byte \<Rightarrow> byte list list \<Rightarrow> byte list" where
  "join_with sep [] = []"
| "join_with sep [x] = x"
| "join_with sep (x # y # ys) = x @ sep # join_with sep (y # ys)"

definition inet_ntop4 :: "byte list \<Rightarrow> byte list" where
  "inet_ntop4 a = join_with 46 (map (\<lambda>b. decimal (unat b)) a)"

definition hex_char :: "nat \<Rightarrow> byte" where
  "hex_char d = (if d < 10 then 48 + of_nat d else 87 + of_nat d)"

fun hexadecimal :: "nat \<Rightarrow> byte list" where
  "hexadecimal n = (if n < 16 then [hex_char n] else hexadecimal (n div 16) @ [hex_char (n mod 16)])"

declare hexadecimal.simps [simp del]

fun words6 :: "byte list \<Rightarrow> nat list" where
  "words6 (a # b # cs) = (256 * unat a + unat b) # words6 cs"
| "words6 _ = []"

text \<open>The longest run of zero words, the first of several.\<close>

fun better_run :: "(nat \<times> nat) option \<Rightarrow> (nat \<times> nat) option \<Rightarrow> (nat \<times> nat) option" where
  "better_run None best = best"
| "better_run (Some cur) None = Some cur"
| "better_run (Some cur) (Some best) = (if snd cur > snd best then Some cur else Some best)"

fun zero_runs :: "nat \<Rightarrow> nat list \<Rightarrow> (nat \<times> nat) option \<Rightarrow> (nat \<times> nat) option \<Rightarrow> (nat \<times> nat) option" where
  "zero_runs i [] cur best = better_run cur best"
| "zero_runs i (w # ws) cur best =
     (if w = 0 then zero_runs (i + 1) ws (case cur of None \<Rightarrow> Some (i, 1) | Some (base, len) \<Rightarrow> Some (base, len + 1)) best
      else zero_runs (i + 1) ws None (better_run cur best))"

definition best_run :: "nat list \<Rightarrow> (nat \<times> nat) option" where
  "best_run ws = (case zero_runs 0 ws None None of Some (base, len) \<Rightarrow> if len < 2 then None else Some (base, len) | None \<Rightarrow> None)"

fun in_run :: "(nat \<times> nat) option \<Rightarrow> nat \<Rightarrow> bool" where
  "in_run None i = False"
| "in_run (Some (base, len)) i = (base \<le> i \<and> i < base + len)"

definition mapped4 :: "(nat \<times> nat) option \<Rightarrow> nat list \<Rightarrow> bool" where
  "mapped4 run ws \<longleftrightarrow> run = Some (0, 6) \<or> run = Some (0, 5) \<and> ws ! 5 = 65535"

fun put6 :: "byte list \<Rightarrow> (nat \<times> nat) option \<Rightarrow> bool \<Rightarrow> nat \<Rightarrow> nat list \<Rightarrow> byte list" where
  "put6 tail4 run as4 i [] = (case run of Some (base, len) \<Rightarrow> if base + len = 8 then [58] else [] | None \<Rightarrow> [])"
| "put6 tail4 run as4 i (w # ws) =
     (if in_run run i then (if in_run run (i - 1) \<and> 0 < i then [] else [58]) @ put6 tail4 run as4 (i + 1) ws
      else (if i \<noteq> 0 then [58] else []) @
           (if i = 6 \<and> as4 then tail4 else hexadecimal w @ put6 tail4 run as4 (i + 1) ws))"

definition inet_ntop6 :: "byte list \<Rightarrow> byte list" where
  "inet_ntop6 a = (let ws = words6 a; run = best_run ws in put6 (inet_ntop4 (drop 12 a)) run (mapped4 run ws) 0 ws)"

definition inet_ntop :: "byte list \<Rightarrow> nat \<Rightarrow> byte list option" where
  "inet_ntop text len = (if length text + 1 > len then None else Some text)"

subsection \<open>sockaddr_address_string\<close>

text \<open>The result is whether the returned pointer is not NULL, and the string in the buffer of \<open>len\<close> bytes; for an address of a UNIX
  socket \<^verbatim>\<open>strncpy\<close> fills \<^verbatim>\<open>SUN_LEN\<close> bytes whatever the size of the buffer.\<close>

definition port_text :: "u16 \<Rightarrow> byte list" where
  "port_text p = (if 0 < p then bytes_of '' port '' @ decimal (unat p) else [])"

definition sockaddr_address_string :: "sockaddr \<Rightarrow> u16 \<Rightarrow> nat \<Rightarrow> (bool \<times> byte list) cresult" where
  "sockaddr_address_string sa real_port len =
     (let unprintable = (False, take len (bytes_of ''???''));
          finish = (\<lambda>ntop. case ntop of
             None \<Rightarrow> unprintable
           | Some text \<Rightarrow> (True, text @ take (len - length text - 1) (port_text real_port)))
      in case sa of
           AF_INET a \<Rightarrow> Done (finish (inet_ntop (inet_ntop4 a) len))
         | AF_INET6 a \<Rightarrow> Done (finish (inet_ntop (inet_ntop6 a) len))
         | AF_UNIX path \<Rightarrow> (if 2 + length (c_string path) > len then OutOfBounds else Done (True, c_string path)))"

subsection \<open>Lengths\<close>

lemma decimal_length: "n < 10 ^ k \<Longrightarrow> 0 < k \<Longrightarrow> length (decimal n) \<le> k"
proof (induction k arbitrary: n)
  case (Suc k)
  show ?case
  proof (cases "n < 10")
    case False
    then have "0 < k" using Suc.prems(1) by (cases k) simp_all
    moreover have "n div 10 < 10 ^ k" using Suc.prems(1) by (simp add: less_mult_imp_div_less mult.commute)
    ultimately have "length (decimal (n div 10)) \<le> k" by (rule Suc.IH [rotated])
    then show ?thesis using False by (simp add: decimal.simps [of n])
  qed (simp add: decimal.simps [of n])
qed simp

lemma hexadecimal_length: "n < 16 ^ k \<Longrightarrow> 0 < k \<Longrightarrow> length (hexadecimal n) \<le> k"
proof (induction k arbitrary: n)
  case (Suc k)
  show ?case
  proof (cases "n < 16")
    case False
    then have "0 < k" using Suc.prems(1) by (cases k) simp_all
    moreover have "n div 16 < 16 ^ k" using Suc.prems(1) by (simp add: less_mult_imp_div_less mult.commute)
    ultimately have "length (hexadecimal (n div 16)) \<le> k" by (rule Suc.IH [rotated])
    then show ?thesis using False by (simp add: hexadecimal.simps [of n])
  qed (simp add: hexadecimal.simps [of n])
qed simp

lemma byte_decimal_length: "length (decimal (unat (b :: byte))) \<le> 3"
proof -
  have "unat b < 256" using unsigned_less [of b] by simp
  then have "unat b < 10 ^ 3" by simp
  then show ?thesis by (rule decimal_length) simp
qed

lemma join_with_length: "\<forall>x \<in> set xs. length x \<le> k \<Longrightarrow> length (join_with sep xs) \<le> (k + 1) * length xs"
  by (induction sep xs rule: join_with.induct) auto

lemma inet_ntop4_length: "length a \<le> 4 \<Longrightarrow> length (inet_ntop4 a) \<le> 16"
proof -
  assume a: "length a \<le> 4"
  have "length (inet_ntop4 a) \<le> (3 + 1) * length (map (\<lambda>b. decimal (unat b)) a)"
    unfolding inet_ntop4_def by (rule join_with_length) (simp add: byte_decimal_length)
  with a show ?thesis by simp
qed

lemma words6_bound: "\<forall>w \<in> set (words6 a). w < 16 ^ 4"
proof (induction a rule: words6.induct)
  case (1 a b cs)
  have "unat a < 256" "unat b < 256" using unsigned_less [of a] unsigned_less [of b] by simp_all
  then have "256 * unat a + unat b < 16 ^ 4" by simp
  with 1 show ?case by simp
qed simp_all

lemma words6_length: "length (words6 a) \<le> length a div 2"
  by (induction a rule: words6.induct) auto

lemma put6_length:
  "length tail4 \<le> 16 \<Longrightarrow> \<forall>w \<in> set ws. w < 16 ^ 4 \<Longrightarrow> length (put6 tail4 run as4 i ws) \<le> 5 * length ws + 12"
proof (induction tail4 run as4 i ws rule: put6.induct)
  case (2 tail4 run as4 i w ws)
  have "length (hexadecimal w) \<le> 4" using 2(4) hexadecimal_length [of w 4] by simp
  with 2 show ?case by auto
qed (auto split: option.splits)

lemma inet_ntop6_length: "length a = 16 \<Longrightarrow> length (inet_ntop6 a) \<le> 52"
proof -
  assume a: "length a = 16"
  have "length (inet_ntop4 (drop 12 a)) \<le> 16" using a by (intro inet_ntop4_length) simp
  then have "length (inet_ntop6 a) \<le> 5 * length (words6 a) + 12"
    unfolding inet_ntop6_def Let_def by (intro put6_length words6_bound)
  then show ?thesis using words6_length [of a] a by simp
qed

subsection \<open>Reading an address back\<close>

lemma decimal_no_zero: "10 \<le> n \<Longrightarrow> hd (decimal n) \<noteq> 48"
proof (induction n rule: decimal.induct)
  case (1 n)
  show ?case
  proof (cases "n div 10 < 10")
    case True
    then have "hd (decimal n) = 48 + of_nat (n div 10)" using 1(2) by (simp add: decimal.simps [of n] decimal.simps [of "n div 10"])
    moreover have "uint (48 + of_nat (n div 10) :: byte) = 48 + int (n div 10)" using True by (rule digit_byte)
    moreover have "0 < n div 10" using 1(2) by (simp add: div_greater_zero_iff)
    ultimately have "uint (hd (decimal n)) \<noteq> uint (48 :: byte)" by simp
    then show ?thesis by metis
  next
    case False
    then show ?thesis using 1 by (simp add: decimal.simps [of n] hd_append)
  qed
qed

lemma octet_decimal: "octet (decimal (unat (b :: byte))) = Some b"
proof -
  let ?d = "decimal (unat b)"
  have "uint b < 256" using unsigned_less [of b] by simp
  then have le: "dec_value 0 ?d \<le> 255" using decimal_spec [of "unat b"] by simp
  have "length ?d = 1 \<or> hd ?d \<noteq> 48"
    using decimal_no_zero [of "unat b"] by (cases "unat b < 10") (simp_all add: decimal.simps [of "unat b"])
  then show ?thesis using decimal_spec [of "unat b"] byte_decimal_length [of b] le by (simp add: octet_def)
qed

lemma split_join: "\<forall>x \<in> set xs. sep \<notin> set x \<Longrightarrow> xs \<noteq> [] \<Longrightarrow> split_at sep (join_with sep xs) = xs"
proof (induction sep xs rule: join_with.induct)
  case (2 sep x)
  then show ?case by (induction x) auto
next
  case (3 sep x y ys)
  have "split_at sep (x @ sep # rest) = x # split_at sep rest" if "sep \<notin> set x" for x rest using that by (induction x) auto
  with 3 show ?case by simp
qed simp

lemma all_some_map: "all_some (map Some xs) = Some xs"
  by (induction xs) simp_all

lemma inet_pton4_ntop4: "length a = 4 \<Longrightarrow> inet_pton4 (inet_ntop4 a) = Some a"
proof -
  assume a: "length a = 4"
  have dot: "46 \<notin> set (decimal n)" for n
  proof
    assume "46 \<in> set (decimal n)"
    then have "is_digit 46" using decimal_spec [of n] by (auto simp: list_all_iff)
    then show False by (simp add: is_digit_def)
  qed
  have "split_at 46 (inet_ntop4 a) = map (\<lambda>b. decimal (unat b)) a"
    unfolding inet_ntop4_def by (rule split_join) (use a dot in auto)
  then show ?thesis using a by (simp add: inet_pton4_def octet_decimal comp_def all_some_map)
qed

lemma IS_IP_VALID_CHAR_ntop4: "\<forall>c \<in> set (inet_ntop4 a). IS_IP_VALID_CHAR c"
proof -
  have "\<forall>c \<in> set (decimal n). IS_IP_VALID_CHAR c" for n
    using decimal_spec [of n] by (auto simp: list_all_iff is_digit_def IS_IP_VALID_CHAR_def)
  moreover have "set (join_with sep xs) \<subseteq> insert sep (\<Union> (set ` set xs))" for sep :: byte and xs
    by (induction sep xs rule: join_with.induct) auto
  ultimately show ?thesis by (fastforce simp: inet_ntop4_def IS_IP_VALID_CHAR_def)
qed

lemma parse_ip_ntop4:
  assumes "length a = 4" "rest = [] \<or> \<not> IS_IP_VALID_CHAR (hd rest)"
  shows "parse_ip_to_sockaddr (inet_ntop4 a @ rest) = Done (Some (AF_INET a))"
proof -
  let ?t = "inet_ntop4 a"
  have len: "length ?t \<le> 16" using assms(1) by (intro inet_ntop4_length) simp
  have read: "inet_pton4 ?t = Some a" using assms(1) by (rule inet_pton4_ntop4)
  have ne: "?t \<noteq> []" "?t \<noteq> [48]" using read by (auto simp: inet_pton4_def octet_def)
  moreover have "hd (?t @ rest) \<noteq> 91" using ne IS_IP_VALID_CHAR_ntop4 [of a] by (cases ?t) (auto simp: IS_IP_VALID_CHAR_def)
  moreover have "takeWhile IS_IP_VALID_CHAR (take 64 (?t @ rest)) = ?t"
    using assms(2) len IS_IP_VALID_CHAR_ntop4 [of a]
    by (cases rest) (auto simp: takeWhile_append2 take_Cons')
  ultimately show ?thesis using read len by (simp add: parse_ip_to_sockaddr_def Let_def)
qed

lemma port_text_length: "length (port_text p) \<le> 11"
proof -
  have "unat p < 65536" using unsigned_less [of p] by simp
  then have "unat p < 10 ^ 5" by simp
  then have "length (decimal (unat p)) \<le> 5" by (rule decimal_length) simp
  then show ?thesis by (simp add: port_text_def bytes_of_def)
qed

lemma sockaddr_address_string_ip:
  assumes "64 \<le> len"
  shows "length a = 4 \<Longrightarrow> sockaddr_address_string (AF_INET a) p len = Done (True, inet_ntop4 a @ port_text p)"
    and "length a = 16 \<Longrightarrow> sockaddr_address_string (AF_INET6 a) p len = Done (True, inet_ntop6 a @ port_text p)"
  using assms inet_ntop4_length [of a] inet_ntop6_length [of a] port_text_length [of p]
  by (auto simp: sockaddr_address_string_def inet_ntop_def Let_def)

text \<open>C30: Every address of an IP socket is printed in full, with its port, in a buffer of 64 bytes such as that of \<open>accept_nbd_client\<close>.  What is printed for an IPv4 address reads back as that address.\<close>

theorem ip_address_printed:
  assumes "addr_ok sa" "\<forall>path. sa \<noteq> AF_UNIX path" "64 \<le> len"
  shows "\<exists>s. sockaddr_address_string sa p len = Done (True, s) \<and> length s < len
    \<and> s = (case sa of AF_INET a \<Rightarrow> inet_ntop4 a | AF_INET6 a \<Rightarrow> inet_ntop6 a | AF_UNIX _ \<Rightarrow> []) @ port_text p
    \<and> (\<forall>a. sa = AF_INET a \<longrightarrow> parse_ip_to_sockaddr s = Done (Some sa))"
proof -
  have port: "length (port_text p) \<le> 11" "port_text p = [] \<or> \<not> IS_IP_VALID_CHAR (hd (port_text p))"
    using port_text_length [of p] by (auto simp: port_text_def bytes_of_def IS_IP_VALID_CHAR_def)
  show ?thesis
  proof (cases sa)
    case (AF_INET a)
    then have a: "length a = 4" using assms(1) by simp
    then show ?thesis using AF_INET sockaddr_address_string_ip(1) [OF assms(3) a] parse_ip_ntop4 [OF a port(2)]
        inet_ntop4_length [of a] port(1) assms(3) by auto
  next
    case (AF_INET6 a)
    then have a: "length a = 16" using assms(1) by simp
    then show ?thesis using AF_INET6 sockaddr_address_string_ip(2) [OF assms(3) a] inet_ntop6_length [OF a] port(1) assms(3) by auto
  qed (use assms(2) in simp)
qed

theorem ip_address_printed_witness:
  "\<exists>s. sockaddr_address_string (AF_INET [192, 168, 0, 1]) 4777 64 = Done (True, s) \<and> length s < 64
    \<and> s = (case AF_INET [192, 168, 0, 1] of AF_INET a \<Rightarrow> inet_ntop4 a | AF_INET6 a \<Rightarrow> inet_ntop6 a | AF_UNIX _ \<Rightarrow> []) @ port_text 4777
    \<and> (\<forall>a. AF_INET [192, 168, 0, 1] = AF_INET a \<longrightarrow> parse_ip_to_sockaddr s = Done (Some (AF_INET [192, 168, 0, 1])))"
  by (rule ip_address_printed) simp_all

text \<open>No client that connects over IP is turned away as having a bad address: the access control list alone decides.\<close>

theorem ip_client_judged_by_acl:
  assumes "addr_ok sa" "\<forall>path. sa \<noteq> AF_UNIX path"
  shows "server_should_accept_client (case sockaddr_address_string sa p 64 of Done (shown, _) \<Rightarrow> shown | _ \<Rightarrow> False) sa s = server_acl_accepts sa s"
  using assms sockaddr_address_string_ip [of 64]
  by (cases sa) (simp_all add: server_should_accept_client_def)

text \<open>The path of a UNIX socket is copied with a bound taken from the path and not from the buffer: a caller with a buffer smaller than
  the path plus two writes past its end.\<close>

theorem unix_path_overruns_buffer:
  "len < length (c_string path) + 2 \<Longrightarrow> sockaddr_address_string (AF_UNIX path) p len = OutOfBounds"
  by (simp add: sockaddr_address_string_def)

end
