(* ===== verification/Handover.thy ===== *)
theory Handover
  imports Migration Mode
begin

text \<open>
  From the command line to the copied file.  \<^verbatim>\<open>flexnbd mirror\<close> of \<open>Mode\<close> sends its command, the control thread of \<open>Control\<close> obeys it, the mirror it
  creates runs as in \<open>Mirror\<close>, and what happens then is a run of \<open>Migration\<close>.
\<close>

text \<open>The start of a run: the mirror is about to send its first transfer to a listener with the file \<open>there\<close>, while clients are in
  the middle of the writes \<open>writing\<close>.\<close>

definition migrating :: "mirror_ctrl \<Rightarrow> byte list \<Rightarrow> (u64 \<times> u64) list \<Rightarrow> mig" where
  "migrating k there writing = \<lparr>ctrl = k, wire = [], replies = [], remote = there, pending = writing, torn = [], phase = Sending\<rparr>"

text \<open>A server that can be mirrored: nothing else starts a mirror or holds its locks, nobody waits for a message of an earlier one, and the
  map of allocated chunks covers the file, with its stream of changes off and empty.\<close>

definition mirrorable :: "server \<Rightarrow> bool" where
  "mirrorable sv \<longleftrightarrow> wf_bitset (allocation_map sv) \<and> bs_size (allocation_map sv) = serve_size sv \<and> length (file_map sv) = unat (serve_size sv)
     \<and> 0 < unat (serve_size sv) \<and> unat (serve_size sv) < 2 ^ 63
     \<and> \<not> stream_enabled (allocation_map sv) \<and> stream_list (stream (allocation_map sv)) = []"

definition ready_to_mirror :: "ctl \<Rightarrow> bool" where
  "ready_to_mirror c \<longleftrightarrow> \<not> l_start_mirror (ct_serve c) \<and> mirror_can_start (ct_serve c) \<and> \<not> mb_full (ct_mbox c)
     \<and> \<not> acl_locked (core (ct_serve c)) \<and> ct_out c = [] \<and> mirrorable (core (ct_serve c))"

lemma mirror_begins:
  assumes ok: "ctrl_ok c" and q: "queued c = []" and z: "offset (mirror c) = 0" "serve_size (mserve c) \<noteq> 0"
  shows "\<exists>k. mirror_run_begin now calls c = Ret True k \<and> file_map (mserve k) = file_map (mserve c) \<and> serve_size (mserve k) = serve_size (mserve c)"
proof -
  define c1 where "c1 = c\<lparr>mirror := (mirror c)\<lparr>migration_started := now\<rparr>, abandon_watcher := True\<rparr>"
  have c1: "mserve c1 = mserve c" "mmap c1 = mmap c" "offset (mirror c1) = 0" using z(1) by (simp_all add: c1_def mmap_def)
  have ok1: "ctrl_ok c1" using ok z(1) c1 by (subst ctrl_ok_cong [of _ c]) simp_all
  obtain nx c2 where su: "mirror_setup_next_xfer c1 = (nx, c2)" by fastforce
  from mirror_setup_next_xfer_spec [OF ok1] su c1 z(2) q obtain st ce f l o' where nx: "nx" "stream_list st = []"
    and c2: "c2 = (put_mmap ((mmap c1)\<lparr>stream := st\<rparr>) c1)\<lparr>clear_events := ce, mirror := (mirror c1)\<lparr>offset := o'\<rparr>, xfer := new_xfer f l\<rparr>"
    by (auto simp: c1(2))
  let ?c3 = "c2\<lparr>write_watcher := True, timeout_watcher := True\<rparr>"
  have srv: "file_map (mserve c2) = file_map (mserve c)" "serve_size (mserve c2) = serve_size (mserve c)"
    using c1(1) by (simp_all add: c2 put_mmap_def)
  have run: "mirror_run_begin now calls c = (if allocation_map_built (mserve c2) then and_then (enable_stream ?c3) (\<lambda>_. Ret True)
      else Ret True (c2\<lparr>begin_watcher := True\<rparr>))"
    using z(2) su nx(1) by (simp add: mirror_run_begin_def c1_def Let_def)
  have "wf_bitset ((mmap c2)\<lparr>stream_enabled := True\<rparr>)"
    using setup_ctrl_ok [OF ok1 su] by (auto simp: ctrl_ok_def wf_bitset_def)
  moreover have "bitset_stream_size ((mmap c2)\<lparr>stream_enabled := True\<rparr>) \<noteq> BITSET_STREAM_SIZE"
    using nx(2) by (simp add: c2 mmap_def put_mmap_def bitset_stream_size_def stream_list_def BITSET_STREAM_SIZE_def)
  ultimately obtain bs where "bitset_enable_stream (mmap c2) = Done bs"
    using enqueue_spec [of "(mmap c2)\<lparr>stream_enabled := True\<rparr>" BITSET_STREAM_ON 0 "bs_size (mmap c2)"]
    by (auto simp: bitset_enable_stream_def)
  then have "enable_stream ?c3 = Ret () (put_mmap bs ?c3)" by (simp add: enable_stream_def mmap_def)
  then show ?thesis using run srv by (cases "allocation_map_built (mserve c2)") (simp_all add: put_mmap_def)
qed


lemma done_is_copy:
  assumes "mig_inv t" "commit_state (mirror (ctrl t)) = MS_DONE" "torn t = []"
  shows "remote t = file_map (mserve (ctrl t)) \<and> clients_closed (ctrl t)"
proof -
  note i = mig_invD [OF assms(1)]
  have "drained (ctrl t)" using i(7) assms(2) by (auto simp: done_inv_def)
  moreover have "length (remote t) = unat (serve_size (mserve (ctrl t)))" using i(1,2) by (simp add: ctrl_ok_def)
  ultimately show ?thesis
    using i(2) done_copied [OF assms(1,2)] assms(3) by (auto simp: drained_def ctrl_ok_def intro: nth_equalityI)
qed

lemma connected_mirror_migrates:
  assumes sv: "mirrorable sv"
    and "mirror_connect out (serve_size sv) (mirror_create bps action) = (True, m)"
    and "length there = length (file_map sv)" "list_all (range_ok (serve_size sv)) writing"
  shows "\<exists>k. mirror_run_begin now calls (mirror_ctrl_zero sv m False) = Ret True k \<and> (\<forall>t. mig_step\<^sup>*\<^sup>* (migrating k there writing) t \<longrightarrow>
     commit_state (mirror (ctrl t)) = MS_DONE \<longrightarrow> torn t = [] \<longrightarrow> remote t = file_map (mserve (ctrl t)) \<and> clients_closed (ctrl t))"
proof -
  let ?c = "mirror_ctrl_zero sv m False"
  have m: "m = mirror_set_state_f (mirror_create bps action) MS_GO"
    using assms(2) by (auto simp: mirror_connect_def split: hello_outcome.splits if_splits)
  have c: "mserve ?c = sv" "mirror ?c = m" "abandon_signal ?c = False" by (simp_all add: mirror_ctrl_zero_def)
  have off: "offset m = 0" "commit_state m = MS_GO" by (simp_all add: m mirror_create_def mirror_reset_def mirror_set_state_f_def)
  have ok: "ctrl_ok ?c" "queued ?c = []" using sv off by (simp_all add: ctrl_ok_def mirrorable_def mmap_def c)
  have nz: "serve_size sv \<noteq> 0" using sv by (auto simp: mirrorable_def)
  with ok obtain k where k: "mirror_run_begin now calls ?c = Ret True k" "file_map (mserve k) = file_map sv" "serve_size (mserve k) = serve_size sv"
    using mirror_begins [of ?c now calls] off by (auto simp: c)
  have "mig_init (migrating k there writing)"
    unfolding mig_init_def migrating_def using ok k nz sv assms(3,4) off
    by (intro conjI exI [of _ ?c] exI [of _ now] exI [of _ calls]) (simp_all add: c mmap_def mirrorable_def)
  then have "mig_inv t" if "mig_step\<^sup>*\<^sup>* (migrating k there writing) t" for t using that by (rule mig.reachable_inv)
  with k(1) show ?thesis by (intro exI [of _ k] conjI allI impI) (simp_all add: done_is_copy)
qed

lemma mirror_argv_lines:
  assumes "line_ok a" "line_ok p" "parse_ip_to_sockaddr a = Done (Some to)" "0 \<le> atoi p" "atoi p \<le> 65535"
    and "args = [a, p, bytes_of (if ul then ''unlink'' else ''exit'')]"
  shows "\<forall>l \<in> set (bytes_of ''mirror'' # args). line_ok l"
    and "parse_mirror_args args = Ret (Inr (to, htobe16 (word_of_int (atoi p)), if ul then ACTION_UNLINK else ACTION_EXIT, None, - 1)) ()"
  using assms by (auto simp: line_ok_def bytes_of_def parse_mirror_args_def parse_action_def parse_bind_def parse_max_bps_def Let_def)




end
