(* ===== verification/Spec2Isabelle.thy ===== *)
theory Spec2Isabelle
  imports Migration Service Readwrite Mode Threading Writers Lifecycle Netaddr Handover
begin

text \<open>
  A verification development for flexnbd, an NBD server with live migration, and flexnbd-proxy, a
  proxy that hides reconnections from its client.

  \<^bold>\<open>The program.\<close>  A server (\<^verbatim>\<open>serve.c\<close>) maps a file and runs one thread per client (\<^verbatim>\<open>client.c\<close>) that answers NBD
  requests (\<^verbatim>\<open>nbdtypes.c\<close>).  A bitset (\<^verbatim>\<open>bitset.h\<close>) records which chunks are allocated and carries a bounded
  stream of change events.  A control thread (\<^verbatim>\<open>control.c\<close>) takes commands on a UNIX socket; the mirror
  command starts a supervisor and a mirror thread (\<^verbatim>\<open>mirror.c\<close>) that copies the file to a listening server, follows the
  change events, at the end closes the clients, sends the last changes and disconnects, upon which the listener
  takes over.  The proxy (\<^verbatim>\<open>proxy.c\<close>, \<^verbatim>\<open>prefetch.c\<close>) relays requests and replies between one client
  and a server it reconnects to.  The same binary reads and writes as a client (\<^verbatim>\<open>readwrite.c\<close>) and sends control
  commands (\<^verbatim>\<open>remote.c\<close>); \<^verbatim>\<open>mode.c\<close> parses the command lines.

  \<^bold>\<open>The theories\<close>, in the order of imports:
  \<^item> \<open>Flex_Prelude\<close>: word types and arithmetic; the results \<open>cresult\<close> (of memory operations) and \<open>outcome\<close> (of
    threads: return, \<^verbatim>\<open>error()\<close>, \<^verbatim>\<open>fatal()\<close>, sleep, spin, memory fault) with \<open>and_then\<close>; the locale \<open>step_invariant\<close>.
  \<^item> \<open>Threading\<close>: \<^verbatim>\<open>flexthread.c\<close>, \<^verbatim>\<open>self_pipe.c\<close> and \<^verbatim>\<open>util.c\<close>: mutexes that know their holder, shown exact under every
    interleaving of the statements of lock and unlock (an instance of \<open>step_invariant\<close>), pipes as signals, error handlers, the clock.
  \<^item> \<open>Bitfield\<close> and \<open>Bitset\<close>: \<^verbatim>\<open>bitset.h\<close>.  Bit arrays over 64-bit words are equal to bit-by-bit references
    (locale \<open>bit_writer\<close>, interpreted on setting and clearing); the ring of events refines a bounded queue
    (locale \<open>bounded_queue\<close>); range operations change exactly the chunks they touch.
  \<^item> \<open>Nbdtypes\<close>: \<^verbatim>\<open>nbdtypes.c\<close>, the wire format and its round trips.
  \<^item> \<open>Ioutil\<close>: \<^verbatim>\<open>ioutil.c\<close>, loops around system calls, line input, the allocation map.
  \<^item> \<open>Client\<close>: \<^verbatim>\<open>client.c\<close>, the request cycle on a record \<open>client\<close> whose field \<open>serve\<close> is the shared part of \<^verbatim>\<open>struct server\<close>.
  \<^item> \<open>Writers\<close>: several client threads at a time.  \<open>write_not_zeroes\<close> cut into the steps between which other threads run; what
    clients that write to disjoint ranges can rely on (an instance of \<open>step_invariant\<close>), and the schedule in which a stale count of a run loses data.
  \<^item> \<open>Parse_Acl\<close>: \<^verbatim>\<open>parse.c\<close> and \<^verbatim>\<open>acl.c\<close>.
  \<^item> \<open>Mirror\<close>: \<^verbatim>\<open>mirror.c\<close>, one function per libev callback, the runner and the supervisor.  \<open>Migration\<close> interleaves
    these callbacks with client writes and a listener as a step relation and proves by its invariant
    (an instance of \<open>step_invariant\<close>) that a finished migration has copied the file.
  \<^item> \<open>Prefetch\<close>, \<open>Proxy\<close>, \<open>Relay\<close>: \<^verbatim>\<open>prefetch.c\<close> and \<^verbatim>\<open>proxy.c\<close>; \<open>Relay\<close> proves the session invariant.
  \<^item> \<open>Service\<close>: what the server and the proxy promise to their clients.  The specification is a disk, an array of bytes with reads,
    writes and flushes; the locale \<open>nbd_service\<close> is the promise to answer like the disk, interpreted on the client thread
    and, by its own lemma that a proxy session in front of any such service is such a service again, on the proxy.
  \<^item> \<open>Readwrite\<close>: \<^verbatim>\<open>readwrite.c\<close>, the client side.  \<open>Sockutil\<close>: \<^verbatim>\<open>sockutil.c\<close>, the retry loops and
    socket options; \<open>Netaddr\<close> prints addresses, with enough room in the callers' buffers, and reads IPv4 addresses back.
  \<^item> \<open>Serve\<close>: \<^verbatim>\<open>serve.c\<close>, the record \<open>serving\<close>, the client table, access control, the accept loop and shutdown.
    The step relation \<open>acl_step\<close> interleaves the main thread with the control thread's replacement of the access
    list; its invariant is the second instance of \<open>step_invariant\<close>.
  \<^item> \<open>Control\<close>: \<^verbatim>\<open>control.c\<close>, \<^verbatim>\<open>status.c\<close>, \<^verbatim>\<open>mbox.c\<close> and \<^verbatim>\<open>remote.c\<close>: commands from the sender's arguments to its exit status.
  \<^item> \<open>Mode\<close>: \<^verbatim>\<open>mode.c\<close>, \<^verbatim>\<open>mode.h\<close>, \<^verbatim>\<open>main.c\<close>, \<^verbatim>\<open>proxy-main.c\<close> and the construction of servers in \<^verbatim>\<open>flexnbd.c\<close>.
  \<^item> \<open>Handover\<close>: \<^verbatim>\<open>flexnbd mirror\<close> from its command line through the control thread to the end of the migration it starts.
  \<^item> \<open>Lifecycle\<close>: who owns which memory, descriptor, timer and mapping, on an explicit store.  Each pair of create and destroy functions is an
    instance of the locale \<open>managed\<close>; from it follow the life cycles of the process, of a table of clients, of the mirror and of the proxy,
    with what each leaves behind.  Functions that other theories model for their effect on the server have the prefix \<open>h_\<close> here.
  \<^item> This theory: what holds of several parts together.  The listener of \<open>Migration\<close> is a client thread of \<open>Client\<close>;
    \<^verbatim>\<open>flexnbd read\<close> and \<^verbatim>\<open>flexnbd write\<close> against a client thread.

  \<^bold>\<open>Correspondence.\<close>  Definitions have the names of the C functions.  A definition with another name is a part of
  a function cut out so that lemmas can speak of it (the body of a loop, a locked section) or a pass of a loop.
  Machine integers keep their width.  Memory is a list of bytes, and reading or writing outside it is the
  result \<open>OutOfBounds\<close> or \<open>Fault\<close>.  System calls are inputs: what a read will deliver (\<open>rd list\<close>), what a write will accept
  (\<open>wr list\<close>), results of \<^verbatim>\<open>select\<close>, \<^verbatim>\<open>connect\<close>, \<^verbatim>\<open>pthread_create\<close> and joins, the clock.  The end of such a list is a call that
  does not return yet.

  \<^bold>\<open>Loops.\<close>  Loops over data or over the list of system-call results are recursive functions with proved
  termination.  \<open>write_not_zeroes\<close>, \<open>client_flush\<close>, \<open>sendfileloop\<close> and \<open>spliceloop\<close> can run for ever in the code; they are
  partial functions with value \<open>None\<close> then, and the properties prove that they return.  There is no fuel.

  \<^bold>\<open>Concurrency.\<close>  A mutex is the atomicity of what it protects; waiting for a condition variable is \<open>Asleep\<close>.
  Interleaving is modelled where the code depends on it: in \<open>Migration\<close> (mirror, clients, listener), in \<open>Writers\<close> (clients) and in
  \<open>Serve\<close> (main thread, control thread, clients).  The proxy is a single thread; the liveness lemmas of \<open>Relay\<close> assume that
  sockets reported ready can be read or written.

  \<^bold>\<open>Findings.\<close>  Several theorems show behaviour that the code cannot have meant: \<open>mirror_retry_never_succeeds\<close>,
  \<open>torn_write_not_copied\<close>, \<open>stale_run_loses_zero_write\<close>, \<open>client_range_check_wraps\<close>, \<open>zero_length_write_overruns_map\<close>, \<open>bitset_alloc_short\<close>,
  \<open>error_reply_to_read_never_relayed\<close>, \<open>doubled_read_overruns_reply_buffer\<close>, \<open>late_client_not_told_to_stop\<close>,
  \<open>second_mirror_command_runs_too\<close>, \<open>long_flags_need_arguments\<close>, \<open>size_argument_misread\<close>, \<open>mirror_leaves_descriptor\<close>,
  \<open>refused_mirror_command_leaks\<close> and others beside them.

  \<^bold>\<open>Not modelled.\<close>  The wording of log lines and help texts; what the kernel does with socket options; the time at which the killswitch's timer
  fires; \<^verbatim>\<open>server_mirror_bps\<close> and its kin outside a migration, where they return 0.  The components other than \<open>Lifecycle\<close> use pipes
  and mutexes as counters and flags in their own records.
\<close>

text \<open>The way a client thread ends is the one of \<^verbatim>\<open>util.h\<close>: with \<open>client_cleanup\<close> set as the thread's error handler, an error in its body
  exits the thread after exactly the cleanup that \<open>client_serve\<close> shows.\<close>

lemma client_serve_fate:
  "thread_fate (Some (\<lambda>c _. client_cleanup c)) (client_serve_body opened sels c)
     = (case client_serve opened sels c of Error c' \<Rightarrow> Exits c' | r \<Rightarrow> thread_fate None r)"
  by (cases "client_serve_body opened sels c") (simp_all add: client_serve_def error_handler_def handler_jump_def)

text \<open>C11: the listener of the migration is this server.  Whatever \<open>listener_apply\<close>, the listener of the
  theory of migrations, does with the bytes of one transfer, the client thread of a listening server does
  when they arrive on its socket: the same file, the same reply, and the thread goes on.\<close>

theorem listener_is_client_thread:
  assumes "listener_apply w (file_map (serve c)) = Some (m, reply)" "rd_data (sock_in c) = w @ rest"
    and "srv_ok (serve c)" "allocation_map_built (serve c)" "\<not> server_closed (serve c)"
    and "\<not> stream_enabled (allocation_map (serve c))" "msync_fails c = []" "wr_clean (sock_wr c)"
  shows "\<exists>c'. client_serve_request SocketReadable c = Ret False c' \<and> file_map (serve c') = m \<and> srv_ok (serve c')
    \<and> sock_out c' = sock_out c @ reply \<and> rd_data (sock_in c') = rest"
proof -
  define rq where "rq = nbd_r2h_request (request_raw_of (take NBD_REQUEST_SIZE w))"
  have w: "NBD_REQUEST_SIZE \<le> length w" "rq_magic rq = REQUEST_MAGIC" "rq_type rq = REQUEST_WRITE"
    "length w = NBD_REQUEST_SIZE + unat (rq_len rq)" "reply = reply_bytes (rq_handle rq) 0"
    "mem_write (unat (rq_from rq)) (drop NBD_REQUEST_SIZE w) (file_map (serve c)) = Some m"
    using assms(1) by (auto simp: listener_apply_def Let_def rq_def split: if_splits)
  have "request_raw_bytes (nbd_h2r_request rq) = take NBD_REQUEST_SIZE w"
    using w(1) by (simp add: rq_def request_raw_bytes_of)
  then have "rd_data (sock_in c) = request_raw_bytes (nbd_h2r_request rq) @ drop NBD_REQUEST_SIZE w @ rest" using assms(2) by simp
  moreover have "unat (rq_from rq) + unat (rq_len rq) \<le> unat (serve_size (serve c))"
    using w(4,6) assms(3) by (auto simp: srv_ok_def mem_write.simps split: if_splits)
  moreover have "room (serve c) (nblocks (unat (rq_from rq)) (unat (rq_len rq)))" using assms(6) by (simp add: room_def)
  ultimately obtain c' where "client_serve_request SocketReadable c = Ret False c'" "srv_ok (serve c')"
    "mem_write (unat (rq_from rq)) (drop NBD_REQUEST_SIZE w) (file_map (serve c)) = Some (file_map (serve c'))"
    "sock_out c' = sock_out c @ reply_bytes (rq_handle rq) 0" "rd_data (sock_in c') = rest"
    using serve_write_ok [of c rq "drop NBD_REQUEST_SIZE w" rest] w assms(3-5,7,8) by auto
  with w(5,6) show ?thesis by auto
qed

theorem listener_is_client_thread_witness:
  "\<exists>c'. client_serve_request SocketReadable (ex_client [Avail (request_raw_bytes (nbd_h2r_request ex_write)), Avail [9, 8, 7]])
       = Ret False c' \<and> sock_out c' = reply_bytes 7 0
     \<and> file_map (serve c') = take 100 (file_map ex_server) @ [9, 8, 7] @ drop 103 (file_map ex_server)"
proof -
  let ?c = "ex_client [Avail (request_raw_bytes (nbd_h2r_request ex_write)), Avail [9, 8, 7]]"
  let ?w = "request_raw_bytes (nbd_h2r_request ex_write) @ [9, 8, 7]"
  have c: "serve ?c = ex_server" "rd_data (sock_in ?c) = ?w @ []" "msync_fails ?c = []" "wr_clean (sock_wr ?c)" "sock_out ?c = []"
    using request_bytes_ne by (simp_all add: ex_client_def wr_clean_def)
  have s: "allocation_map_built ex_server" "\<not> server_closed ex_server" "\<not> stream_enabled (allocation_map ex_server)" "length (file_map ex_server) = 8192"
    by (simp_all add: ex_server_def bitset_alloc_def)
  have "listener_apply ?w (file_map ex_server)
      = Some (take 100 (file_map ex_server) @ [9, 8, 7] @ drop 103 (file_map ex_server), reply_bytes 7 0)"
    using s(4) by (simp add: listener_apply_def ex_write_def mem_write_Some Let_def)
  from listener_is_client_thread [of ?w ?c, unfolded c(1), OF this c(2) ex_server_ok(1) s(1-3) c(3,4)] c(5)
  show ?thesis by auto
qed

text \<open>C15: \<^verbatim>\<open>flexnbd read\<close> against \<^verbatim>\<open>flexnbd serve\<close>.  The greeting and the answer of a client thread, fed to
  \<open>do_read\<close>, make it return exactly the bytes of the file in the range it was given, after it has sent
  exactly the request that the thread answered.\<close>

theorem flexnbd_read_from_server:
  assumes "rd_data (sock_in c) = request_raw_bytes (fill_request r1 r2 REQUEST_READ 0 from len)" "sock_out c = []"
    and "length (file_map (serve c)) = unat (serve_size (serve c))" "unat (serve_size (serve c)) \<le> 2 ^ 63"
    and "unat from + unat len \<le> unat (serve_size (serve c))" "0 < unat len"
    and "\<not> server_closed (serve c)" "sock_wr c = []" "0 \<le> fd"
  shows "\<exists>c1 c2 hello k. client_send_hello c = Ret () c1 \<and> sock_out c1 = hello \<and> client_serve_request SocketReadable c1 = Ret False c2
    \<and> sock_out c2 = hello @ ok_reply (nbd_handle r1 r2) @ mem_slice (unat from) (unat len) (file_map (serve c))
    \<and> do_read fd r1 r2 DataReady from len
        \<lparr>nc_in = [Avail hello, Avail (ok_reply (nbd_handle r1 r2)), Avail (mem_slice (unat from) (unat len) (file_map (serve c)))],
         nc_wr = [], nc_out = []\<rparr> = Ret (mem_slice (unat from) (unat len) (file_map (serve c))) k
    \<and> nc_out k = rd_data (sock_in c)"
proof -
  let ?d = "mem_slice (unat from) (unat len) (file_map (serve c))"
  let ?rq = "\<lparr>rq_magic = REQUEST_MAGIC, rq_flags = 0, rq_type = REQUEST_READ, rq_handle = nbd_handle r1 r2, rq_from = from, rq_len = len\<rparr>"
  have d: "length ?d = unat len" using assms(3,5) by simp
  then have ne: "?d \<noteq> []" using assms(6) by auto
  obtain es e hello where h: "client_send_hello c = Ret () (c\<lparr>sock_wr := es, sock_out := hello, errno := e\<rparr>)"
    "length hello = NBD_INIT_SIZE" "nbd_check_hello (init_raw_of hello) = Some (serve_size (serve c), FLAG_HAS_FLAGS OR FLAG_SEND_FLUSH OR FLAG_SEND_FUA)"
    "es = []"
    using client_send_hello_ok [of c] assms(2,8) by (auto simp: wr_clean_def)
  let ?c1 = "c\<lparr>sock_wr := es, sock_out := hello, errno := e\<rparr>"
  obtain c2 where "client_serve_request SocketReadable ?c1 = Ret False c2" "sock_out c2 = hello @ ok_reply (nbd_handle r1 r2) @ ?d"
    using serve_read_ok [of ?c1 ?rq "[]"] assms h(4) by (auto simp: fill_request_h2r)
  moreover obtain k where "do_read fd r1 r2 DataReady from len \<lparr>nc_in = [Avail hello, Avail (ok_reply (nbd_handle r1 r2)), Avail ?d], nc_wr = [], nc_out = []\<rparr> = Ret ?d k"
    "nc_out k = rd_data (sock_in c)"
    using do_read_answered [OF assms(9) _ _ h(2,3) assms(5) d ne, of "\<lparr>nc_in = [Avail hello, Avail (ok_reply (nbd_handle r1 r2)), Avail ?d], nc_wr = [], nc_out = []\<rparr>"]
      assms(1) by (auto simp: wr_clean_def)
  ultimately show ?thesis using h(1) by (intro exI [of _ ?c1] exI [of _ c2] exI [of _ hello] exI [of _ k]) simp
qed

theorem flexnbd_read_from_server_witness:
  "\<exists>c1 c2 hello k. client_send_hello (ex_client [Avail (request_raw_bytes (fill_request 1 2 REQUEST_READ 0 8190 2))]) = Ret () c1
    \<and> sock_out c1 = hello \<and> client_serve_request SocketReadable c1 = Ret False c2
    \<and> do_read 3 1 2 DataReady 8190 2
        \<lparr>nc_in = [Avail hello, Avail (ok_reply (nbd_handle 1 2)), Avail (mem_slice 8190 2 (file_map ex_server))],
         nc_wr = [], nc_out = []\<rparr> = Ret (mem_slice 8190 2 (file_map ex_server)) k"
proof -
  let ?c = "ex_client [Avail (request_raw_bytes (fill_request 1 2 REQUEST_READ 0 8190 2))]"
  have "serve ?c = ex_server" "rd_data (sock_in ?c) = request_raw_bytes (fill_request 1 2 REQUEST_READ 0 8190 2)" "sock_out ?c = []" "sock_wr ?c = []"
    using request_bytes_ne by (simp_all add: ex_client_def)
  moreover have "serve_size ex_server = 8192" "length (file_map ex_server) = 8192" "\<not> server_closed ex_server"
    by (simp_all add: ex_server_def)
  ultimately show ?thesis using flexnbd_read_from_server [of ?c 1 2 8190 2 3] by auto
qed

text \<open>C16: \<^verbatim>\<open>flexnbd write\<close> against \<^verbatim>\<open>flexnbd serve\<close>.  The greeting and the reply of a client thread, fed to
  \<open>do_write\<close>, make it return with success; what it has sent is exactly what the thread served, and the
  file of the server then holds the data at the offset it was given.\<close>

theorem flexnbd_write_to_server:
  assumes "rd_data (sock_in c) = request_raw_bytes (fill_request r1 r2 REQUEST_WRITE 0 from len) @ data" "sock_out c = []"
    and "length data = unat len" "0 < unat len" "unat from + unat len \<le> unat (serve_size (serve c))"
    and "srv_ok (serve c)" "allocation_map_built (serve c)" "\<not> server_closed (serve c)"
    and "room (serve c) (nblocks (unat from) (unat len))" "msync_fails c = []" "sock_wr c = []" "0 \<le> fd"
  shows "\<exists>c1 c2 hello k. client_send_hello c = Ret () c1 \<and> sock_out c1 = hello \<and> client_serve_request SocketReadable c1 = Ret False c2
    \<and> sock_out c2 = hello @ ok_reply (nbd_handle r1 r2)
    \<and> mem_write (unat from) data (file_map (serve c)) = Some (file_map (serve c2))
    \<and> do_write fd r1 r2 DataReady from len [Avail data]
        \<lparr>nc_in = [Avail hello, Avail (ok_reply (nbd_handle r1 r2))], nc_wr = [], nc_out = []\<rparr> = Ret () k
    \<and> nc_out k = rd_data (sock_in c)"
proof -
  let ?rq = "\<lparr>rq_magic = REQUEST_MAGIC, rq_flags = 0, rq_type = REQUEST_WRITE, rq_handle = nbd_handle r1 r2, rq_from = from, rq_len = len\<rparr>"
  have ne: "data \<noteq> []" using assms(3,4) by auto
  obtain es e hello where h: "client_send_hello c = Ret () (c\<lparr>sock_wr := es, sock_out := hello, errno := e\<rparr>)"
    "length hello = NBD_INIT_SIZE" "nbd_check_hello (init_raw_of hello) = Some (serve_size (serve c), FLAG_HAS_FLAGS OR FLAG_SEND_FLUSH OR FLAG_SEND_FUA)"
    "es = []"
    using client_send_hello_ok [of c] assms(2,11) by (auto simp: wr_clean_def)
  let ?c1 = "c\<lparr>sock_wr := es, sock_out := hello, errno := e\<rparr>"
  obtain c2 where "client_serve_request SocketReadable ?c1 = Ret False c2" "sock_out c2 = hello @ ok_reply (nbd_handle r1 r2)"
    "mem_write (unat from) data (file_map (serve c)) = Some (file_map (serve c2))"
    using serve_write_ok [of ?c1 ?rq data "[]"] assms h(4) by (auto simp: fill_request_h2r wr_clean_def)
  moreover obtain k where "do_write fd r1 r2 DataReady from len [Avail data]
      \<lparr>nc_in = [Avail hello, Avail (ok_reply (nbd_handle r1 r2))], nc_wr = [], nc_out = []\<rparr> = Ret () k" "nc_out k = rd_data (sock_in c)"
    using do_write_answered [OF assms(12) _ _ h(2,3) assms(5,3) ne, of "\<lparr>nc_in = [Avail hello, Avail (ok_reply (nbd_handle r1 r2))], nc_wr = [], nc_out = []\<rparr>"]
      assms(1) by (auto simp: wr_clean_def)
  ultimately show ?thesis using h(1) by (intro exI [of _ ?c1] exI [of _ c2] exI [of _ hello] exI [of _ k]) simp
qed

theorem flexnbd_write_to_server_witness:
  "\<exists>c1 c2 hello k. client_send_hello (ex_client [Avail (request_raw_bytes (fill_request 1 2 REQUEST_WRITE 0 100 3)), Avail [9, 8, 7]]) = Ret () c1
    \<and> sock_out c1 = hello \<and> client_serve_request SocketReadable c1 = Ret False c2
    \<and> mem_write 100 [9, 8, 7] (file_map ex_server) = Some (file_map (serve c2))
    \<and> do_write 3 1 2 DataReady 100 3 [Avail [9, 8, 7]]
        \<lparr>nc_in = [Avail hello, Avail (ok_reply (nbd_handle 1 2))], nc_wr = [], nc_out = []\<rparr> = Ret () k"
proof -
  let ?c = "ex_client [Avail (request_raw_bytes (fill_request 1 2 REQUEST_WRITE 0 100 3)), Avail [9, 8, 7]]"
  have "serve ?c = ex_server" "rd_data (sock_in ?c) = request_raw_bytes (fill_request 1 2 REQUEST_WRITE 0 100 3) @ [9, 8, 7]"
    "sock_out ?c = []" "sock_wr ?c = []" "msync_fails ?c = []"
    using request_bytes_ne by (simp_all add: ex_client_def)
  moreover have "serve_size ex_server = 8192" "allocation_map_built ex_server" "\<not> server_closed ex_server"
    by (simp_all add: ex_server_def)
  ultimately show ?thesis using flexnbd_write_to_server [of ?c 1 2 100 3 "[9, 8, 7]" 3] ex_server_ok by (auto simp del: mem_write.simps)
qed

end
